(* ===== verification/Prelude.thy ===== *)
theory Prelude
  imports Main "HOL-Library.Word" "HOL-Library.AList" "HOL-Library.List_Lexorder"
    "HOL-Library.Char_ord"
begin

text \<open>
  Shared vocabulary of the development: the types of the program's data (bytes, strings, hash
  maps), the one error type that stands for \<open>anyhow::Error\<close> and panics, and the parts of
  the Rust standard library the sources call (slices, big-endian conversions, integer
  formatting and parsing, \<open>slice::binary_search\<close>), each with the lemmas its clients need.

  Conventions. A \<open>Vec<u8>\<close> is a list of 8-bit words, a Rust \<open>String\<close> is the list of
  its UTF-8 bytes written as an Isabelle string, lengths and positions inside a buffer are
  natural numbers (a buffer is shorter than \<open>2^63\<close> bytes), and an integer that is read from
  outside keeps its width by an explicit \<open>mod\<close> or \<open>take_bit\<close>. A Rust \<open>HashMap\<close> is an
  association list with distinct keys.
\<close>

unbundle bit_operations_syntax

named_theorems hmap_simps \<open>lookup equations of hash maps\<close>
named_theorems slice_simps \<open>slices of concatenated buffers\<close>
named_theorems hmap_wf \<open>distinct keys are kept\<close>

section \<open>Types and errors\<close>

type_synonym u8 = "8 word"
type_synonym bytes = "u8 list"
type_synonym ('k, 'v) hmap = "('k \<times> 'v) list"

text \<open>
  The error types of the components, one constructor per error the sources construct with
  \<open>anyhow!\<close> or return as an NFS status: messages are left out, the site that fails is kept.
  \<open>error\<close> stands for \<open>anyhow::Error\<close>, and \<open>Panic\<close> for a Rust panic.
\<close>

datatype pkt_error = Pkt_BadUtf8 | Pkt_BadHex | Pkt_TooLong | Pkt_Remote bytes | Pkt_NoPack

datatype tree_error = Tree_NoSpace | Tree_BadMode | Tree_NoNul | Tree_BadName | Tree_Truncated

datatype delta_error =
  Delta_VarintEof | Delta_Truncated | Delta_CopyRange | Delta_InsertRange | Delta_OpZero
| Delta_ResultSize

datatype pack_error =
  Pack_TooShort | Pack_BadMagic | Pack_BadVersion | Pack_BadType | Pack_Eof | Pack_NegBase
| Pack_Zlib | Pack_MissingBase

datatype idx_error =
  Idx_TooShort | Idx_BadMagic | Idx_BadVersion | Idx_Truncated | Idx_LargeOffset

datatype writer_error = Writer_BadHex | Writer_LargeOffset

datatype vfs_error = Vfs_NoDir | Vfs_NotDir | Vfs_NoChild | Vfs_NoNode | Vfs_EmptyPath

datatype repo_error =
  Repo_Cache | Repo_Http | Repo_NoBlob | Repo_NoRoot | Repo_Fetch | Repo_BadSha | Repo_BadHead | Repo_NoRef | Repo_BadLoose | Repo_Empty_Read

datatype nfs_status = Nfs_Noent | Nfs_Io | Nfs_Isdir | Nfs_Notdir | Nfs_Inval | Nfs_Rofs

datatype error =
  Panic | E_Pkt pkt_error | E_Tree tree_error | E_Delta delta_error | E_Pack pack_error
| E_Idx idx_error | E_Writer writer_error | E_Vfs vfs_error | E_Staging | E_Wal
| E_Repo repo_error | E_Nfs nfs_status | E_Output | E_Bind | E_Mount

type_synonym 'a result = "error + 'a"

definition res_bind :: "'a result \<Rightarrow> ('a \<Rightarrow> 'b result) \<Rightarrow> 'b result" where
  "res_bind r f = (case r of Inl e \<Rightarrow> Inl e | Inr x \<Rightarrow> f x)"

lemma res_bind_simps [simp]:
  "res_bind (Inl e) f = Inl e" "res_bind (Inr x) f = f x"
  by (simp_all add: res_bind_def)

lemma res_bind_Inr_iff: "res_bind r f = Inr y \<longleftrightarrow> (\<exists>x. r = Inr x \<and> f x = Inr y)"
  by (cases r) auto

text \<open>
  An operation on a state returns the state it leaves also when it fails: the state is the
  first component, \<open>and_then\<close> the question mark operator.
\<close>

definition and_then :: "'s \<times> 'a result \<Rightarrow> ('s \<Rightarrow> 'a \<Rightarrow> 's \<times> 'b result) \<Rightarrow> 's \<times> 'b result" where
  "and_then r f = (case r of (s, Inl e) \<Rightarrow> (s, Inl e) | (s, Inr x) \<Rightarrow> f s x)"

lemma and_then_simps [simp]:
  "and_then (s, Inl e) f = (s, Inl e)" "and_then (s, Inr x) f = f s x"
  by (simp_all add: and_then_def)

lemma fst_and_then:
  "P (fst r) \<Longrightarrow> (\<And>s x. r = (s, Inr x) \<Longrightarrow> P s \<Longrightarrow> P (fst (f s x))) \<Longrightarrow> P (fst (and_then r f))"
  by (cases r; cases "snd r") auto

lemma and_then_Inr: "and_then a f = (s', Inr u) \<Longrightarrow> \<exists>t x. a = (t, Inr x) \<and> f t x = (s', Inr u)"
  by (cases a; cases "snd a") auto

section \<open>Hash maps\<close>

abbreviation hm_get :: "('k, 'v) hmap \<Rightarrow> 'k \<Rightarrow> 'v option" where
  "hm_get \<equiv> map_of"
abbreviation hm_put :: "'k \<Rightarrow> 'v \<Rightarrow> ('k, 'v) hmap \<Rightarrow> ('k, 'v) hmap" where
  "hm_put \<equiv> AList.update"
abbreviation hm_del :: "'k \<Rightarrow> ('k, 'v) hmap \<Rightarrow> ('k, 'v) hmap" where
  "hm_del \<equiv> AList.delete"
abbreviation hm_keys :: "('k, 'v) hmap \<Rightarrow> 'k list" where
  "hm_keys m \<equiv> map fst m"

lemma hm_get_put [simp, hmap_simps]:
  "hm_get (hm_put k v m) k' = (if k' = k then Some v else hm_get m k')"
  by (simp add: update_conv')

lemma hm_get_del [simp, hmap_simps]:
  "hm_get (hm_del k m) k' = (if k' = k then None else hm_get m k')"
  by (simp add: delete_conv')

lemma hm_keys_put [simp, hmap_simps]: "set (hm_keys (hm_put k v m)) = insert k (set (hm_keys m))"
  by (induction m) auto

lemma hm_keys_del [simp, hmap_simps]: "set (hm_keys (hm_del k m)) = set (hm_keys m) - {k}"
  by (simp add: delete_keys)

lemma hm_fst_put [simp, hmap_simps]: "fst ` set (hm_put k v m) = insert k (fst ` set m)"
  using hm_keys_put [of k v m] by simp

lemma hm_fst_del [simp, hmap_simps]: "fst ` set (hm_del k m) = fst ` set m - {k}"
  using hm_keys_del [of k m] by simp

lemma hm_distinct_put [simp, hmap_wf]: "distinct (hm_keys m) \<Longrightarrow> distinct (hm_keys (hm_put k v m))"
  by (rule distinct_update)

lemma hm_distinct_del [simp, hmap_wf]: "distinct (hm_keys m) \<Longrightarrow> distinct (hm_keys (hm_del k m))"
  by (rule distinct_delete)

lemma hm_get_Some_in: "hm_get m k = Some v \<Longrightarrow> (k, v) \<in> set m"
  by (rule map_of_SomeD)

lemma hm_get_None_iff: "hm_get m k = None \<longleftrightarrow> k \<notin> set (hm_keys m)"
  by (simp add: map_of_eq_None_iff)

lemma hm_put_fresh: "k \<notin> set (hm_keys m) \<Longrightarrow> hm_put k v m = m @ [(k, v)]"
  by (induction m) auto

section \<open>Slices\<close>

definition slice :: "nat \<Rightarrow> nat \<Rightarrow> 'a list \<Rightarrow> 'a list" where
  "slice a b xs = take (b - a) (drop a xs)"

lemma length_slice [simp]: "length (slice a b xs) = min (b - a) (length xs - a)"
  by (simp add: slice_def min.commute)

lemma slice_app_right [slice_simps]:
  "length xs \<le> a \<Longrightarrow> slice a b (xs @ ys) = slice (a - length xs) (b - length xs) ys"
  by (simp add: slice_def)

lemma slice_app_left [slice_simps]: "b \<le> length xs \<Longrightarrow> slice a b (xs @ ys) = slice a b xs"
  by (simp add: slice_def)

lemma slice_all [slice_simps]: "length xs \<le> b \<Longrightarrow> slice 0 b xs = xs"
  by (simp add: slice_def)

lemma slice_prefix [slice_simps]: "slice 0 (length xs) (xs @ ys) = xs"
  by (simp add: slice_def)

lemma slice_mid: "slice (length xs) (length xs + length ys) (xs @ ys @ zs) = ys"
  by (simp add: slice_def)

lemma drop_slice: "drop n (slice a b xs) = slice (a + n) b xs"
  by (simp add: slice_def drop_take add.commute)

lemma slice_append: "a \<le> b \<Longrightarrow> b \<le> c \<Longrightarrow> slice a b xs @ slice b c xs = slice a c xs"
proof -
  assume ab: "a \<le> b" and bc: "b \<le> c"
  have "take (c - a) (drop a xs) = take (b - a) (drop a xs) @ take (c - b) (drop (b - a) (drop a xs))"
    using take_add [of "b - a" "c - b" "drop a xs"] ab bc by simp
  moreover have "drop (b - a) (drop a xs) = drop b xs" using ab by simp
  ultimately show ?thesis by (simp add: slice_def)
qed

lemma slice_slice: "slice i j (slice a b xs) = slice (a + i) (min (a + j) b) xs"
  by (simp add: slice_def drop_take add.commute min_def)

lemma slice_end: "length xs \<le> b \<Longrightarrow> length xs \<le> c \<Longrightarrow> slice a b xs = slice a c xs"
  by (simp add: slice_def)

lemma slice_same [simp]: "slice a a xs = []"
  by (simp add: slice_def)

fun position :: "('a \<Rightarrow> bool) \<Rightarrow> 'a list \<Rightarrow> nat option" where
  "position p [] = None"
| "position p (x # xs) = (if p x then Some 0 else map_option Suc (position p xs))"

lemma position_Some_less: "position p xs = Some i \<Longrightarrow> i < length xs"
  by (induction xs arbitrary: i) (auto split: if_splits)

lemma position_app: "(\<forall>x \<in> set xs. \<not> p x) \<Longrightarrow> p y \<Longrightarrow> position p (xs @ y # ys) = Some (length xs)"
  by (induction xs) auto

lemma position_None_iff: "position p xs = None \<longleftrightarrow> (\<forall>x \<in> set xs. \<not> p x)"
  by (induction xs) auto

section \<open>Bytes of a string\<close>

lemma unat_u8_less [simp]: "unat (b :: u8) < 256"
  using unsigned_less [of b] by simp

definition byte_of :: "char \<Rightarrow> u8" where
  "byte_of c = word_of_nat (of_char c)"
definition char_of_byte :: "u8 \<Rightarrow> char" where
  "char_of_byte b = char_of (unat b)"
definition str_bytes :: "string \<Rightarrow> bytes" where
  "str_bytes s = map byte_of s"
definition bytes_str :: "bytes \<Rightarrow> string" where
  "bytes_str bs = map char_of_byte bs"

lemma unat_byte_of [simp]: "unat (byte_of c) = of_char c"
  by (simp add: byte_of_def unat_of_nat of_char_mod_256)

lemma char_of_byte_of [simp]: "char_of_byte (byte_of c) = c"
  by (simp add: char_of_byte_def)

lemma byte_of_char_of [simp]: "byte_of (char_of_byte b) = b"
proof -
  have "of_char (char_of (unat b)) = unat b" by simp
  then show ?thesis by (simp add: byte_of_def char_of_byte_def)
qed

lemma byte_of_inject [simp]: "byte_of a = byte_of b \<longleftrightarrow> a = b"
  using char_of_byte_of by metis

lemma bytes_str_bytes [simp]: "bytes_str (str_bytes s) = s"
  by (simp add: bytes_str_def str_bytes_def comp_def)

lemma str_bytes_str [simp]: "str_bytes (bytes_str bs) = bs"
  by (simp add: bytes_str_def str_bytes_def comp_def)

lemma str_bytes_append [simp]: "str_bytes (s @ t) = str_bytes s @ str_bytes t"
  by (simp add: str_bytes_def)

lemma bytes_str_append [simp]: "bytes_str (s @ t) = bytes_str s @ bytes_str t"
  by (simp add: bytes_str_def)

lemma length_str_bytes [simp]: "length (str_bytes s) = length s"
  by (simp add: str_bytes_def)

lemma length_bytes_str [simp]: "length (bytes_str s) = length s"
  by (simp add: bytes_str_def)

lemma str_bytes_inject [simp]: "str_bytes s = str_bytes t \<longleftrightarrow> s = t"
  by (metis bytes_str_bytes)

lemma set_str_bytes: "set (str_bytes s) = byte_of ` set s"
  by (simp add: str_bytes_def)

section \<open>Big-endian integers\<close>

fun to_be :: "nat \<Rightarrow> nat \<Rightarrow> bytes" where
  "to_be 0 n = []"
| "to_be (Suc k) n = to_be k (n div 256) @ [word_of_nat (n mod 256)]"

definition from_be :: "bytes \<Rightarrow> nat" where
  "from_be bs = foldl (\<lambda>a b. a * 256 + unat b) 0 bs"

lemma length_to_be [simp]: "length (to_be k n) = k"
  by (induction k arbitrary: n) auto

lemma from_be_snoc [simp]: "from_be (bs @ [b]) = from_be bs * 256 + unat b"
  by (simp add: from_be_def)

lemma unat_word_mod256 [simp]: "unat (word_of_nat (n mod 256) :: u8) = n mod 256"
  by (simp add: unat_of_nat)

lemma from_to_be: "from_be (to_be k n) = n mod 256 ^ k"
proof (induction k arbitrary: n)
  case 0
  then show ?case by (simp add: from_be_def)
next
  case (Suc k)
  have "from_be (to_be (Suc k) n) = (n div 256) mod 256 ^ k * 256 + n mod 256"
    by (simp add: Suc)
  also have "\<dots> = n mod (256 * 256 ^ k)"
    by (simp add: mod_mult2_eq ac_simps)
  finally show ?case by simp
qed

lemma from_be_less: "from_be bs < 256 ^ length bs"
proof (induction bs rule: rev_induct)
  case Nil
  then show ?case by (simp add: from_be_def)
next
  case (snoc b bs)
  have "unat b < 256" by simp
  moreover have "from_be bs * 256 + 256 \<le> 256 ^ length bs * 256"
    using snoc mult_le_mono1 [of "Suc (from_be bs)" "256 ^ length bs" 256] by simp
  ultimately have "from_be bs * 256 + unat b < 256 ^ length bs * 256" by linarith
  then show ?case by (simp add: mult.commute)
qed

section \<open>Formatting and parsing integers\<close>

text \<open>
  \<open>to_radix\<close> is \<open>format!\<close> with \<open>{}\<close>, \<open>{:o}\<close> or \<open>{:x}\<close>; \<open>pad_left\<close> the zero-padded
  width of \<open>{:04x}\<close>. \<open>from_radix\<close> is \<open>from_str_radix\<close> of an unsigned type with the given
  largest value: an optional plus sign, at least one digit, and an overflow check at every digit.
\<close>

definition digit_char :: "nat \<Rightarrow> char" where
  "digit_char d = (if d < 10 then char_of (48 + d) else char_of (87 + d))"

fun to_radix :: "nat \<Rightarrow> nat \<Rightarrow> string" where
  "to_radix b n =
     (if b < 2 \<or> n < b then [digit_char n] else to_radix b (n div b) @ [digit_char (n mod b)])"

declare to_radix.simps [simp del]

definition pad_left :: "nat \<Rightarrow> char \<Rightarrow> string \<Rightarrow> string" where
  "pad_left w c s = replicate (w - length s) c @ s"

definition digit_val :: "nat \<Rightarrow> char \<Rightarrow> nat option" where
  "digit_val b c =
     (let n = of_char c :: nat;
          d = (if 48 \<le> n \<and> n \<le> 57 then n - 48
               else if 97 \<le> n \<and> n \<le> 122 then n - 87
               else if 65 \<le> n \<and> n \<le> 90 then n - 55 else 99)
      in if d < b then Some d else None)"

fun radix_loop :: "nat \<Rightarrow> nat \<Rightarrow> nat \<Rightarrow> string \<Rightarrow> nat option" where
  "radix_loop b m acc [] = Some acc"
| "radix_loop b m acc (c # cs) =
     (case digit_val b c of
        None \<Rightarrow> None
      | Some d \<Rightarrow> if acc * b + d > m then None else radix_loop b m (acc * b + d) cs)"

definition from_radix :: "nat \<Rightarrow> nat \<Rightarrow> string \<Rightarrow> nat option" where
  "from_radix b m s =
     (case s of
        [] \<Rightarrow> None
      | c # cs \<Rightarrow> if c = CHR ''+'' then (if cs = [] then None else radix_loop b m 0 cs)
                  else radix_loop b m 0 s)"

abbreviation u64_max :: nat where "u64_max \<equiv> 18446744073709551615"
abbreviation u32_max :: nat where "u32_max \<equiv> 4294967295"

lemma digit_val_char: "d < b \<Longrightarrow> b \<le> 36 \<Longrightarrow> digit_val b (digit_char d) = Some d"
  by (auto simp: digit_val_def digit_char_def Let_def  of_char_of)

lemma digit_char_not_plus: "d < 36 \<Longrightarrow> digit_char d \<noteq> CHR ''+''"
proof
  assume d: "d < 36" and "digit_char d = CHR ''+''"
  then have "(of_char (digit_char d) :: nat) = 43" by simp
  with d show False by (auto simp: digit_char_def of_char_of split: if_splits)
qed

lemma to_radix_nonempty [simp]: "to_radix b n \<noteq> []"
  by (subst to_radix.simps) simp

lemma radix_loop_app:
  "radix_loop b m acc (s @ t) =
     (case radix_loop b m acc s of None \<Rightarrow> None | Some a \<Rightarrow> radix_loop b m a t)"
  by (induction s arbitrary: acc) (auto split: option.splits)

lemma radix_loop_to_radix:
  "2 \<le> b \<Longrightarrow> b \<le> 36 \<Longrightarrow> n \<le> m \<Longrightarrow> radix_loop b m 0 (to_radix b n) = Some n"
proof (induction b n rule: to_radix.induct)
  case (1 b n)
  show ?case
  proof (cases "n < b")
    case True
    then show ?thesis using 1 by (subst to_radix.simps) (simp add: digit_val_char)
  next
    case False
    have "n div b \<le> m" using "1.prems"(3) div_le_dividend le_trans by blast
    then have ih: "radix_loop b m 0 (to_radix b (n div b)) = Some (n div b)"
      using 1 False by simp
    have "n mod b < b" using "1.prems" by simp
    then have "digit_val b (digit_char (n mod b)) = Some (n mod b)"
      using "1.prems" by (simp add: digit_val_char)
    then show ?thesis using "1.prems" False ih
      by (subst to_radix.simps) (simp add: radix_loop_app)
  qed
qed

lemma set_to_radix: "2 \<le> b \<Longrightarrow> c \<in> set (to_radix b n) \<Longrightarrow> \<exists>d < b. c = digit_char d"
proof (induction b n rule: to_radix.induct)
  case (1 b n)
  show ?case
  proof (cases "n < b")
    case True
    then show ?thesis using 1 by (auto simp: to_radix.simps [of b n])
  next
    case False
    have "n mod b < b" using "1.prems" by simp
    moreover have "c \<in> set (to_radix b (n div b)) \<or> c = digit_char (n mod b)"
      using "1.prems" False by (subst (asm) to_radix.simps) auto
    ultimately show ?thesis using "1.IH" "1.prems"(1) False by (metis less_le_not_le not_less)
  qed
qed

lemma from_radix_no_plus: "s \<noteq> [] \<Longrightarrow> hd s \<noteq> CHR ''+'' \<Longrightarrow> from_radix b m s = radix_loop b m 0 s"
  by (cases s) (auto simp: from_radix_def)

lemma radix_loop_zeros:
  "2 \<le> b \<Longrightarrow> b \<le> 36 \<Longrightarrow> radix_loop b m 0 (replicate k (CHR ''0'') @ s) = radix_loop b m 0 s"
  by (induction k) (auto simp: digit_val_def)

lemma from_radix_pad:
  assumes "2 \<le> b" "b \<le> 36" "n \<le> m"
  shows "from_radix b m (pad_left w (CHR ''0'') (to_radix b n)) = Some n"
proof -
  let ?s = "pad_left w (CHR ''0'') (to_radix b n)"
  have "hd (to_radix b n) \<in> set (to_radix b n)" by simp
  then have "hd (to_radix b n) \<noteq> CHR ''+''"
    using set_to_radix [OF assms(1)] digit_char_not_plus assms(2)
    by (metis order.strict_trans2)
  then have "hd ?s \<noteq> CHR ''+''"
    by (cases "w - length (to_radix b n)") (auto simp: pad_left_def)
  moreover have "?s \<noteq> []" by (simp add: pad_left_def)
  ultimately have "from_radix b m ?s = radix_loop b m 0 ?s"
    by (rule from_radix_no_plus [rotated])
  then show ?thesis
    using assms by (simp add: pad_left_def radix_loop_zeros radix_loop_to_radix)
qed

lemma from_to_radix:
  assumes "2 \<le> b" "b \<le> 36" "n \<le> m"
  shows "from_radix b m (to_radix b n) = Some n"
  using from_radix_pad [OF assms, of 0] by (simp add: pad_left_def)

lemma to_radix_inject: "to_radix 10 a = to_radix 10 b \<longleftrightarrow> a = b"
proof
  assume eq: "to_radix 10 a = to_radix 10 b"
  have "from_radix 10 (a + b) (to_radix 10 a) = Some a" "from_radix 10 (a + b) (to_radix 10 b) = Some b"
    by (rule from_to_radix; simp)+
  then show "a = b" unfolding eq by (simp only: option.inject)
qed simp

lemma length_to_radix_le: "2 \<le> b \<Longrightarrow> n < b ^ k \<Longrightarrow> 0 < k \<Longrightarrow> length (to_radix b n) \<le> k"
proof (induction k arbitrary: n)
  case 0
  then show ?case by simp
next
  case (Suc k)
  show ?case
  proof (cases "n < b")
    case True
    then show ?thesis by (subst to_radix.simps) simp
  next
    case False
    then have "k \<noteq> 0" using Suc.prems by (cases k) auto
    moreover have "n div b < b ^ k"
      using Suc.prems by (simp add: less_mult_imp_div_less mult.commute)
    ultimately have "length (to_radix b (n div b)) \<le> k" using Suc by simp
    then show ?thesis using False Suc.prems by (subst to_radix.simps) simp
  qed
qed

section \<open>slice::binary\_search\<close>

text \<open>
  The loop of the standard library (Rust 1.82 and later): \<open>base\<close> moves right while the
  probe is not greater than the key, and one comparison at the end decides. \<open>Inr i\<close> is
  \<open>Ok(i)\<close>, \<open>Inl i\<close> is \<open>Err(i)\<close>.
\<close>

function bsearch_loop :: "'a::linorder list \<Rightarrow> 'a \<Rightarrow> nat \<Rightarrow> nat \<Rightarrow> nat" where
  "bsearch_loop xs x base sz =
     (if sz > 1 then
        (let half = sz div 2; mid = base + half
         in bsearch_loop xs x (if xs ! mid > x then base else mid) (sz - half))
      else base)"
  by pat_completeness auto
termination
  by (relation "measure (\<lambda>(xs, x, base, sz). sz)") auto

declare bsearch_loop.simps [simp del]

definition binary_search :: "'a::linorder list \<Rightarrow> 'a \<Rightarrow> nat + nat" where
  "binary_search xs x =
     (if xs = [] then Inl 0
      else let base = bsearch_loop xs x 0 (length xs)
           in if xs ! base = x then Inr base
              else Inl (if xs ! base < x then base + 1 else base))"

lemma bsearch_loop_bounds:
  "0 < sz \<Longrightarrow> base \<le> bsearch_loop xs x base sz \<and> bsearch_loop xs x base sz < base + sz"
proof (induction xs x base sz rule: bsearch_loop.induct)
  case (1 xs x base sz)
  show ?case
  proof (cases "sz > 1")
    case True
    let ?b = "if xs ! (base + sz div 2) > x then base else base + sz div 2"
    have "?b \<le> bsearch_loop xs x ?b (sz - sz div 2)
        \<and> bsearch_loop xs x ?b (sz - sz div 2) < ?b + (sz - sz div 2)"
      using 1 True by (auto simp: Let_def split: if_splits)
    moreover have "base \<le> ?b" "?b + (sz - sz div 2) \<le> base + sz" using True by auto
    ultimately have "base \<le> bsearch_loop xs x ?b (sz - sz div 2)
        \<and> bsearch_loop xs x ?b (sz - sz div 2) < base + sz" by linarith
    moreover have "bsearch_loop xs x base sz = bsearch_loop xs x ?b (sz - sz div 2)"
      using True by (subst bsearch_loop.simps) (simp add: Let_def)
    ultimately show ?thesis by simp
  next
    case False
    then show ?thesis using 1 by (subst (1 2) bsearch_loop.simps) auto
  qed
qed

lemma bsearch_loop_greater:
  "sorted xs \<Longrightarrow> 0 < sz \<Longrightarrow> base + sz \<le> length xs \<Longrightarrow>
   \<forall>j. base + sz \<le> j \<and> j < length xs \<longrightarrow> x < xs ! j \<Longrightarrow>
   \<forall>j. bsearch_loop xs x base sz < j \<and> j < length xs \<longrightarrow> x < xs ! j"
proof (induction xs x base sz rule: bsearch_loop.induct)
  case (1 xs x base sz)
  show ?case
  proof (cases "sz > 1")
    case True
    define h where "h = sz div 2"
    define b where "b = (if xs ! (base + h) > x then base else base + h)"
    have h: "0 < h" "0 < sz - h" "h \<le> sz - h" "h \<le> sz" using True by (auto simp: h_def)
    have eq: "bsearch_loop xs x base sz = bsearch_loop xs x b (sz - h)"
      using True by (subst bsearch_loop.simps) (simp add: Let_def b_def h_def)
    have up: "x < xs ! j" if j: "b + (sz - h) \<le> j" "j < length xs" for j
    proof (cases "xs ! (base + h) > x")
      case gt: True
      then have "base + h \<le> j" using j h by (simp add: b_def)
      then have "xs ! (base + h) \<le> xs ! j" using "1.prems"(1) j(2) by (simp add: sorted_nth_mono)
      with gt show ?thesis by simp
    next
      case False
      with j h "1.prems"(4) show ?thesis by (simp add: b_def)
    qed
    have len: "b + (sz - h) \<le> length xs" using "1.prems"(3) h by (auto simp: b_def)
    have "\<forall>j. bsearch_loop xs x b (sz - h) < j \<and> j < length xs \<longrightarrow> x < xs ! j"
      using "1.IH" [OF True refl refl "1.prems"(1)] h(2) len up
      unfolding b_def h_def by blast
    then show ?thesis unfolding eq .
  next
    case False
    then have "bsearch_loop xs x base sz = base" "base + sz = Suc base"
      using "1.prems"(2) by (simp_all add: bsearch_loop.simps [of xs x base sz])
    with "1.prems"(4) show ?thesis by simp
  qed
qed

lemma binary_search_Inr:
  "binary_search xs x = Inr i \<Longrightarrow> i < length xs \<and> xs ! i = x"
  using bsearch_loop_bounds [of "length xs" 0 xs x]
  by (auto simp: binary_search_def Let_def split: if_splits)

lemma binary_search_last:
  "sorted xs \<Longrightarrow> binary_search xs x = Inr i \<Longrightarrow> i < j \<Longrightarrow> j < length xs \<Longrightarrow> x < xs ! j"
  by (rule bsearch_loop_greater [of xs "length xs" 0 x, rule_format])
    (auto simp: binary_search_def Let_def split: if_splits)

lemma bsearch_loop_le:
  "sorted xs \<Longrightarrow> 0 < sz \<Longrightarrow> base + sz \<le> length xs \<Longrightarrow> xs ! base \<le> x \<Longrightarrow>
   xs ! (bsearch_loop xs x base sz) \<le> x"
proof (induction xs x base sz rule: bsearch_loop.induct)
  case (1 xs x base sz)
  show ?case
  proof (cases "sz > 1")
    case True
    let ?b = "if xs ! (base + sz div 2) > x then base else base + sz div 2"
    have "bsearch_loop xs x base sz = bsearch_loop xs x ?b (sz - sz div 2)"
      using True by (subst bsearch_loop.simps) (simp add: Let_def)
    moreover have "?b + (sz - sz div 2) \<le> length xs" "0 < sz - sz div 2" "xs ! ?b \<le> x"
      using "1.prems" True by auto
    ultimately show ?thesis using "1.IH" [OF True refl refl "1.prems"(1)] by simp
  next
    case False
    with "1.prems" show ?thesis by (subst bsearch_loop.simps) auto
  qed
qed

lemma binary_search_complete:
  assumes "sorted xs" "x \<in> set xs"
  shows "\<exists>i. binary_search xs x = Inr i"
proof -
  let ?b = "bsearch_loop xs x 0 (length xs)"
  from assms(2) obtain k where k: "k < length xs" "xs ! k = x" by (auto simp: in_set_conv_nth)
  then have ne: "0 < length xs" by auto
  have "xs ! 0 \<le> x" using assms(1) k sorted_nth_mono [of xs 0 k] by auto
  then have le: "xs ! ?b \<le> x" using bsearch_loop_le [of xs "length xs" 0 x] assms(1) ne by simp
  have gt: "\<forall>j. ?b < j \<and> j < length xs \<longrightarrow> x < xs ! j"
    by (rule bsearch_loop_greater) (use assms(1) ne in auto)
  have "k \<le> ?b" using gt k by (metis leI less_irrefl)
  then have "x \<le> xs ! ?b"
    using assms(1) k bsearch_loop_bounds [of "length xs" 0 xs x] ne
    by (metis add_0 sorted_nth_mono)
  with le have "xs ! ?b = x" by simp
  with ne show ?thesis by (auto simp: binary_search_def Let_def)
qed

end
