(* ===== verification/Rust_Text.thy ===== *)
theory Rust_Text
  imports Prelude
begin

text \<open>
  The text operations of the Rust standard library that the sources use: UTF-8 validation
  (\<open>str::from_utf8\<close>), lossy decoding (\<open>String::from_utf8_lossy\<close>), trimming, splitting,
  joining and the line iterator, on strings represented by their UTF-8 bytes.
\<close>

section \<open>UTF-8\<close>

text \<open>
  \<open>utf8_step\<close> looks at the first character of a buffer: \<open>(True, n)\<close> when its first \<open>n\<close>
  bytes are a character, \<open>(False, n)\<close> when its first \<open>n\<close> bytes are the maximal invalid
  part that \<open>Utf8Chunks\<close> replaces by one replacement character.
\<close>

definition safe_get :: "bytes \<Rightarrow> nat \<Rightarrow> u8" where
  "safe_get bs i = (if i < length bs then bs ! i else 0)"

definition is_cont :: "u8 \<Rightarrow> bool" where
  "is_cont b \<longleftrightarrow> b AND 192 = 128"

definition second_of_3 :: "u8 \<Rightarrow> u8 \<Rightarrow> bool" where
  "second_of_3 b c \<longleftrightarrow>
     (if b = 0xE0 then 0xA0 \<le> c \<and> c \<le> 0xBF
      else if b = 0xED then 0x80 \<le> c \<and> c \<le> 0x9F
      else 0x80 \<le> c \<and> c \<le> 0xBF)"

definition second_of_4 :: "u8 \<Rightarrow> u8 \<Rightarrow> bool" where
  "second_of_4 b c \<longleftrightarrow>
     (if b = 0xF0 then 0x90 \<le> c \<and> c \<le> 0xBF
      else if b = 0xF4 then 0x80 \<le> c \<and> c \<le> 0x8F
      else 0x80 \<le> c \<and> c \<le> 0xBF)"

definition utf8_char_width :: "u8 \<Rightarrow> nat" where
  "utf8_char_width b =
     (if b < 0x80 then 1
      else if 0xC2 \<le> b \<and> b \<le> 0xDF then 2
      else if 0xE0 \<le> b \<and> b \<le> 0xEF then 3
      else if 0xF0 \<le> b \<and> b \<le> 0xF4 then 4 else 0)"

definition utf8_first :: "nat \<Rightarrow> bool \<Rightarrow> bool \<Rightarrow> bool \<Rightarrow> bool \<Rightarrow> bool \<times> nat" where
  "utf8_first w second3 second4 cont2 cont3 =
     (if w = 1 then (True, 1)
      else if w = 2 then (if second3 then (True, 2) else (False, 1))
      else if w = 3 then
        (if second3 then (if cont2 then (True, 3) else (False, 2)) else (False, 1))
      else if w = 4 then
        (if second4 then
           (if cont2 then (if cont3 then (True, 4) else (False, 3)) else (False, 2))
         else (False, 1))
      else (False, 1))"

definition utf8_step :: "bytes \<Rightarrow> bool \<times> nat" where
  "utf8_step bs =
     (let b = safe_get bs 0; w = utf8_char_width b in
      utf8_first w
        (if w = 2 then is_cont (safe_get bs 1) else second_of_3 b (safe_get bs 1))
        (second_of_4 b (safe_get bs 1)) (is_cont (safe_get bs 2)) (is_cont (safe_get bs 3)))"

lemma utf8_step_pos: "0 < snd (utf8_step bs)"
  by (simp add: utf8_step_def utf8_first_def Let_def)

function utf8_valid :: "bytes \<Rightarrow> bool" where
  "utf8_valid bs =
     (if bs = [] then True
      else fst (utf8_step bs) \<and> utf8_valid (drop (snd (utf8_step bs)) bs))"
  by pat_completeness auto
termination
  by (relation "measure length") (use utf8_step_pos in auto)

declare utf8_valid.simps [simp del]

function utf8_lossy :: "bytes \<Rightarrow> bytes" where
  "utf8_lossy bs =
     (if bs = [] then []
      else (if fst (utf8_step bs) then take (snd (utf8_step bs)) bs else [0xEF, 0xBF, 0xBD])
           @ utf8_lossy (drop (snd (utf8_step bs)) bs))"
  by pat_completeness auto
termination
  by (relation "measure length") (use utf8_step_pos in auto)

declare utf8_lossy.simps [simp del]

definition from_utf8 :: "bytes \<Rightarrow> string option" where
  "from_utf8 bs = (if utf8_valid bs then Some (bytes_str bs) else None)"

definition from_utf8_lossy :: "bytes \<Rightarrow> string" where
  "from_utf8_lossy bs = bytes_str (utf8_lossy bs)"

lemma cont_nonzero: "is_cont c \<Longrightarrow> c \<noteq> 0"
  by (auto simp: is_cont_def)

lemma second_nonzero: "second_of_3 b c \<Longrightarrow> c \<noteq> 0" "second_of_4 b c \<Longrightarrow> c \<noteq> 0"
  by (auto simp: second_of_3_def second_of_4_def split: if_splits)

lemma safe_get_app: "safe_get xs i \<noteq> 0 \<Longrightarrow> safe_get (xs @ ys) i = safe_get xs i"
  by (auto simp: safe_get_def nth_append)

lemma safe_get_len: "safe_get xs i \<noteq> 0 \<Longrightarrow> i < length xs"
  by (auto simp: safe_get_def split: if_splits)

text \<open>The bytes of the reported part are present, and no later byte matters.\<close>

lemma utf8_first_needs:
  "2 \<le> snd (utf8_first w s3 s4 k2 k3) \<Longrightarrow> s3 \<or> s4"
  "3 \<le> snd (utf8_first w s3 s4 k2 k3) \<Longrightarrow> k2"
  "4 \<le> snd (utf8_first w s3 s4 k2 k3) \<Longrightarrow> k3"
  by (cases s3; cases s4; cases k2; cases k3; simp add: utf8_first_def split: if_split_asm)+

lemma utf8_first_bound: "snd (utf8_first w s3 s4 k2 k3) \<le> 4"
  by (simp add: utf8_first_def)

lemma utf8_first_local:
  assumes "fst (utf8_first w s3 s4 k2 k3)"
    and "2 \<le> snd (utf8_first w s3 s4 k2 k3) \<Longrightarrow> t3 = s3 \<and> t4 = s4"
    and "3 \<le> snd (utf8_first w s3 s4 k2 k3) \<Longrightarrow> j2 = k2"
    and "4 \<le> snd (utf8_first w s3 s4 k2 k3) \<Longrightarrow> j3 = k3"
  shows "utf8_first w t3 t4 j2 j3 = utf8_first w s3 s4 k2 k3"
  using assms
  by (cases "w = 1"; cases "w = 2"; cases "w = 3"; cases "w = 4";
      simp add: utf8_first_def split: if_split_asm)

lemma utf8_step_len:
  assumes "bs \<noteq> []"
  shows "snd (utf8_step bs) \<le> length bs"
proof -
  have "0 < length bs" "snd (utf8_step bs) \<le> 4"
    using assms by (simp_all add: utf8_step_def Let_def utf8_first_bound)
  moreover have "2 \<le> snd (utf8_step bs) \<Longrightarrow> 1 < length bs"
    unfolding utf8_step_def Let_def
    by (drule utf8_first_needs(1), rule safe_get_len)
      (use cont_nonzero second_nonzero in \<open>auto split: if_split_asm\<close>)
  moreover have "3 \<le> snd (utf8_step bs) \<Longrightarrow> 2 < length bs"
    unfolding utf8_step_def Let_def
    by (drule utf8_first_needs(2), rule safe_get_len) (rule cont_nonzero)
  moreover have "4 \<le> snd (utf8_step bs) \<Longrightarrow> 3 < length bs"
    unfolding utf8_step_def Let_def
    by (drule utf8_first_needs(3), rule safe_get_len) (rule cont_nonzero)
  ultimately show ?thesis by linarith
qed

lemma utf8_step_agree:
  assumes "fst (utf8_step xs)"
    and agree: "\<And>i. i < snd (utf8_step xs) \<Longrightarrow> safe_get ys i = safe_get xs i"
  shows "utf8_step ys = utf8_step xs"
proof -
  have 0: "safe_get ys 0 = safe_get xs 0" using agree utf8_step_pos by blast
  have "i < n \<Longrightarrow> Suc i \<le> n" for i n :: nat by simp
  then show ?thesis
    using assms(1) agree [of 1] agree [of 2] agree [of 3]
    unfolding utf8_step_def Let_def 0
    by (intro utf8_first_local) simp_all
qed

lemma utf8_step_app:
  assumes "fst (utf8_step xs)" "xs \<noteq> []"
  shows "utf8_step (xs @ ys) = utf8_step xs"
  using assms(1)
proof (rule utf8_step_agree)
  fix i assume "i < snd (utf8_step xs)"
  then have "i < length xs" using utf8_step_len [OF assms(2)] by simp
  then show "safe_get (xs @ ys) i = safe_get xs i" by (simp add: safe_get_def nth_append)
qed

lemma utf8_valid_Nil [simp]: "utf8_valid []"
  by (simp add: utf8_valid.simps)

lemma utf8_valid_append: "utf8_valid xs \<Longrightarrow> utf8_valid ys \<Longrightarrow> utf8_valid (xs @ ys)"
proof (induction xs rule: utf8_valid.induct)
  case (1 xs)
  show ?case
  proof (cases "xs = []")
    case False
    with "1.prems"(1) have st: "fst (utf8_step xs)" "utf8_valid (drop (snd (utf8_step xs)) xs)"
      by (simp_all add: utf8_valid.simps [of xs])
    have eq: "utf8_step (xs @ ys) = utf8_step xs" using st(1) False by (rule utf8_step_app)
    have "utf8_valid (drop (snd (utf8_step xs)) xs @ ys)"
      using "1.IH" False st "1.prems"(2) by blast
    then show ?thesis
      using False st(1) eq utf8_step_len [OF False] by (subst utf8_valid.simps) simp
  qed (use "1.prems" in simp)
qed

lemma utf8_valid_ascii: "\<forall>b \<in> set bs. b < 0x80 \<Longrightarrow> utf8_valid bs"
proof (induction bs)
  case (Cons b bs)
  then have "utf8_step (b # bs) = (True, 1)"
    by (simp add: utf8_step_def utf8_first_def safe_get_def utf8_char_width_def Let_def)
  with Cons show ?case by (subst utf8_valid.simps) simp
qed simp

lemma utf8_valid_str_ascii: "\<forall>c \<in> set s. of_char c < (128 :: nat) \<Longrightarrow> utf8_valid (str_bytes s)"
  by (rule utf8_valid_ascii) (auto simp: set_str_bytes word_less_nat_alt)

lemma from_utf8_str: "utf8_valid (str_bytes s) \<Longrightarrow> from_utf8 (str_bytes s) = Some s"
  by (simp add: from_utf8_def)

lemma utf8_lossy_valid: "utf8_valid bs \<Longrightarrow> utf8_lossy bs = bs"
proof (induction bs rule: utf8_lossy.induct)
  case (1 bs)
  show ?case
  proof (cases "bs = []")
    case True
    then show ?thesis by (simp add: utf8_lossy.simps)
  next
    case False
    with "1.prems" have "fst (utf8_step bs)" "utf8_valid (drop (snd (utf8_step bs)) bs)"
      by (simp_all add: utf8_valid.simps [of bs])
    with "1.IH" False show ?thesis by (subst utf8_lossy.simps) simp
  qed
qed

lemma from_utf8_lossy_str: "utf8_valid (str_bytes s) \<Longrightarrow> from_utf8_lossy (str_bytes s) = s"
  by (simp add: from_utf8_lossy_def utf8_lossy_valid)

text \<open>Lossy decoding always yields a Rust string.\<close>

lemma safe_get_take: "i < n \<Longrightarrow> safe_get (take n bs) i = safe_get bs i"
  by (simp add: safe_get_def)

lemma utf8_valid_step_prefix:
  assumes "bs \<noteq> []" "fst (utf8_step bs)"
  shows "utf8_valid (take (snd (utf8_step bs)) bs)"
proof -
  let ?n = "snd (utf8_step bs)"
  have "utf8_step (take ?n bs) = utf8_step bs"
    using assms(2) by (rule utf8_step_agree) (simp add: safe_get_take)
  then show ?thesis
    using assms by (subst utf8_valid.simps) simp
qed

lemma utf8_valid_lossy: "utf8_valid (utf8_lossy bs)"
proof (induction bs rule: utf8_lossy.induct)
  case (1 bs)
  have "utf8_valid [0xEF, 0xBF, 0xBD]"
    by (simp add: utf8_valid.simps utf8_step_def utf8_first_def safe_get_def second_of_3_def
        is_cont_def utf8_char_width_def)
  then have pre: "utf8_valid (if fst (utf8_step bs) then take (snd (utf8_step bs)) bs
      else [0xEF, 0xBF, 0xBD])" if "bs \<noteq> []"
    using that utf8_valid_step_prefix by simp
  show ?case
  proof (cases "bs = []")
    case True
    then show ?thesis by (simp add: utf8_lossy.simps)
  next
    case False
    then show ?thesis
      using utf8_valid_append [OF pre "1.IH"]
      by (subst utf8_lossy.simps) (simp only: if_False not_False_eq_True)
  qed
qed

section \<open>Prefixes, suffixes and trimming\<close>

definition starts_with :: "string \<Rightarrow> string \<Rightarrow> bool" where
  "starts_with p s \<longleftrightarrow> take (length p) s = p"

definition ends_with :: "string \<Rightarrow> string \<Rightarrow> bool" where
  "ends_with p s \<longleftrightarrow> starts_with (rev p) (rev s)"

definition strip_prefix :: "string \<Rightarrow> string \<Rightarrow> string option" where
  "strip_prefix p s = (if starts_with p s then Some (drop (length p) s) else None)"

definition strip_suffix :: "string \<Rightarrow> string \<Rightarrow> string option" where
  "strip_suffix p s = (if ends_with p s then Some (take (length s - length p) s) else None)"

lemma starts_with_nonempty: "e \<noteq> [] \<Longrightarrow> starts_with e s \<Longrightarrow> s \<noteq> [] \<and> 0 < length e"
  by (auto simp: starts_with_def)

text \<open>\<open>strip_any es s\<close> removes members of \<open>es\<close> from the front of \<open>s\<close> as long as one matches.\<close>

function strip_any :: "string list \<Rightarrow> string \<Rightarrow> string" where
  "strip_any es s =
     (case find (\<lambda>e. e \<noteq> [] \<and> starts_with e s) es of
        None \<Rightarrow> s
      | Some e \<Rightarrow> strip_any es (drop (length e) s))"
  by pat_completeness auto
termination
  by (relation "measure (\<lambda>(es, s). length s)")
    (use starts_with_nonempty in \<open>auto simp: find_Some_iff\<close>)

declare strip_any.simps [simp del]

text \<open>The UTF-8 encodings of the characters with the Unicode property White\_Space.\<close>

definition ws_encodings :: "string list" where
  "ws_encodings =
     [[CHR 0x09], [CHR 0x0A], [CHR 0x0B], [CHR 0x0C], [CHR 0x0D], [CHR 0x20],
      [CHR 0xC2, CHR 0x85], [CHR 0xC2, CHR 0xA0], [CHR 0xE1, CHR 0x9A, CHR 0x80]]
     @ map (\<lambda>c. [CHR 0xE2, CHR 0x80, c])
         [CHR 0x80, CHR 0x81, CHR 0x82, CHR 0x83, CHR 0x84, CHR 0x85, CHR 0x86, CHR 0x87,
          CHR 0x88, CHR 0x89, CHR 0x8A, CHR 0xA8, CHR 0xA9, CHR 0xAF]
     @ [[CHR 0xE2, CHR 0x81, CHR 0x9F], [CHR 0xE3, CHR 0x80, CHR 0x80]]"

definition trim_start :: "string \<Rightarrow> string" where
  "trim_start s = strip_any ws_encodings s"
definition trim_end :: "string \<Rightarrow> string" where
  "trim_end s = rev (strip_any (map rev ws_encodings) (rev s))"
definition trim :: "string \<Rightarrow> string" where
  "trim s = trim_end (trim_start s)"

definition trim_start_char :: "char \<Rightarrow> string \<Rightarrow> string" where
  "trim_start_char c s = dropWhile (\<lambda>x. x = c) s"
definition trim_end_char :: "char \<Rightarrow> string \<Rightarrow> string" where
  "trim_end_char c s = rev (dropWhile (\<lambda>x. x = c) (rev s))"
definition trim_char :: "char \<Rightarrow> string \<Rightarrow> string" where
  "trim_char c s = trim_end_char c (trim_start_char c s)"

lemma trim_end_char_snoc: "trim_end_char c (s @ [c]) = trim_end_char c s"
  by (simp add: trim_end_char_def)

lemma trim_end_char_id: "s = [] \<or> last s \<noteq> c \<Longrightarrow> trim_end_char c s = s"
  by (cases s rule: rev_cases) (auto simp: trim_end_char_def)

lemma trim_start_char_id: "s = [] \<or> hd s \<noteq> c \<Longrightarrow> trim_start_char c s = s"
  by (cases s) (auto simp: trim_start_char_def)

section \<open>Splitting and joining\<close>

fun split_on :: "char \<Rightarrow> string \<Rightarrow> string list" where
  "split_on c [] = [[]]"
| "split_on c (x # xs) =
     (if x = c then [] # split_on c xs
      else (case split_on c xs of [] \<Rightarrow> [[x]] | p # ps \<Rightarrow> (x # p) # ps))"

fun join :: "string \<Rightarrow> string list \<Rightarrow> string" where
  "join sep [] = []"
| "join sep [x] = x"
| "join sep (x # y # ys) = x @ sep @ join sep (y # ys)"

lemma split_on_nonempty [simp]: "split_on c s \<noteq> []"
  by (induction s) (auto split: list.splits)

lemma join_split_on: "join [c] (split_on c s) = s"
proof (induction s)
  case (Cons x s)
  obtain p ps where ps: "split_on c s = p # ps" using split_on_nonempty by (cases "split_on c s") auto
  with Cons show ?case by (cases ps) auto
qed simp

lemma split_on_free: "c \<notin> set p \<Longrightarrow> split_on c p = [p]"
  by (induction p) auto

lemma split_on_app: "c \<notin> set p \<Longrightarrow> split_on c (p @ c # s) = p # split_on c s"
  by (induction p) auto

lemma split_on_join:
  "ps \<noteq> [] \<Longrightarrow> \<forall>p \<in> set ps. c \<notin> set p \<Longrightarrow> split_on c (join [c] ps) = ps"
  by (induction "[c]" ps rule: join.induct) (auto simp: split_on_free split_on_app)

lemma split_on_parts: "p \<in> set (split_on c s) \<Longrightarrow> c \<notin> set p"
proof (induction s arbitrary: p)
  case (Cons x s)
  obtain q qs where "split_on c s = q # qs" using split_on_nonempty by (cases "split_on c s") auto
  with Cons show ?case by (auto split: if_splits)
qed simp

text \<open>\<open>rsplit('/').next()\<close>: the part after the last separator.\<close>

definition last_part :: "char \<Rightarrow> string \<Rightarrow> string" where
  "last_part c s = last (split_on c s)"

definition lines :: "string \<Rightarrow> string list" where
  "lines s =
     (let ps = split_on (CHR 0x0A) s;
          strip = (\<lambda>l. case strip_suffix [CHR 0x0D] l of None \<Rightarrow> l | Some l' \<Rightarrow> l')
      in map strip (butlast ps) @ (if last ps = [] then [] else [last ps]))"

text \<open>\<open>split_whitespace\<close>: \<open>take_word\<close> splits off the characters before the first white space.\<close>

definition at_ws :: "string \<Rightarrow> bool" where
  "at_ws s \<longleftrightarrow> (\<exists>e \<in> set ws_encodings. starts_with e s)"

fun take_word :: "string \<Rightarrow> string \<times> string" where
  "take_word [] = ([], [])"
| "take_word (c # cs) =
     (if at_ws (c # cs) then ([], c # cs)
      else (let (w, r) = take_word cs in (c # w, r)))"

lemma take_word_length: "length (snd (take_word s)) \<le> length s"
  by (induction s) (auto split: prod.splits)

lemma strip_any_length: "length (strip_any es s) \<le> length s"
proof (induction es s rule: strip_any.induct)
  case (1 es s)
  then show ?case by (subst strip_any.simps) (auto split: option.splits)
qed

lemma strip_any_done:
  "find (\<lambda>e. e \<noteq> [] \<and> starts_with e (strip_any es s)) es = None"
proof (induction es s rule: strip_any.induct)
  case (1 es s)
  then show ?case
    by (cases "find (\<lambda>e. e \<noteq> [] \<and> starts_with e s) es") (simp_all add: strip_any.simps [of es s])
qed

lemma trim_start_not_ws: "trim_start s = c # cs \<Longrightarrow> \<not> at_ws (c # cs)"
proof -
  assume t: "trim_start s = c # cs"
  have "[] \<notin> set ws_encodings" by (simp add: ws_encodings_def)
  then show ?thesis
    using strip_any_done [of ws_encodings s] t
    unfolding trim_start_def at_ws_def find_None_iff by metis
qed

function split_whitespace :: "string \<Rightarrow> string list" where
  "split_whitespace s =
     (let t = trim_start s in
      if t = [] then [] else fst (take_word t) # split_whitespace (snd (take_word t)))"
  by pat_completeness auto
termination
proof (relation "measure length")
  fix s t :: string
  assume t: "t = trim_start s" and ne: "t \<noteq> []"
  obtain c cs where c: "t = c # cs" using ne by (meson list.exhaust)
  with t have "\<not> at_ws (c # cs)" using trim_start_not_ws [of s c cs] by simp
  then have "length (snd (take_word t)) \<le> length cs"
    using c take_word_length [of cs] by (auto split: prod.splits)
  moreover have "length t \<le> length s" using t strip_any_length by (simp add: trim_start_def)
  ultimately show "(snd (take_word t), s) \<in> measure length" using c by simp
qed simp

declare split_whitespace.simps [simp del]

end
