(* ===== verification/Commit_Message.thy ===== *)
theory Commit_Message
  imports Rust_Text "HOL-Library.Product_Lexorder"
begin

text \<open>
  The metadata filter of \<^verbatim>\<open>src/src/vfs/filter.rs\<close> and the message generator of
  \<^verbatim>\<open>src/src/git/commit_message.rs\<close>. The \<open>BTreeSet\<close> of paths is a sorted list without
  duplicates; the \<open>HashMap\<close> of counters is an association list whose order does not matter,
  since it is sorted by a total order afterwards.
\<close>

definition is_apple_metadata :: "string \<Rightarrow> bool" where
  "is_apple_metadata name \<longleftrightarrow>
     starts_with ''._'' name \<or>
     name \<in> {''.DS_Store'', ''.localized'', ''.Spotlight-V100'', ''.Trashes'', ''.fseventsd'',
             ''.TemporaryItems'', ''.VolumeIcon.icns''}"

definition clean_path :: "string \<Rightarrow> string" where
  "clean_path raw_path = trim_char (CHR ''/'') (trim raw_path)"

definition is_meta_path :: "string \<Rightarrow> bool" where
  "is_meta_path clean \<longleftrightarrow> list_ex is_apple_metadata (split_on (CHR ''/'') clean)"

definition valid_paths :: "string list \<Rightarrow> string list" where
  "valid_paths changed_paths =
     sort (remdups (filter (\<lambda>clean. clean \<noteq> [] \<and> \<not> is_meta_path clean) (map clean_path changed_paths)))"

definition top_dir :: "string \<Rightarrow> string" where
  "top_dir file =
     (case position (\<lambda>c. c = CHR ''/'') file of
        Some slash_idx \<Rightarrow> take slash_idx file @ ''/''
      | None \<Rightarrow> ''root/'')"

definition dir_counts :: "string list \<Rightarrow> (string, nat) hmap" where
  "dir_counts files =
     fold (\<lambda>file m. hm_put (top_dir file)
             ((case hm_get m (top_dir file) of Some n \<Rightarrow> n | None \<Rightarrow> 0) + 1) m) files []"

text \<open>Most files first, ties by name.\<close>

definition sorted_dirs :: "string list \<Rightarrow> (string \<times> nat) list" where
  "sorted_dirs files = sort_key (\<lambda>(d, n). (- int n, d)) (dir_counts files)"

definition message_subject :: "nat \<Rightarrow> (string \<times> nat) list \<Rightarrow> string" where
  "message_subject total_files dirs =
     (let num_dirs = length dirs; n = to_radix 10 total_files in
      if num_dirs = 1 then ''Update '' @ n @ '' files in '' @ fst (dirs ! 0)
      else if num_dirs \<le> 3 then ''Update '' @ n @ '' files across '' @ join '', '' (map fst dirs)
      else
        (let others_count = num_dirs - 2;
             other_str = (if others_count = 1 then ''1 other directory''
                          else to_radix 10 others_count @ '' other directories'')
         in ''Update '' @ n @ '' files across '' @ fst (dirs ! 0) @ '', '' @ fst (dirs ! 1)
            @ '' (and '' @ other_str @ '')''))"

definition dir_line :: "string \<times> nat \<Rightarrow> string" where
  "dir_line p =
     ''- '' @ fst p @ '' ('' @ to_radix 10 (snd p) @ '' '' @ (if snd p = 1 then ''file'' else ''files'')
     @ '')'' @ [CHR 0x0A]"

definition message_body :: "(string \<times> nat) list \<Rightarrow> string" where
  "message_body dirs =
     [CHR 0x0A, CHR 0x0A] @ ''Changed directories:'' @ [CHR 0x0A] @ concat (map dir_line dirs)"

definition generate_commit_message :: "string list \<Rightarrow> string" where
  "generate_commit_message changed_paths =
     (let files = valid_paths changed_paths; total_files = length files in
      if files = [] then ''Empty commit: no files changed''
      else if total_files \<le> 3 then ''Update '' @ join '', '' files
      else let dirs = sorted_dirs files
           in message_subject total_files dirs @ message_body dirs)"

section \<open>The counters\<close>

lemma dir_counts_get:
  "hm_get (dir_counts files) d =
     (let n = length (filter (\<lambda>f. top_dir f = d) files) in if n = 0 then None else Some n)"
proof -
  have "hm_get (fold (\<lambda>file m. hm_put (top_dir file)
             ((case hm_get m (top_dir file) of Some n \<Rightarrow> n | None \<Rightarrow> 0) + 1) m) files m) d =
     (let n = length (filter (\<lambda>f. top_dir f = d) files)
      in if n = 0 then hm_get m d else Some ((case hm_get m d of Some k \<Rightarrow> k | None \<Rightarrow> 0) + n))" for m
    by (induction files arbitrary: m) (auto simp: Let_def split: option.splits)
  from this [of "[]"] show ?thesis by (simp add: dir_counts_def Let_def)
qed

lemma dir_counts_distinct: "distinct (map fst (dir_counts files))"
proof -
  have "distinct (map fst m) \<Longrightarrow> distinct (map fst (fold (\<lambda>file m. hm_put (top_dir file)
             ((case hm_get m (top_dir file) of Some n \<Rightarrow> n | None \<Rightarrow> (0 :: nat)) + 1) m) files m))" for m
    by (induction files arbitrary: m) (auto simp: distinct_update)
  from this [of "[]"] show ?thesis by (simp add: dir_counts_def)
qed

lemma sorted_dirs_set:
  "(d, n) \<in> set (sorted_dirs files) \<longleftrightarrow> n = length (filter (\<lambda>f. top_dir f = d) files) \<and> 0 < n"
proof -
  have "(d, n) \<in> set (dir_counts files) \<longleftrightarrow> hm_get (dir_counts files) d = Some n"
    using dir_counts_distinct by (simp add: map_of_eq_Some_iff)
  then show ?thesis by (auto simp: sorted_dirs_def dir_counts_get Let_def)
qed

lemma sorted_dirs_distinct: "distinct (map fst (sorted_dirs files))"
  using dir_counts_distinct [of files] by (simp add: sorted_dirs_def distinct_map)

lemma valid_paths_set:
  "set (valid_paths ps) = {c \<in> clean_path ` set ps. c \<noteq> [] \<and> \<not> is_meta_path c}"
  by (auto simp: valid_paths_def)

lemma valid_paths_distinct: "distinct (valid_paths ps)" "sorted (valid_paths ps)"
  by (simp_all add: valid_paths_def)

text \<open>The counts of the directory lines add up to the number of files.\<close>

lemma counts_total: "sum_list (map snd (sorted_dirs files)) = length files"
proof -
  have "sum_list (map snd (sorted_dirs files)) = sum snd (set (sorted_dirs files))"
    using sorted_dirs_distinct [of files] by (simp add: distinct_map sum_list_distinct_conv_sum_set)
  also have "\<dots> = (\<Sum>d \<in> fst ` set (sorted_dirs files). length (filter (\<lambda>f. top_dir f = d) files))"
    using sorted_dirs_distinct [of files]
    by (intro sum.reindex_cong [symmetric, of fst]) (auto simp: distinct_map sorted_dirs_set)
  also have "fst ` set (sorted_dirs files) = top_dir ` set files"
  proof -
    have "d \<in> fst ` set (sorted_dirs files) \<longleftrightarrow> filter (\<lambda>f. top_dir f = d) files \<noteq> []" for d
      by (auto simp: image_iff sorted_dirs_set Bex_def)
    then show ?thesis by (simp only: set_eq_iff filter_empty_conv) blast
  qed
  also have "(\<Sum>d \<in> top_dir ` set files. length (filter (\<lambda>f. top_dir f = d) files)) = length files"
  proof -
    have "finite D \<Longrightarrow> top_dir ` set files \<subseteq> D \<Longrightarrow>
        (\<Sum>d \<in> D. length (filter (\<lambda>f. top_dir f = d) files)) = length files" for D
    proof (induction files)
      case (Cons f fs)
      have "(\<Sum>d \<in> D. length (filter (\<lambda>g. top_dir g = d) (f # fs)))
          = (\<Sum>d \<in> D. (if top_dir f = d then 1 else 0) + length (filter (\<lambda>g. top_dir g = d) fs))"
        by (intro sum.cong) auto
      also have "\<dots> = 1 + length fs"
        using Cons by (simp add: sum.distrib)
      finally show ?case by simp
    qed simp
    then show ?thesis by blast
  qed
  finally show ?thesis .
qed

section \<open>Correctness\<close>

text \<open>
  The message depends only on which paths changed: not on their order, nor on duplicates,
  so that the unordered set the staging area keeps is enough to determine it.
\<close>

theorem message_order_independent:
  assumes "set ps = set qs"
  shows "generate_commit_message ps = generate_commit_message qs"
proof -
  have "set (valid_paths ps) = set (valid_paths qs)" using assms by (simp add: valid_paths_set)
  then have "valid_paths ps = valid_paths qs"
    using valid_paths_distinct by (metis sorted_distinct_set_unique)
  then show ?thesis by (simp add: generate_commit_message_def)
qed

theorem message_order_independent_witness:
  "generate_commit_message [''b.txt'', ''a.txt'', ''b.txt''] = generate_commit_message [''a.txt'', ''b.txt'']"
  by (rule message_order_independent) auto

text \<open>
  A change of more than three files is summarised per top-level directory: the lines of the
  body name each directory once, with the number of files under it, the largest first and ties in
  alphabetical order, and the numbers add up to the total in the subject.
\<close>

theorem message_directory_summary:
  assumes "files = valid_paths ps" "3 < length files"
  shows "\<exists>dirs. generate_commit_message ps = message_subject (length files) dirs @ message_body dirs \<and>
     distinct (map fst dirs) \<and>
     (\<forall>d n. (d, n) \<in> set dirs \<longleftrightarrow> n = card {f \<in> set files. top_dir f = d} \<and> 0 < n) \<and>
     sorted_wrt (\<lambda>(d, n) (d', n'). n' < n \<or> n = n' \<and> d \<le> d') dirs \<and>
     sum_list (map snd dirs) = length files"
proof (intro exI conjI allI)
  show "generate_commit_message ps = message_subject (length files) (sorted_dirs files) @ message_body (sorted_dirs files)"
    using assms by (auto simp: generate_commit_message_def Let_def)
  show "distinct (map fst (sorted_dirs files))" by (rule sorted_dirs_distinct)
  have "length (filter (\<lambda>f. top_dir f = d) files) = card {f \<in> set files. top_dir f = d}" for d
    using valid_paths_distinct(1) [of ps] assms(1) distinct_card [of "filter (\<lambda>f. top_dir f = d) files"]
    by simp
  then show "(d, n) \<in> set (sorted_dirs files) \<longleftrightarrow> n = card {f \<in> set files. top_dir f = d} \<and> 0 < n" for d n
    by (simp add: sorted_dirs_set)
  have "sorted (map (\<lambda>(d, n). (- int n, d)) (sorted_dirs files))" by (simp add: sorted_dirs_def)
  then show "sorted_wrt (\<lambda>(d, n) (d', n'). n' < n \<or> n = n' \<and> d \<le> d') (sorted_dirs files)"
    unfolding sorted_map by (rule sorted_wrt_mono_rel [rotated]) auto
  show "sum_list (map snd (sorted_dirs files)) = length files" by (rule counts_total)
qed

text \<open>
  Paths that are blank or have a macOS metadata component never reach the message; when
  nothing else changed the message says so.
\<close>

theorem message_ignores_metadata:
  assumes "\<forall>p \<in> set qs. clean_path p = [] \<or> is_meta_path (clean_path p)"
  shows "generate_commit_message (ps @ qs) = generate_commit_message ps
       \<and> generate_commit_message qs = ''Empty commit: no files changed''"
proof -
  have "filter (\<lambda>clean. clean \<noteq> [] \<and> \<not> is_meta_path clean) (map clean_path qs) = []"
    using assms by (auto simp: filter_empty_conv)
  then have "valid_paths (ps @ qs) = valid_paths ps" "valid_paths qs = []"
    by (simp_all add: valid_paths_def)
  then show ?thesis by (simp add: generate_commit_message_def)
qed

lemma demo_meta: "clean_path ''src/.DS_Store'' = ''src/.DS_Store''" "is_meta_path ''src/.DS_Store''"
  by code_simp+

theorem message_ignores_metadata_witness:
  "generate_commit_message ([''a''] @ [''src/.DS_Store'']) = generate_commit_message [''a'']"
  using message_ignores_metadata [of "[''src/.DS_Store'']" "[''a'']"] demo_meta by simp

lemma demo_valid_paths:
  "valid_paths [''src/b.c'', ''src/a.c'', ''Makefile'', ''doc/x''] = [''Makefile'', ''doc/x'', ''src/a.c'', ''src/b.c'']"
  by code_simp

theorem message_directory_summary_witness:
  "\<exists>dirs. generate_commit_message [''src/b.c'', ''src/a.c'', ''Makefile'', ''doc/x'']
      = message_subject 4 dirs @ message_body dirs \<and> sum_list (map snd dirs) = 4"
proof -
  have "length [''Makefile'', ''doc/x'', ''src/a.c'', ''src/b.c''] = 4" "3 < (4 :: nat)" by simp_all
  with message_directory_summary [OF demo_valid_paths [symmetric]] show ?thesis by metis
qed

end
