(* ===== verification/Frames.thy ===== *)
theory Frames
  imports Prelude
begin

text \<open>
  The interface every decoding loop of the program has: a loop that walks a buffer by a
  position and an accumulator, and that consumes one well-formed frame per round. The
  contract is one equation (a good frame at the position moves the loop past it and updates
  the accumulator); the client's lemma is that a whole sequence of frames is consumed. It is
  interpreted for the pkt-line, sideband, tree, delta, packfile and write-ahead-log loops.
\<close>

locale frame_loop =
  fixes run :: "bytes \<Rightarrow> nat \<Rightarrow> 'acc \<Rightarrow> 'r"
    and enc :: "'f \<Rightarrow> bytes"
    and upd :: "'f \<Rightarrow> 'acc \<Rightarrow> 'acc"
    and good :: "'f \<Rightarrow> bool"
  assumes round: "good f \<Longrightarrow>
    run (pre @ enc f @ rest) (length pre) acc =
    run (pre @ enc f @ rest) (length pre + length (enc f)) (upd f acc)"
begin

lemma frames_consumed:
  "list_all good fs \<Longrightarrow>
   run (pre @ concat (map enc fs) @ rest) (length pre) acc =
   run (pre @ concat (map enc fs) @ rest)
     (length pre + length (concat (map enc fs))) (fold upd fs acc)"
proof (induction fs arbitrary: pre acc)
  case (Cons f fs)
  let ?tl = "concat (map enc fs) @ rest"
  have "run (pre @ enc f @ ?tl) (length pre) acc
      = run (pre @ enc f @ ?tl) (length pre + length (enc f)) (upd f acc)"
    using Cons.prems by (intro round) simp
  also have "\<dots> = run ((pre @ enc f) @ ?tl) (length (pre @ enc f)) (upd f acc)" by simp
  also have "\<dots> = run ((pre @ enc f) @ ?tl)
      (length (pre @ enc f) + length (concat (map enc fs))) (fold upd fs (upd f acc))"
    using Cons.prems by (intro Cons.IH) simp
  finally show ?case by (simp add: add.assoc)
qed simp

lemma frames_from_start:
  "list_all good fs \<Longrightarrow>
   run (concat (map enc fs) @ rest) 0 acc =
   run (concat (map enc fs) @ rest) (length (concat (map enc fs))) (fold upd fs acc)"
  using frames_consumed [of fs "[]" rest acc] by simp

end

lemma fold_snoc_map: "fold (\<lambda>f acc. acc @ g f) fs acc = acc @ concat (map g fs)"
  by (induction fs arbitrary: acc) auto

end
