(* ===== verification/External.thy ===== *)
theory External
  imports Rust_Text
begin

text \<open>
  The third-party crates the sources call, as parameters of the model: SHA-1 (\<open>sha1\<close>),
  hexadecimal text (\<open>hex\<close>), zlib streams and CRC-32 (\<open>flate2\<close>). A definition that uses
  one takes the record \<open>ext\<close>, and a theorem that relies on documented behaviour names it as
  a hypothesis: \<open>sha1_laws\<close> (a digest has 20 bytes), \<open>hex_laws\<close> (decoding inverts encoding,
  two lower-case digits per byte), \<open>zlib_laws\<close> (a decoder returns the compressed data and
  stops at the end of the stream, ignoring what follows). \<open>demo_ext\<close> is one instance of
  all of them, for the witnesses.
\<close>

record ext =
  x_sha1 :: "bytes \<Rightarrow> bytes"
  x_hex_encode :: "bytes \<Rightarrow> string"
  x_hex_decode :: "string \<Rightarrow> bytes option"
  x_deflate :: "bytes \<Rightarrow> bytes"
  x_inflate :: "bytes \<Rightarrow> (bytes \<times> nat) option"
  x_crc32 :: "bytes \<Rightarrow> nat"

definition sha1_laws :: "ext \<Rightarrow> bool" where
  "sha1_laws X \<longleftrightarrow> (\<forall>bs. length (x_sha1 X bs) = 20)"

definition hex_laws :: "ext \<Rightarrow> bool" where
  "hex_laws X \<longleftrightarrow>
     (\<forall>bs. x_hex_decode X (x_hex_encode X bs) = Some bs \<and>
           length (x_hex_encode X bs) = 2 * length bs)"

definition zlib_laws :: "ext \<Rightarrow> bool" where
  "zlib_laws X \<longleftrightarrow>
     (\<forall>bs rest. x_inflate X (x_deflate X bs @ rest) = Some (bs, length (x_deflate X bs)))"

lemma sha1_length [simp]: "sha1_laws X \<Longrightarrow> length (x_sha1 X bs) = 20"
  by (simp add: sha1_laws_def)

lemma hex_decode_encode [simp]: "hex_laws X \<Longrightarrow> x_hex_decode X (x_hex_encode X bs) = Some bs"
  by (simp add: hex_laws_def)

lemma hex_encode_inject: "hex_laws X \<Longrightarrow> x_hex_encode X a = x_hex_encode X b \<longleftrightarrow> a = b"
  by (metis hex_decode_encode option.inject)

lemma hex_encode_nonempty: "hex_laws X \<Longrightarrow> bs \<noteq> [] \<Longrightarrow> x_hex_encode X bs \<noteq> []"
  by (auto simp: hex_laws_def dest!: spec [of _ bs])

lemma inflate_deflate [simp]:
  "zlib_laws X \<Longrightarrow> x_inflate X (x_deflate X bs @ rest) = Some (bs, length (x_deflate X bs))"
  by (simp add: zlib_laws_def)

section \<open>An instance for the witnesses\<close>

definition demo_hex_encode :: "bytes \<Rightarrow> string" where
  "demo_hex_encode bs =
     concat (map (\<lambda>b. [digit_char (unat b div 16), digit_char (unat b mod 16)]) bs)"

fun demo_hex_decode :: "string \<Rightarrow> bytes option" where
  "demo_hex_decode [] = Some []"
| "demo_hex_decode [c] = None"
| "demo_hex_decode (c # d # cs) =
     (case (digit_val 16 c, digit_val 16 d, demo_hex_decode cs) of
        (Some h, Some l, Some bs) \<Rightarrow> Some (word_of_nat (16 * h + l) # bs)
      | _ \<Rightarrow> None)"

definition demo_deflate :: "bytes \<Rightarrow> bytes" where
  "demo_deflate bs = concat (map (\<lambda>b. [1, b]) bs) @ [0]"

fun demo_inflate :: "bytes \<Rightarrow> (bytes \<times> nat) option" where
  "demo_inflate [] = None"
| "demo_inflate [t] = (if t = 0 then Some ([], 1) else None)"
| "demo_inflate (t # b # bs) =
     (if t = 0 then Some ([], 1)
      else map_option (\<lambda>(d, n). (b # d, n + 2)) (demo_inflate bs))"

definition demo_sha1 :: "bytes \<Rightarrow> bytes" where
  "demo_sha1 bs = take 20 (rev bs @ replicate 20 0)"

definition demo_ext :: ext where
  "demo_ext = \<lparr>x_sha1 = demo_sha1, x_hex_encode = demo_hex_encode,
     x_hex_decode = demo_hex_decode, x_deflate = demo_deflate, x_inflate = demo_inflate,
     x_crc32 = (\<lambda>bs. foldl (\<lambda>a b. (a + unat b) mod 4294967296) 0 bs)\<rparr>"

lemma demo_sha1_laws [simp]: "sha1_laws demo_ext"
  by (auto simp: sha1_laws_def demo_ext_def demo_sha1_def min_def)

lemma demo_hex_roundtrip: "demo_hex_decode (demo_hex_encode bs) = Some bs"
proof (induction bs)
  case (Cons b bs)
  have "unat b div 16 < 16" using unat_u8_less [of b] by linarith
  moreover have "word_of_nat (16 * (unat b div 16) + unat b mod 16) = b" by simp
  ultimately show ?case
    using Cons by (simp add: demo_hex_encode_def digit_val_char)
qed (simp add: demo_hex_encode_def)

lemma demo_hex_laws [simp]: "hex_laws demo_ext"
proof -
  have "length (demo_hex_encode bs) = 2 * length bs" for bs
    by (induction bs) (simp_all add: demo_hex_encode_def)
  then show ?thesis by (simp add: hex_laws_def demo_ext_def demo_hex_roundtrip)
qed

lemma demo_zlib_laws [simp]: "zlib_laws demo_ext"
proof -
  have "demo_inflate (demo_deflate bs @ rest) = Some (bs, length (demo_deflate bs))" for bs rest
  proof (induction bs)
    case Nil
    then show ?case by (cases rest) (simp_all add: demo_deflate_def)
  next
    case (Cons b bs)
    then show ?case by (simp add: demo_deflate_def)
  qed
  then show ?thesis by (simp add: zlib_laws_def demo_ext_def)
qed

end
