(* ===== verification/Git_Tree.thy ===== *)
theory Git_Tree
  imports Frames External
begin

text \<open>
  Git tree objects: the entry modes and the parser of \<^verbatim>\<open>src/src/git/tree.rs\<close>, and the entry
  writer of \<^verbatim>\<open>src/src/git/builder.rs\<close> (the loop body of \<open>rebuild_tree_recursive\<close>), with the
  round trip between the two.
\<close>

section \<open>Modes\<close>

datatype tree_entry_mode =
  RegularFile | ExecutableFile | Directory | Symlink | Submodule | OtherMode nat

definition from_mode_str :: "string \<Rightarrow> tree_entry_mode" where
  "from_mode_str s =
     (if s = ''100644'' then RegularFile
      else if s = ''100755'' then ExecutableFile
      else if s = ''40000'' \<or> s = ''040000'' then Directory
      else if s = ''120000'' then Symlink
      else if s = ''160000'' then Submodule
      else (case from_radix 8 u32_max s of Some m \<Rightarrow> OtherMode m | None \<Rightarrow> OtherMode 33188))"

definition mode_is_dir :: "tree_entry_mode \<Rightarrow> bool" where
  "mode_is_dir m \<longleftrightarrow> m = Directory"

definition mode_is_symlink :: "tree_entry_mode \<Rightarrow> bool" where
  "mode_is_symlink m \<longleftrightarrow> m = Symlink"

text \<open>Octal 100644, 100755, 040755, 120777.\<close>

fun posix_mode :: "tree_entry_mode \<Rightarrow> nat" where
  "posix_mode RegularFile = 33188"
| "posix_mode ExecutableFile = 33261"
| "posix_mode Directory = 16877"
| "posix_mode Symlink = 41471"
| "posix_mode Submodule = 16877"
| "posix_mode (OtherMode m) = m"

text \<open>The mode strings the tree builder writes.\<close>

fun mode_str :: "tree_entry_mode \<Rightarrow> string" where
  "mode_str RegularFile = ''100644''"
| "mode_str ExecutableFile = ''100755''"
| "mode_str Directory = ''40000''"
| "mode_str Symlink = ''120000''"
| "mode_str Submodule = ''160000''"
| "mode_str (OtherMode m) = to_radix 8 m"

section \<open>Parsing a tree object\<close>

record git_tree_entry =
  te_mode :: tree_entry_mode
  te_name :: string
  te_oid :: string

record git_tree =
  tree_entries :: "git_tree_entry list"

function tree_loop :: "ext \<Rightarrow> bytes \<Rightarrow> nat \<Rightarrow> git_tree_entry list \<Rightarrow> git_tree_entry list result" where
  "tree_loop X data pos entries =
     (if pos < length data then
        (case position (\<lambda>b. b = 0x20) (drop pos data) of
           None \<Rightarrow> Inl (E_Tree Tree_NoSpace)
         | Some space_pos \<Rightarrow>
             (case from_utf8 (slice pos (pos + space_pos) data) of
                None \<Rightarrow> Inl (E_Tree Tree_BadMode)
              | Some mode_s \<Rightarrow>
                  (let mode = from_mode_str mode_s; pos1 = pos + space_pos + 1 in
                   case position (\<lambda>b. b = 0) (drop pos1 data) of
                     None \<Rightarrow> Inl (E_Tree Tree_NoNul)
                   | Some null_pos \<Rightarrow>
                       (case from_utf8 (slice pos1 (pos1 + null_pos) data) of
                          None \<Rightarrow> Inl (E_Tree Tree_BadName)
                        | Some name \<Rightarrow>
                            (let pos2 = pos1 + null_pos + 1 in
                             if pos2 + 20 > length data then Inl (E_Tree Tree_Truncated)
                             else tree_loop X data (pos2 + 20)
                               (entries @ [\<lparr>te_mode = mode, te_name = name,
                                  te_oid = x_hex_encode X (slice pos2 (pos2 + 20) data)\<rparr>]))))))
      else Inr entries)"
  by pat_completeness auto
termination
  by (relation "measure (\<lambda>(X, data, pos, entries). length data - pos)") auto

declare tree_loop.simps [simp del]

definition git_tree_parse :: "ext \<Rightarrow> bytes \<Rightarrow> git_tree result" where
  "git_tree_parse X data =
     (case tree_loop X data 0 [] of
        Inl e \<Rightarrow> Inl e
      | Inr entries \<Rightarrow> Inr \<lparr>tree_entries = entries\<rparr>)"

definition git_tree_find :: "git_tree \<Rightarrow> string \<Rightarrow> git_tree_entry option" where
  "git_tree_find t name = find (\<lambda>e. te_name e = name) (tree_entries t)"

section \<open>Writing an entry\<close>

text \<open>Mode, space, name, NUL, and the 20 raw bytes of the object id.\<close>

definition tree_entry_bytes :: "ext \<Rightarrow> tree_entry_mode \<Rightarrow> string \<Rightarrow> string \<Rightarrow> bytes result" where
  "tree_entry_bytes X mode name oid =
     (case x_hex_decode X oid of
        None \<Rightarrow> Inl (E_Writer Writer_BadHex)
      | Some binary_sha \<Rightarrow>
          Inr (str_bytes (mode_str mode @ '' '' @ name @ [CHR 0x00]) @ binary_sha))"

text \<open>The modes that survive writing and parsing.\<close>

definition mode_ok :: "tree_entry_mode \<Rightarrow> bool" where
  "mode_ok m \<longleftrightarrow>
     (case m of
        OtherMode k \<Rightarrow> k \<le> u32_max \<and>
          to_radix 8 k \<notin> {''100644'', ''100755'', ''40000'', ''040000'', ''120000'', ''160000''}
      | _ \<Rightarrow> True)"

lemma from_mode_str_mode_str: "mode_ok m \<Longrightarrow> from_mode_str (mode_str m) = m"
  by (cases m) (auto simp: mode_ok_def from_mode_str_def from_to_radix)

lemma mode_str_ascii: "c \<in> set (mode_str m) \<Longrightarrow> 32 < (of_char c :: nat) \<and> of_char c < (128 :: nat)"
proof (cases m)
  case (OtherMode k)
  assume "c \<in> set (mode_str m)"
  then obtain d where "d < 8" "c = digit_char d" using OtherMode set_to_radix [of 8 c k] by auto
  then show ?thesis by (simp add: digit_char_def)
qed auto

definition entry_ok :: "ext \<Rightarrow> git_tree_entry \<Rightarrow> bool" where
  "entry_ok X e \<longleftrightarrow> mode_ok (te_mode e) \<and> utf8_valid (str_bytes (te_name e)) \<and>
     CHR 0x00 \<notin> set (te_name e) \<and>
     (\<exists>sha. length sha = 20 \<and> te_oid e = x_hex_encode X sha)"

definition entry_bytes :: "ext \<Rightarrow> git_tree_entry \<Rightarrow> bytes" where
  "entry_bytes X e =
     (case tree_entry_bytes X (te_mode e) (te_name e) (te_oid e) of Inl _ \<Rightarrow> [] | Inr bs \<Rightarrow> bs)"

lemma byte_of_eq_iff [simp]: "byte_of c = 0x20 \<longleftrightarrow> c = CHR 0x20" "byte_of c = 0 \<longleftrightarrow> c = CHR 0x00"
proof -
  have "byte_of (CHR 0x20) = 0x20" "byte_of (CHR 0x00) = 0" by (simp_all add: byte_of_def)
  then show "byte_of c = 0x20 \<longleftrightarrow> c = CHR 0x20" "byte_of c = 0 \<longleftrightarrow> c = CHR 0x00"
    by (metis byte_of_inject)+
qed

text \<open>One round of the loop on a well-formed mode and name, whatever follows the NUL.\<close>

lemma tree_loop_header:
  assumes "mode_ok m" "utf8_valid (str_bytes name)" "CHR 0x00 \<notin> set name"
    and data: "data = pre @ str_bytes (mode_str m @ '' '' @ name @ [CHR 0x00]) @ tail"
    and p: "p = length pre + length (mode_str m) + length name + 2"
  shows "tree_loop X data (length pre) acc =
     (if p + 20 > length data then Inl (E_Tree Tree_Truncated)
      else tree_loop X data (p + 20)
        (acc @ [\<lparr>te_mode = m, te_name = name, te_oid = x_hex_encode X (slice p (p + 20) data)\<rparr>]))"
proof -
  define M where "M = str_bytes (mode_str m)"
  define N where "N = str_bytes name"
  have data': "data = pre @ M @ 0x20 # N @ 0 # tail"
    by (simp add: data M_def N_def str_bytes_def)
  have "\<forall>b \<in> set M. b \<noteq> 0x20" using mode_str_ascii by (fastforce simp: M_def set_str_bytes)
  then have p1: "position (\<lambda>b. b = 0x20) (drop (length pre) data) = Some (length M)"
    using position_app [of M "\<lambda>b. b = 0x20" "0x20"] by (simp add: data')
  have s1: "from_utf8 (slice (length pre) (length pre + length M) data) = Some (mode_str m)"
    using slice_mid [of pre M] mode_str_ascii
    by (simp add: data' M_def from_utf8_str utf8_valid_str_ascii)
  have d2: "drop (length pre + length M + 1) data = N @ 0 # tail" by (simp add: data')
  have "\<forall>b \<in> set N. b \<noteq> 0" using assms(3) by (auto simp: N_def set_str_bytes)
  then have p2: "position (\<lambda>b. b = 0) (drop (length pre + length M + 1) data) = Some (length N)"
    using position_app [of N "\<lambda>b. b = 0" 0] by (simp only: d2)
  have "slice (length pre + length M + 1) (length pre + length M + 1 + length N) data = N"
    using slice_mid [of "pre @ M @ [0x20]" N "0 # tail"] by (simp add: data' ac_simps)
  then have s2: "from_utf8 (slice (length pre + length M + 1) (length pre + length M + 1 + length N)
      data) = Some name"
    using assms(2) by (simp only: N_def from_utf8_str)
  have pos2: "length pre + length M + 1 + length N + 1 = p" by (simp add: p M_def N_def)
  have "length pre < length data" by (simp add: data')
  then show ?thesis
    unfolding tree_loop.simps [of X data "length pre" acc]
    by (simp only: p1 s1 p2 s2 option.case Let_def from_mode_str_mode_str [OF assms(1)] pos2 if_True)
qed

lemma tree_round:
  assumes "hex_laws X \<and> entry_ok X e"
  shows "tree_loop X (pre @ entry_bytes X e @ rest) (length pre) acc =
         tree_loop X (pre @ entry_bytes X e @ rest) (length pre + length (entry_bytes X e)) (acc @ [e])"
proof -
  have X: "hex_laws X" and ok: "entry_ok X e" using assms by simp_all
  obtain sha where sha: "length sha = 20" "te_oid e = x_hex_encode X sha"
    and m: "mode_ok (te_mode e)" and u: "utf8_valid (str_bytes (te_name e))"
    and nul: "CHR 0x00 \<notin> set (te_name e)"
    using ok by (auto simp: entry_ok_def)
  define hdr where "hdr = str_bytes (mode_str (te_mode e) @ '' '' @ te_name e @ [CHR 0x00])"
  define data where "data = pre @ hdr @ sha @ rest"
  define p where "p = length pre + length (mode_str (te_mode e)) + length (te_name e) + 2"
  have eb: "entry_bytes X e = hdr @ sha"
    using X sha by (simp add: entry_bytes_def tree_entry_bytes_def hdr_def)
  have lhdr: "length pre + length hdr = p" by (simp add: hdr_def p_def)
  have sl: "slice p (p + 20) data = sha"
    using slice_mid [of "pre @ hdr" sha rest] sha lhdr by (simp add: data_def)
  have eta: "\<lparr>te_mode = te_mode e, te_name = te_name e, te_oid = x_hex_encode X sha\<rparr> = e"
    using sha by (cases e) simp
  have "\<not> p + 20 > length data" using sha lhdr by (simp add: data_def)
  then have "tree_loop X data (length pre) acc = tree_loop X data (p + 20) (acc @ [e])"
    using tree_loop_header [OF m u nul data_def [unfolded hdr_def] p_def, of X acc]
    by (simp only: eta sl if_False)
  moreover have "p + 20 = length pre + length (entry_bytes X e)" using sha lhdr by (simp add: eb)
  moreover have "data = pre @ entry_bytes X e @ rest" by (simp add: data_def eb)
  ultimately show ?thesis by simp
qed

interpretation trees: frame_loop "tree_loop X" "entry_bytes X" "\<lambda>e acc. acc @ [e]"
  "\<lambda>e. hex_laws X \<and> entry_ok X e" for X
  by unfold_locales (rule tree_round)

lemma tree_loop_end: "pos \<ge> length data \<Longrightarrow> tree_loop X data pos acc = Inr acc"
  by (subst tree_loop.simps) simp

lemma list_all_conj: "list_all (\<lambda>x. c \<and> P x) xs \<longleftrightarrow> xs = [] \<or> (c \<and> list_all P xs)"
  by (induction xs) auto

text \<open>
  C39: a tree object written entry by entry is parsed back to exactly the same entries, in the
  same order: modes, names and object ids survive.
\<close>

theorem parse_written_tree:
  assumes "hex_laws X" "list_all (entry_ok X) es"
  shows "git_tree_parse X (concat (map (entry_bytes X) es)) = Inr \<lparr>tree_entries = es\<rparr>"
  using trees.frames_from_start [of X es "[]" "[]"] assms
    fold_snoc_map [of "\<lambda>e. [e]" es "[]"]
  by (simp add: git_tree_parse_def tree_loop_end list_all_conj)

theorem parse_written_tree_witness:
  "let sha = replicate 20 (1 :: u8);
       es = [\<lparr>te_mode = RegularFile, te_name = ''Makefile'', te_oid = demo_hex_encode sha\<rparr>,
             \<lparr>te_mode = Directory, te_name = ''kernel'', te_oid = demo_hex_encode sha\<rparr>]
   in git_tree_parse demo_ext (concat (map (entry_bytes demo_ext) es)) = Inr \<lparr>tree_entries = es\<rparr>"
proof -
  let ?sha = "replicate 20 (1 :: u8)"
  let ?es = "[\<lparr>te_mode = RegularFile, te_name = ''Makefile'', te_oid = demo_hex_encode ?sha\<rparr>,
              \<lparr>te_mode = Directory, te_name = ''kernel'', te_oid = demo_hex_encode ?sha\<rparr>]"
  have "length ?sha = 20" by simp
  then have "\<exists>sha. length sha = 20 \<and> demo_hex_encode ?sha = x_hex_encode demo_ext sha"
    by (intro exI [of _ ?sha]) (simp add: demo_ext_def)
  then have "list_all (entry_ok demo_ext) ?es"
    by (simp add: entry_ok_def mode_ok_def utf8_valid_str_ascii)
  from parse_written_tree [OF demo_hex_laws this] show ?thesis by (simp only: Let_def)
qed

text \<open>
  The parser is strict at the end of an object: an entry whose object id is cut short is an
  error, never a shorter entry, whatever complete entries come before it.
\<close>

theorem truncated_tree_entry:
  assumes "hex_laws X" "list_all (entry_ok X) es" "mode_ok m" "utf8_valid (str_bytes name)"
    "CHR 0x00 \<notin> set name" "length sha < 20"
  shows "git_tree_parse X (concat (map (entry_bytes X) es)
           @ str_bytes (mode_str m @ '' '' @ name @ [CHR 0x00]) @ sha) = Inl (E_Tree Tree_Truncated)"
proof -
  define pre where "pre = concat (map (entry_bytes X) es)"
  define tail where "tail = str_bytes (mode_str m @ '' '' @ name @ [CHR 0x00]) @ sha"
  have "tree_loop X (pre @ tail) (length pre) acc = Inl (E_Tree Tree_Truncated)" for acc
    using tree_loop_header [OF assms(3-5), of "pre @ tail" pre sha] assms(6) by (simp add: tail_def)
  moreover have "tree_loop X (pre @ tail) 0 [] = tree_loop X (pre @ tail) (length pre) (fold (\<lambda>e acc. acc @ [e]) es [])"
    using trees.frames_from_start [of X es tail "[]"] assms(1,2)
    by (auto simp: pre_def list_all_conj)
  ultimately show ?thesis by (simp add: git_tree_parse_def pre_def tail_def)
qed

theorem truncated_tree_entry_witness:
  "git_tree_parse demo_ext (str_bytes (''100644'' @ '' '' @ ''a'' @ [CHR 0x00]) @ [1, 2, 3])
   = Inl (E_Tree Tree_Truncated)"
proof -
  have "list_all (entry_ok demo_ext) []" "mode_ok RegularFile" "utf8_valid (str_bytes ''a'')"
    "CHR 0x00 \<notin> set ''a''" "length [1, 2, 3 :: u8] < 20"
    by (simp_all add: mode_ok_def utf8_valid_str_ascii)
  from truncated_tree_entry [OF demo_hex_laws this] show ?thesis by simp
qed

end
