(* ===== verification/Vfs.thy ===== *)
theory Vfs
  imports Git_Tree
begin

text \<open>
  The inode table of \<^verbatim>\<open>src/src/vfs/inode.rs\<close>. The state has the three maps of
  \<open>VfsManager\<close> and its inode counter; an \<open>Arc<VfsNode>\<close> is an inode number looked up in
  the node table, and an operation that returns one returns the node as it stands afterwards.
  What the table reads from the git engine is the record \<open>repo_view\<close>. Each method is one
  atomic step (its locks are taken and released one by one in the source).
\<close>

section \<open>State\<close>

definition root_inode :: nat where
  "root_inode = 1"

record vfs_node =
  vn_id :: nat
  vn_parent :: nat
  vn_name :: string
  vn_oid :: string
  vn_mode :: tree_entry_mode
  vn_is_dir :: bool
  vn_size :: nat
  vn_deleted :: bool

record vfs =
  vs_nodes :: "(nat, vfs_node) hmap"
  vs_child :: "(nat \<times> string, nat) hmap"
  vs_dirs :: "(nat, nat list) hmap"
  vs_next :: nat

text \<open>Trees in memory, blobs in the memory cache, sizes of the blobs in the disk cache.\<close>

record repo_view =
  rv_tree :: "string \<Rightarrow> git_tree option"
  rv_mem :: "string \<Rightarrow> bytes option"
  rv_disk_size :: "string \<Rightarrow> nat option"

definition vfs_new :: "string \<Rightarrow> vfs" where
  "vfs_new root_oid =
     \<lparr>vs_nodes = [(root_inode, \<lparr>vn_id = root_inode, vn_parent = root_inode, vn_name = ''/'',
        vn_oid = root_oid, vn_mode = Directory, vn_is_dir = True, vn_size = 4096, vn_deleted = False\<rparr>)],
      vs_child = [], vs_dirs = [], vs_next = 2\<rparr>"

definition get_node :: "vfs \<Rightarrow> nat \<Rightarrow> vfs_node option" where
  "get_node v i =
     (case hm_get (vs_nodes v) i of
        None \<Rightarrow> None
      | Some n \<Rightarrow> if vn_deleted n then None else Some n)"

text \<open>Writing a field of a shared node.\<close>

definition node_update :: "nat \<Rightarrow> (vfs_node \<Rightarrow> vfs_node) \<Rightarrow> vfs \<Rightarrow> vfs" where
  "node_update i f v =
     (case hm_get (vs_nodes v) i of
        None \<Rightarrow> v
      | Some n \<Rightarrow> v\<lparr>vs_nodes := hm_put i (f n) (vs_nodes v)\<rparr>)"

section \<open>Populating a directory\<close>

definition initial_size :: "repo_view \<Rightarrow> git_tree_entry \<Rightarrow> nat" where
  "initial_size rv e =
     (if mode_is_dir (te_mode e) then 4096
      else (case rv_mem rv (te_oid e) of
              Some blob \<Rightarrow> length blob
            | None \<Rightarrow>
                (case rv_disk_size rv (te_oid e) of Some len \<Rightarrow> len | None \<Rightarrow> 1024 * 1024)))"

definition entry_node :: "repo_view \<Rightarrow> nat \<Rightarrow> nat \<Rightarrow> git_tree_entry \<Rightarrow> vfs_node" where
  "entry_node rv dir_id i e =
     \<lparr>vn_id = i, vn_parent = dir_id, vn_name = te_name e, vn_oid = te_oid e, vn_mode = te_mode e,
      vn_is_dir = mode_is_dir (te_mode e), vn_size = initial_size rv e, vn_deleted = False\<rparr>"

text \<open>The loop over the entries: the counter, the ids, the new nodes, the new mappings.\<close>

fun populate_loop ::
  "repo_view \<Rightarrow> nat \<Rightarrow> (nat \<times> string, nat) hmap \<Rightarrow> git_tree_entry list \<Rightarrow>
   nat \<times> nat list \<times> (nat \<times> vfs_node) list \<times> ((nat \<times> string) \<times> nat) list \<Rightarrow>
   nat \<times> nat list \<times> (nat \<times> vfs_node) list \<times> ((nat \<times> string) \<times> nat) list" where
  "populate_loop rv dir_id child [] acc = acc"
| "populate_loop rv dir_id child (e # es) (nxt, ids, nodes, maps) =
     (case hm_get child (dir_id, te_name e) of
        Some i \<Rightarrow> populate_loop rv dir_id child es (nxt, ids @ [i], nodes, maps)
      | None \<Rightarrow>
          populate_loop rv dir_id child es
            (nxt + 1, ids @ [nxt], nodes @ [(nxt, entry_node rv dir_id nxt e)],
             maps @ [((dir_id, te_name e), nxt)]))"

definition put_all :: "('k \<times> 'v) list \<Rightarrow> ('k, 'v) hmap \<Rightarrow> ('k, 'v) hmap" where
  "put_all kvs m = fold (\<lambda>(k, v). hm_put k v) kvs m"

definition ensure_dir_populated :: "repo_view \<Rightarrow> nat \<Rightarrow> vfs \<Rightarrow> vfs \<times> unit result" where
  "ensure_dir_populated rv dir_id v =
     (if hm_get (vs_dirs v) dir_id \<noteq> None then (v, Inr ())
      else (case hm_get (vs_nodes v) dir_id of
              None \<Rightarrow> (v, Inl (E_Vfs Vfs_NoDir))
            | Some n \<Rightarrow>
                (if \<not> vn_is_dir n then (v, Inl (E_Vfs Vfs_NotDir))
                 else
                   let es = (case rv_tree rv (vn_oid n) of Some t \<Rightarrow> tree_entries t | None \<Rightarrow> []);
                       (nxt, ids, nodes, maps) = populate_loop rv dir_id (vs_child v) es (vs_next v, [], [], [])
                   in (v\<lparr>vs_nodes := put_all nodes (vs_nodes v),
                         vs_child := put_all maps (vs_child v),
                         vs_dirs := hm_put dir_id ids (vs_dirs v),
                         vs_next := nxt\<rparr>, Inr ()))))"

section \<open>Operations\<close>

definition live_child :: "vfs \<Rightarrow> nat \<Rightarrow> string \<Rightarrow> nat option" where
  "live_child v dir_id name =
     (case hm_get (vs_child v) (dir_id, name) of
        None \<Rightarrow> None
      | Some i \<Rightarrow>
          (case hm_get (vs_nodes v) i of
             None \<Rightarrow> None
           | Some n \<Rightarrow> if vn_deleted n then None else Some i))"

definition vfs_lookup :: "repo_view \<Rightarrow> nat \<Rightarrow> string \<Rightarrow> vfs \<Rightarrow> vfs \<times> nat result" where
  "vfs_lookup rv dir_id name v =
     (if name = ''.'' then (v, Inr dir_id)
      else if name = ''..'' then
        (case hm_get (vs_nodes v) dir_id of
           None \<Rightarrow> (v, Inl (E_Vfs Vfs_NoDir))
         | Some n \<Rightarrow> (v, Inr (vn_parent n)))
      else (case live_child v dir_id name of
              Some i \<Rightarrow> (v, Inr i)
            | None \<Rightarrow>
                and_then (ensure_dir_populated rv dir_id v) (\<lambda>v _.
                  case live_child v dir_id name of
                    Some i \<Rightarrow> (v, Inr i)
                  | None \<Rightarrow> (v, Inl (E_Vfs Vfs_NoChild)))))"

definition live_nodes :: "vfs \<Rightarrow> nat list \<Rightarrow> vfs_node list" where
  "live_nodes v ids =
     concat (map (\<lambda>i. case hm_get (vs_nodes v) i of
                        None \<Rightarrow> []
                      | Some n \<Rightarrow> if vn_deleted n then [] else [n]) ids)"

definition list_dir :: "repo_view \<Rightarrow> nat \<Rightarrow> vfs \<Rightarrow> vfs \<times> vfs_node list result" where
  "list_dir rv dir_id v =
     and_then (ensure_dir_populated rv dir_id v) (\<lambda>v _.
       (v, Inr (live_nodes v (case hm_get (vs_dirs v) dir_id of Some ids \<Rightarrow> ids | None \<Rightarrow> []))))"

definition push_child :: "nat \<Rightarrow> nat \<Rightarrow> vfs \<Rightarrow> vfs" where
  "push_child dir_id i v =
     v\<lparr>vs_dirs := hm_put dir_id ((case hm_get (vs_dirs v) dir_id of Some ids \<Rightarrow> ids | None \<Rightarrow> []) @ [i])
         (vs_dirs v)\<rparr>"

definition retain_other :: "nat \<Rightarrow> nat \<Rightarrow> vfs \<Rightarrow> vfs" where
  "retain_other dir_id i v =
     (case hm_get (vs_dirs v) dir_id of
        None \<Rightarrow> v
      | Some ids \<Rightarrow> v\<lparr>vs_dirs := hm_put dir_id (filter (\<lambda>c. c \<noteq> i) ids) (vs_dirs v)\<rparr>)"

definition add_node :: "vfs_node \<Rightarrow> vfs \<Rightarrow> vfs" where
  "add_node n v =
     push_child (vn_parent n) (vn_id n)
       (v\<lparr>vs_nodes := hm_put (vn_id n) n (vs_nodes v),
          vs_child := hm_put (vn_parent n, vn_name n) (vn_id n) (vs_child v),
          vs_next := vs_next v + 1\<rparr>)"

definition vfs_create_file ::
  "repo_view \<Rightarrow> nat \<Rightarrow> string \<Rightarrow> tree_entry_mode \<Rightarrow> vfs \<Rightarrow> vfs \<times> vfs_node result" where
  "vfs_create_file rv dir_id name mode v =
     and_then (ensure_dir_populated rv dir_id v) (\<lambda>v _.
       case (case hm_get (vs_child v) (dir_id, name) of
               None \<Rightarrow> None
             | Some i \<Rightarrow> hm_get (vs_nodes v) i) of
         Some node \<Rightarrow>
           (let node' = node\<lparr>vn_deleted := False, vn_size := 0\<rparr>
            in (node_update (the (hm_get (vs_child v) (dir_id, name))) (\<lambda>_. node') v, Inr node'))
       | None \<Rightarrow>
           (let node = \<lparr>vn_id = vs_next v, vn_parent = dir_id, vn_name = name, vn_oid = [],
                        vn_mode = mode, vn_is_dir = False, vn_size = 0, vn_deleted = False\<rparr>
            in (add_node node v, Inr node)))"

definition vfs_mkdir :: "repo_view \<Rightarrow> nat \<Rightarrow> string \<Rightarrow> vfs \<Rightarrow> vfs \<times> vfs_node result" where
  "vfs_mkdir rv dir_id name v =
     and_then (ensure_dir_populated rv dir_id v) (\<lambda>v _.
       let node = \<lparr>vn_id = vs_next v, vn_parent = dir_id, vn_name = name, vn_oid = [],
                   vn_mode = Directory, vn_is_dir = True, vn_size = 4096, vn_deleted = False\<rparr>;
           v' = add_node node v
       in (v'\<lparr>vs_dirs := hm_put (vn_id node) [] (vs_dirs v')\<rparr>, Inr node))"

definition vfs_remove :: "repo_view \<Rightarrow> nat \<Rightarrow> string \<Rightarrow> vfs \<Rightarrow> vfs \<times> vfs_node result" where
  "vfs_remove rv dir_id name v =
     and_then (ensure_dir_populated rv dir_id v) (\<lambda>v _.
       case hm_get (vs_child v) (dir_id, name) of
         None \<Rightarrow> (v, Inl (E_Vfs Vfs_NoChild))
       | Some i \<Rightarrow>
           (case hm_get (vs_nodes v) i of
              None \<Rightarrow> (v, Inl (E_Vfs Vfs_NoNode))
            | Some node \<Rightarrow>
                (let v1 = node_update i (vn_deleted_update (\<lambda>_. True)) v;
                     v2 = retain_other dir_id i v1
                 in (v2\<lparr>vs_child := hm_del (dir_id, name) (vs_child v2)\<rparr>,
                     Inr (node\<lparr>vn_deleted := True\<rparr>)))))"

definition vfs_rename :: "repo_view \<Rightarrow> nat \<Rightarrow> string \<Rightarrow> nat \<Rightarrow> string \<Rightarrow> vfs \<Rightarrow> vfs \<times> unit result" where
  "vfs_rename rv from_dir from_name to_dir to_name v =
     and_then (ensure_dir_populated rv from_dir v) (\<lambda>v _.
     and_then (ensure_dir_populated rv to_dir v) (\<lambda>v _.
       case hm_get (vs_child v) (from_dir, from_name) of
         None \<Rightarrow> (v, Inl (E_Vfs Vfs_NoChild))
       | Some i \<Rightarrow>
           (case hm_get (vs_nodes v) i of
              None \<Rightarrow> (v, Inl (E_Vfs Vfs_NoNode))
            | Some _ \<Rightarrow>
                (let v1 = fst (vfs_remove rv to_dir to_name v);
                     v2 = node_update i (\<lambda>n. n\<lparr>vn_parent := to_dir, vn_name := to_name\<rparr>) v1;
                     v3 = v2\<lparr>vs_child := hm_put (to_dir, to_name) i
                                (hm_del (from_dir, from_name) (vs_child v2))\<rparr>;
                     v4 = retain_other from_dir i v3
                 in (push_child to_dir i v4, Inr ())))))"

definition update_file_size :: "nat \<Rightarrow> nat \<Rightarrow> vfs \<Rightarrow> vfs" where
  "update_file_size i real_size v = node_update i (vn_size_update (\<lambda>_. real_size)) v"

definition all_active_nodes :: "vfs \<Rightarrow> vfs_node list" where
  "all_active_nodes v = filter (\<lambda>n. \<not> vn_deleted n) (map snd (vs_nodes v))"

section \<open>Paths\<close>

text \<open>
  The walk to the root ends when it meets the root, a missing node or a node that is its own
  parent; on any other cycle it does not end, which is the value None.
\<close>

partial_function (option) path_loop :: "vfs \<Rightarrow> nat \<Rightarrow> string list \<Rightarrow> (string list result) option" where
  "path_loop v cur components =
     (if cur = root_inode then Some (Inr components)
      else (case hm_get (vs_nodes v) cur of
              None \<Rightarrow> Some (Inl (E_Vfs Vfs_NoNode))
            | Some n \<Rightarrow>
                (if vn_parent n = cur then Some (Inr (components @ [vn_name n]))
                 else path_loop v (vn_parent n) (components @ [vn_name n]))))"

definition get_path :: "vfs \<Rightarrow> nat \<Rightarrow> (string result) option" where
  "get_path v node_id =
     (if node_id = root_inode then Some (Inr [])
      else map_option (map_sum id (\<lambda>components. join ''/'' (rev components))) (path_loop v node_id []))"

fun lookup_parts :: "repo_view \<Rightarrow> nat \<Rightarrow> string list \<Rightarrow> vfs \<Rightarrow> vfs \<times> nat result" where
  "lookup_parts rv cur [] v = (v, Inr cur)"
| "lookup_parts rv cur (part # parts) v =
     (if part = [] \<or> part = ''.'' then lookup_parts rv cur parts v
      else and_then (vfs_lookup rv cur part v) (\<lambda>v child. lookup_parts rv child parts v))"

definition lookup_path :: "repo_view \<Rightarrow> string \<Rightarrow> vfs \<Rightarrow> vfs \<times> nat result" where
  "lookup_path rv path v =
     (let clean = trim_char (CHR ''/'') path in
      if clean = [] then (v, Inr root_inode)
      else lookup_parts rv root_inode (split_on (CHR ''/'') clean) v)"

fun ensure_parts :: "repo_view \<Rightarrow> nat \<Rightarrow> string list \<Rightarrow> vfs \<Rightarrow> vfs \<times> nat result" where
  "ensure_parts rv cur [] v = (v, Inr cur)"
| "ensure_parts rv cur (part # parts) v =
     (case vfs_lookup rv cur part v of
        (v, Inr child) \<Rightarrow> ensure_parts rv child parts v
      | (v, Inl _) \<Rightarrow>
          and_then (vfs_mkdir rv cur part v) (\<lambda>v node. ensure_parts rv (vn_id node) parts v))"

definition ensure_parent_dirs :: "repo_view \<Rightarrow> string \<Rightarrow> vfs \<Rightarrow> vfs \<times> (nat \<times> string) result" where
  "ensure_parent_dirs rv path v =
     (let clean = trim_char (CHR ''/'') path;
          parts = filter (\<lambda>p. p \<noteq> []) (split_on (CHR ''/'') clean)
      in if parts = [] then (v, Inl (E_Vfs Vfs_EmptyPath))
         else and_then (ensure_parts rv root_inode (butlast parts) v) (\<lambda>v cur.
                (v, Inr (cur, last parts))))"


section \<open>Structure\<close>

text \<open>
  Node numbers are below the counter; the root is a live directory; a child mapping names a
  node of that parent and name, listed in its directory; a listed child has that parent and no
  directory lists a child twice.
\<close>

definition nodes_wf :: "vfs \<Rightarrow> bool" where
  "nodes_wf v \<longleftrightarrow> root_inode < vs_next v \<and>
     (\<forall>i n. hm_get (vs_nodes v) i = Some n \<longrightarrow> vn_id n = i \<and> i < vs_next v) \<and>
     (\<exists>n. hm_get (vs_nodes v) root_inode = Some n \<and> vn_is_dir n \<and> \<not> vn_deleted n \<and> vn_parent n = root_inode)"

definition child_wf :: "vfs \<Rightarrow> bool" where
  "child_wf v \<longleftrightarrow>
     (\<forall>d nm i. hm_get (vs_child v) (d, nm) = Some i \<longrightarrow> i \<noteq> root_inode \<and>
        (\<exists>n ids. hm_get (vs_nodes v) i = Some n \<and> vn_parent n = d \<and> vn_name n = nm \<and>
           hm_get (vs_dirs v) d = Some ids \<and> i \<in> set ids))"

definition dirs_wf :: "vfs \<Rightarrow> bool" where
  "dirs_wf v \<longleftrightarrow>
     (\<forall>d ids. hm_get (vs_dirs v) d = Some ids \<longrightarrow> distinct ids \<and>
        (\<exists>n. hm_get (vs_nodes v) d = Some n \<and> vn_is_dir n) \<and>
        (\<forall>i \<in> set ids. i \<noteq> root_inode \<and> (\<exists>n. hm_get (vs_nodes v) i = Some n \<and> vn_parent n = d)))"

definition vfs_wf :: "vfs \<Rightarrow> bool" where
  "vfs_wf v \<longleftrightarrow> nodes_wf v \<and> child_wf v \<and> dirs_wf v"

text \<open>Every node that a mapping or a directory refers to is live.\<close>

definition vfs_live :: "vfs \<Rightarrow> bool" where
  "vfs_live v \<longleftrightarrow>
     (\<forall>d nm i n. hm_get (vs_child v) (d, nm) = Some i \<longrightarrow> hm_get (vs_nodes v) i = Some n \<longrightarrow> \<not> vn_deleted n) \<and>
     (\<forall>d ids i n. hm_get (vs_dirs v) d = Some ids \<longrightarrow> i \<in> set ids \<longrightarrow>
        hm_get (vs_nodes v) i = Some n \<longrightarrow> \<not> vn_deleted n)"

lemma wf_node: "vfs_wf v \<Longrightarrow> hm_get (vs_nodes v) i = Some n \<Longrightarrow> vn_id n = i \<and> i < vs_next v"
  by (simp add: vfs_wf_def nodes_wf_def)

lemma wf_fresh: "vfs_wf v \<Longrightarrow> vs_next v \<le> i \<Longrightarrow> hm_get (vs_nodes v) i = None"
  using wf_node by (metis not_le not_None_eq)

lemma wf_child:
  assumes "vfs_wf v" "hm_get (vs_child v) (d, nm) = Some i"
  obtains n ids where "i \<noteq> root_inode" "hm_get (vs_nodes v) i = Some n" "vn_parent n = d" "vn_name n = nm"
    "hm_get (vs_dirs v) d = Some ids" "i \<in> set ids"
  using assms unfolding vfs_wf_def child_wf_def by blast

lemma wf_dir:
  assumes "vfs_wf v" "hm_get (vs_dirs v) d = Some ids"
  shows "distinct ids" "\<exists>n. hm_get (vs_nodes v) d = Some n \<and> vn_is_dir n"
    "i \<in> set ids \<Longrightarrow> i \<noteq> root_inode \<and> (\<exists>n. hm_get (vs_nodes v) i = Some n \<and> vn_parent n = d)"
  using assms unfolding vfs_wf_def dirs_wf_def by blast+

lemma wf_child_unique:
  "vfs_wf v \<Longrightarrow> hm_get (vs_child v) (d, nm) = Some i \<Longrightarrow> hm_get (vs_child v) (d', nm') = Some i \<Longrightarrow>
   d = d' \<and> nm = nm'"
  by (metis option.inject wf_child)

lemma vfs_new_wf: "vfs_wf (vfs_new oid)" "vfs_live (vfs_new oid)"
  by (simp_all add: vfs_wf_def nodes_wf_def child_wf_def dirs_wf_def vfs_live_def vfs_new_def root_inode_def)

section \<open>Populating keeps the structure\<close>

lemma put_all_get:
  "hm_get (put_all kvs m) k = (case map_of (rev kvs) k of Some x \<Rightarrow> Some x | None \<Rightarrow> hm_get m k)"
proof -
  have "hm_get (fold (\<lambda>(k, v). hm_put k v) kvs m) k =
      (case map_of (rev kvs) k of Some x \<Rightarrow> Some x | None \<Rightarrow> hm_get m k)" for m
    by (induction kvs arbitrary: m) (auto simp: map_add_def split: option.splits)
  then show ?thesis by (simp add: put_all_def)
qed

lemma populate_loop_fresh:
  assumes "\<forall>nm. hm_get child (d, nm) = None"
  shows "populate_loop rv d child es (n, ids, nodes, maps) =
    (n + length es, ids @ [n..<n + length es],
     nodes @ map (\<lambda>(i, e). (i, entry_node rv d i e)) (zip [n..<n + length es] es),
     maps @ map (\<lambda>(i, e). ((d, te_name e), i)) (zip [n..<n + length es] es))"
  using assms
  by (induction es arbitrary: n ids nodes maps) (simp_all add: upt_conv_Cons del: upt_Suc)

text \<open>What a populated directory looks like, given entry by entry.\<close>

lemma populated:
  assumes wf: "vfs_wf v" and d: "hm_get (vs_dirs v) d = None"
    and n: "hm_get (vs_nodes v) d = Some n" "vn_is_dir n"
    and es: "es = (case rv_tree rv (vn_oid n) of Some t \<Rightarrow> tree_entries t | None \<Rightarrow> [])"
  shows "\<exists>v'. ensure_dir_populated rv d v = (v', Inr ()) \<and> vs_next v' = vs_next v + length es \<and>
    vs_dirs v' = hm_put d [vs_next v..<vs_next v + length es] (vs_dirs v) \<and>
    (\<forall>i. hm_get (vs_nodes v') i =
      (if vs_next v \<le> i \<and> i < vs_next v + length es
       then Some (entry_node rv d i (es ! (i - vs_next v))) else hm_get (vs_nodes v) i)) \<and>
    (\<forall>d' nm i. hm_get (vs_child v') (d', nm) = Some i \<longrightarrow>
      (if d' = d then vs_next v \<le> i \<and> i < vs_next v + length es \<and> te_name (es ! (i - vs_next v)) = nm
       else hm_get (vs_child v) (d', nm) = Some i)) \<and>
    (\<forall>d' nm. d' \<noteq> d \<longrightarrow> hm_get (vs_child v') (d', nm) = hm_get (vs_child v) (d', nm)) \<and>
    (\<forall>e \<in> set es. hm_get (vs_child v') (d, te_name e) \<noteq> None)"
proof -
  let ?n = "vs_next v" and ?zs = "zip [vs_next v..<vs_next v + length es] es"
  define nodes where "nodes = map (\<lambda>(i, e). (i, entry_node rv d i e)) ?zs"
  define maps where "maps = map (\<lambda>(i, e). ((d, te_name e), i)) ?zs"
  have none: "\<forall>nm. hm_get (vs_child v) (d, nm) = None"
    using d wf by (metis not_None_eq option.distinct(1) wf_child)
  have run: "populate_loop rv d (vs_child v) es (?n, [], [], []) = (?n + length es, [?n..<?n + length es], nodes, maps)"
    using populate_loop_fresh [OF none] by (simp add: nodes_def maps_def)
  define v' where "v' = v\<lparr>vs_nodes := put_all nodes (vs_nodes v), vs_child := put_all maps (vs_child v),
      vs_dirs := hm_put d [?n..<?n + length es] (vs_dirs v), vs_next := ?n + length es\<rparr>"
  have ens: "ensure_dir_populated rv d v = (v', Inr ())"
    using d n run by (simp add: ensure_dir_populated_def es [symmetric] v'_def)
  have mem: "(i, e) \<in> set ?zs \<longleftrightarrow> ?n \<le> i \<and> i < ?n + length es \<and> e = es ! (i - ?n)" for i e
  proof -
    have "(i, e) \<in> set ?zs \<longleftrightarrow> (\<exists>k < length es. i = ?n + k \<and> e = es ! k)"
      by (auto simp: set_zip) (metis nat_add_left_cancel_less nth_upt)
    also have "\<dots> \<longleftrightarrow> ?n \<le> i \<and> i < ?n + length es \<and> e = es ! (i - ?n)"
      by (auto intro!: exI [of _ "i - ?n"])
    finally show ?thesis .
  qed
  have dist: "distinct (map fst (rev nodes))"
    by (simp add: nodes_def comp_def split_def rev_map [symmetric])
  have nd: "map_of (rev nodes) i =
     (if ?n \<le> i \<and> i < ?n + length es then Some (entry_node rv d i (es ! (i - ?n))) else None)" for i
  proof (cases "?n \<le> i \<and> i < ?n + length es")
    case True
    then have "(i, es ! (i - ?n)) \<in> set ?zs" using mem by blast
    then have "(i, entry_node rv d i (es ! (i - ?n))) \<in> set nodes" by (force simp: nodes_def)
    then show ?thesis using True dist by simp
  next
    case False
    then have "i \<notin> fst ` set (rev nodes)" using mem by (auto simp: nodes_def)
    then show ?thesis using False by (auto simp: map_of_eq_None_iff)
  qed
  have mp: "map_of (rev maps) (d', nm) = Some i \<Longrightarrow>
      d' = d \<and> ?n \<le> i \<and> i < ?n + length es \<and> te_name (es ! (i - ?n)) = nm" for d' nm i
    using mem by (auto simp: maps_def dest!: map_of_SomeD)
  have ex: "map_of (rev maps) (d, te_name e) \<noteq> None" if e: "e \<in> set es" for e
  proof -
    obtain k where "k < length es" "e = es ! k" using e by (auto simp: in_set_conv_nth)
    then have "(?n + k, e) \<in> set ?zs" using mem by simp
    then have "((d, te_name e), ?n + k) \<in> set maps" by (force simp: maps_def)
    then have "(d, te_name e) \<in> fst ` set (rev maps)" by force
    then show ?thesis by (simp add: map_of_eq_None_iff)
  qed
  have child: "hm_get (vs_child v') (d', nm) =
      (case map_of (rev maps) (d', nm) of Some x \<Rightarrow> Some x | None \<Rightarrow> hm_get (vs_child v) (d', nm))" for d' nm
    by (simp add: v'_def put_all_get)
  show ?thesis
  proof (intro exI conjI allI impI ballI)
    show "ensure_dir_populated rv d v = (v', Inr ())" by (rule ens)
    show "vs_next v' = ?n + length es" "vs_dirs v' = hm_put d [?n..<?n + length es] (vs_dirs v)"
      by (simp_all add: v'_def)
    show "hm_get (vs_nodes v') i = (if ?n \<le> i \<and> i < ?n + length es
       then Some (entry_node rv d i (es ! (i - ?n))) else hm_get (vs_nodes v) i)" for i
      by (simp add: v'_def put_all_get nd)
    show "if d' = d then ?n \<le> i \<and> i < ?n + length es \<and> te_name (es ! (i - ?n)) = nm
       else hm_get (vs_child v) (d', nm) = Some i"
      if "hm_get (vs_child v') (d', nm) = Some i" for d' nm i
      using that mp none unfolding child by (auto split: option.splits)
    show "hm_get (vs_child v') (d', nm) = hm_get (vs_child v) (d', nm)" if "d' \<noteq> d" for d' nm
      using that mp unfolding child by (auto split: option.splits)
    show "hm_get (vs_child v') (d, te_name e) \<noteq> None" if "e \<in> set es" for e
      using ex [OF that] unfolding child by (auto split: option.splits)
  qed
qed


lemma ensure_cases:
  obtains (error) e where "ensure_dir_populated rv d v = (v, Inl e)"
  | (present) ids where "hm_get (vs_dirs v) d = Some ids" "ensure_dir_populated rv d v = (v, Inr ())"
  | (fresh) n where "hm_get (vs_dirs v) d = None" "hm_get (vs_nodes v) d = Some n" "vn_is_dir n"
proof (cases "hm_get (vs_dirs v) d")
  case None
  show thesis
  proof (cases "hm_get (vs_nodes v) d")
    case (Some n)
    then show thesis using None error fresh by (cases "vn_is_dir n") (simp_all add: ensure_dir_populated_def)
  qed (use None error in \<open>simp add: ensure_dir_populated_def\<close>)
qed (use present in \<open>simp add: ensure_dir_populated_def\<close>)

lemma ensure_wf:
  assumes wf: "vfs_wf v"
  shows "vfs_wf (fst (ensure_dir_populated rv d v)) \<and>
    (vfs_live v \<longrightarrow> vfs_live (fst (ensure_dir_populated rv d v)))"
proof (cases rule: ensure_cases [of rv d v])
  case (fresh n)
  define es where "es = (case rv_tree rv (vn_oid n) of Some t \<Rightarrow> tree_entries t | None \<Rightarrow> [])"
  let ?n = "vs_next v" and ?N = "vs_next v + length es"
  obtain v' where v': "ensure_dir_populated rv d v = (v', Inr ())" "vs_next v' = ?N"
    "vs_dirs v' = hm_put d [?n..<?N] (vs_dirs v)"
    and nodes: "\<And>i. hm_get (vs_nodes v') i =
      (if ?n \<le> i \<and> i < ?N then Some (entry_node rv d i (es ! (i - ?n))) else hm_get (vs_nodes v) i)"
    and child: "\<And>d' nm i. hm_get (vs_child v') (d', nm) = Some i \<Longrightarrow>
      (if d' = d then ?n \<le> i \<and> i < ?N \<and> te_name (es ! (i - ?n)) = nm
       else hm_get (vs_child v) (d', nm) = Some i)"
    using populated [OF wf fresh es_def] by blast
  have root: "root_inode < ?n" using wf by (simp add: vfs_wf_def nodes_wf_def)
  have old: "hm_get (vs_nodes v') i = Some x" if "hm_get (vs_nodes v) i = Some x" for i x
    using that wf_node [OF wf that] nodes by simp
  have "nodes_wf v'"
    using wf root unfolding vfs_wf_def nodes_wf_def v'(2)
    by (auto simp: nodes entry_node_def trans_less_add1 split: if_splits)
  moreover have "child_wf v'"
    unfolding child_wf_def
  proof (intro allI impI)
    fix d' nm i
    assume a: "hm_get (vs_child v') (d', nm) = Some i"
    show "i \<noteq> root_inode \<and> (\<exists>n ids. hm_get (vs_nodes v') i = Some n \<and> vn_parent n = d' \<and> vn_name n = nm \<and>
        hm_get (vs_dirs v') d' = Some ids \<and> i \<in> set ids)"
    proof (cases "d' = d")
      case True
      then have "?n \<le> i" "i < ?N" "te_name (es ! (i - ?n)) = nm" using child [OF a] by auto
      then show ?thesis using True root by (auto simp: nodes v'(3) entry_node_def)
    next
      case False
      then have "hm_get (vs_child v) (d', nm) = Some i" using child [OF a] by simp
      then show ?thesis
        using False by (elim wf_child [OF wf]) (auto simp: v'(3) dest: old)
    qed
  qed
  moreover have "dirs_wf v'"
    unfolding dirs_wf_def
  proof (intro allI impI)
    fix d' ids
    assume a: "hm_get (vs_dirs v') d' = Some ids"
    show "distinct ids \<and> (\<exists>n. hm_get (vs_nodes v') d' = Some n \<and> vn_is_dir n) \<and>
        (\<forall>i \<in> set ids. i \<noteq> root_inode \<and> (\<exists>n. hm_get (vs_nodes v') i = Some n \<and> vn_parent n = d'))"
    proof (cases "d' = d")
      case True
      then show ?thesis using a root fresh old by (auto simp: v'(3) nodes entry_node_def)
    next
      case False
      then have "hm_get (vs_dirs v) d' = Some ids" using a by (simp add: v'(3))
      note w = wf_dir [OF wf this]
      show ?thesis using w(1,2) old w(3) by blast
    qed
  qed
  moreover have "vfs_live v'" if "vfs_live v"
    unfolding vfs_live_def
  proof (intro conjI allI impI)
    fix d' nm i x
    assume k: "hm_get (vs_child v') (d', nm) = Some i" and x: "hm_get (vs_nodes v') i = Some x"
    show "\<not> vn_deleted x"
    proof (cases "?n \<le> i \<and> i < ?N")
      case True
      then show ?thesis using x by (auto simp: nodes entry_node_def)
    next
      case False
      then have "hm_get (vs_child v) (d', nm) = Some i" using child [OF k] by (auto split: if_splits)
      then show ?thesis using that x False unfolding nodes vfs_live_def by auto
    qed
  next
    fix d' ids i x
    assume k: "hm_get (vs_dirs v') d' = Some ids" "i \<in> set ids" and x: "hm_get (vs_nodes v') i = Some x"
    show "\<not> vn_deleted x"
    proof (cases "?n \<le> i \<and> i < ?N")
      case True
      then show ?thesis using x by (auto simp: nodes entry_node_def)
    next
      case False
      then have "hm_get (vs_dirs v) d' = Some ids" using k by (auto simp: v'(3) split: if_splits)
      then show ?thesis using that x False k unfolding nodes vfs_live_def by auto
    qed
  qed
  ultimately show ?thesis by (simp add: v'(1) vfs_wf_def)
qed (use wf in simp_all)

lemma ensure_populates:
  "ensure_dir_populated rv d v = (v', Inr ()) \<Longrightarrow> hm_get (vs_dirs v') d \<noteq> None"
  by (auto simp: ensure_dir_populated_def Let_def split: if_splits option.splits prod.splits)


section \<open>The operations keep the structure\<close>

lemma get_node_update:
  "hm_get (vs_nodes (node_update i f v)) j =
     (if j = i then map_option f (hm_get (vs_nodes v) i) else hm_get (vs_nodes v) j)"
  by (auto simp: node_update_def split: option.splits)

lemma node_update_other [simp]:
  "vs_child (node_update i f v) = vs_child v" "vs_dirs (node_update i f v) = vs_dirs v"
  "vs_next (node_update i f v) = vs_next v"
  by (auto simp: node_update_def split: option.splits)

lemma get_retain_other:
  "hm_get (vs_dirs (retain_other d i v)) d' =
     (if d' = d then map_option (filter (\<lambda>c. c \<noteq> i)) (hm_get (vs_dirs v) d) else hm_get (vs_dirs v) d')"
  by (auto simp: retain_other_def split: option.splits)

lemma retain_other_other [simp]:
  "vs_child (retain_other d i v) = vs_child v" "vs_nodes (retain_other d i v) = vs_nodes v"
  "vs_next (retain_other d i v) = vs_next v"
  by (auto simp: retain_other_def split: option.splits)

lemma push_child_fields [simp]:
  "vs_child (push_child d i v) = vs_child v" "vs_nodes (push_child d i v) = vs_nodes v"
  "vs_next (push_child d i v) = vs_next v"
  by (auto simp: push_child_def)

lemma get_push_child:
  "hm_get (vs_dirs (push_child d i v)) d' =
     (if d' = d then Some ((case hm_get (vs_dirs v) d of Some ids \<Rightarrow> ids | None \<Rightarrow> []) @ [i])
      else hm_get (vs_dirs v) d')"
  by (simp add: push_child_def)

lemma update_keeps:
  assumes "vfs_wf v"
    "\<And>n. hm_get (vs_nodes v) i = Some n \<Longrightarrow> vn_id (f n) = vn_id n \<and> vn_parent (f n) = vn_parent n \<and>
       vn_name (f n) = vn_name n \<and> vn_is_dir (f n) = vn_is_dir n \<and> (vn_deleted (f n) \<longrightarrow> vn_deleted n)"
  shows "vfs_wf (node_update i f v) \<and> (vfs_live v \<longrightarrow> vfs_live (node_update i f v))"
proof -
  have g: "hm_get (vs_nodes (node_update i f v)) j = Some m \<Longrightarrow> \<exists>n. hm_get (vs_nodes v) j = Some n \<and>
      vn_id m = vn_id n \<and> vn_parent m = vn_parent n \<and> vn_name m = vn_name n \<and> vn_is_dir m = vn_is_dir n \<and>
      (vn_deleted m \<longrightarrow> vn_deleted n)" for j m
    using assms(2) by (auto simp: get_node_update split: if_splits)
  have h: "hm_get (vs_nodes v) j = Some n \<Longrightarrow> \<exists>m. hm_get (vs_nodes (node_update i f v)) j = Some m \<and>
      vn_id m = vn_id n \<and> vn_parent m = vn_parent n \<and> vn_name m = vn_name n \<and> vn_is_dir m = vn_is_dir n \<and>
      (vn_deleted m \<longrightarrow> vn_deleted n)" for j n
    using assms(2) by (auto simp: get_node_update)
  have "vn_id m = j \<and> j < vs_next v" if "hm_get (vs_nodes (node_update i f v)) j = Some m" for j m
    using g [OF that] wf_node [OF assms(1), of j] by auto
  moreover obtain n where n: "hm_get (vs_nodes v) root_inode = Some n" "vn_is_dir n" "\<not> vn_deleted n"
    "vn_parent n = root_inode" and rt: "root_inode < vs_next v"
    using assms(1) unfolding vfs_wf_def nodes_wf_def by blast
  moreover have "\<exists>m. hm_get (vs_nodes (node_update i f v)) root_inode = Some m \<and> vn_is_dir m \<and>
      \<not> vn_deleted m \<and> vn_parent m = root_inode"
    using h [OF n(1)] n by auto
  ultimately have "nodes_wf (node_update i f v)" unfolding nodes_wf_def by simp
  moreover have "child_wf (node_update i f v)"
    using assms(1) unfolding vfs_wf_def child_wf_def node_update_other by (metis h)
  moreover have "dirs_wf (node_update i f v)"
    using assms(1) unfolding vfs_wf_def dirs_wf_def node_update_other by (metis h)
  moreover have "vfs_live v \<Longrightarrow> vfs_live (node_update i f v)"
    unfolding vfs_live_def node_update_other by (metis g)
  ultimately show ?thesis by (simp add: vfs_wf_def)
qed

lemma add_node_keeps:
  assumes wf: "vfs_wf v" and p: "hm_get (vs_dirs v) (vn_parent n) \<noteq> None" and i: "vn_id n = vs_next v"
    and l: "\<not> vn_deleted n"
  shows "vfs_wf (add_node n v) \<and> (vfs_live v \<longrightarrow> vfs_live (add_node n v))"
proof -
  obtain ids where ids: "hm_get (vs_dirs v) (vn_parent n) = Some ids" using p by auto
  have root: "root_inode < vs_next v" using wf by (simp add: vfs_wf_def nodes_wf_def)
  have N: "hm_get (vs_nodes (add_node n v)) j = (if j = vs_next v then Some n else hm_get (vs_nodes v) j)" for j
    by (simp add: add_node_def i)
  have C: "hm_get (vs_child (add_node n v)) k = (if k = (vn_parent n, vn_name n) then Some (vs_next v) else hm_get (vs_child v) k)" for k
    by (simp add: add_node_def i)
  have D: "hm_get (vs_dirs (add_node n v)) d = (if d = vn_parent n then Some (ids @ [vs_next v]) else hm_get (vs_dirs v) d)" for d
    using ids by (simp add: add_node_def i get_push_child)
  have X: "vs_next (add_node n v) = vs_next v + 1" by (simp add: add_node_def)
  have old: "i < vs_next v" if "hm_get (vs_nodes v) i = Some m" for i m using wf_node [OF wf that] by simp
  have lt: "j < vs_next v" if "hm_get (vs_dirs v) d = Some js" "j \<in> set js" for d js j
    using wf_dir(3) [OF wf that(1) that(2)] old by blast
  have "nodes_wf (add_node n v)"
    using wf root i unfolding vfs_wf_def nodes_wf_def X by (auto simp: N less_SucI)
  moreover have "child_wf (add_node n v)"
    unfolding child_wf_def
  proof (intro allI impI)
    fix d nm j
    assume a: "hm_get (vs_child (add_node n v)) (d, nm) = Some j"
    show "j \<noteq> root_inode \<and> (\<exists>m ids. hm_get (vs_nodes (add_node n v)) j = Some m \<and> vn_parent m = d \<and>
        vn_name m = nm \<and> hm_get (vs_dirs (add_node n v)) d = Some ids \<and> j \<in> set ids)"
    proof (cases "(d, nm) = (vn_parent n, vn_name n)")
      case True
      then show ?thesis using a root by (simp add: C N D)
    next
      case False
      then have "hm_get (vs_child v) (d, nm) = Some j" using a by (simp add: C split: if_splits)
      then show ?thesis using ids old by (elim wf_child [OF wf]) (fastforce simp: N D)
    qed
  qed
  moreover have "dirs_wf (add_node n v)"
    unfolding dirs_wf_def
  proof (intro allI impI)
    fix d js
    assume a: "hm_get (vs_dirs (add_node n v)) d = Some js"
    obtain js0 where js0: "hm_get (vs_dirs v) d = Some js0"
      "js = (if d = vn_parent n then js0 @ [vs_next v] else js0)"
      using a ids by (auto simp: D split: if_splits)
    note w = wf_dir [OF wf js0(1)]
    have "distinct js" using w(1) lt [OF js0(1)] js0(2) by auto
    moreover have "\<exists>m. hm_get (vs_nodes (add_node n v)) d = Some m \<and> vn_is_dir m"
      using w(2) old by (auto simp: N)
    moreover have "j \<noteq> root_inode \<and> (\<exists>m. hm_get (vs_nodes (add_node n v)) j = Some m \<and> vn_parent m = d)"
      if "j \<in> set js" for j
      using that w(3) [of j] lt [OF js0(1)] js0(2) root by (auto simp: N split: if_splits)
    ultimately show "distinct js \<and> (\<exists>m. hm_get (vs_nodes (add_node n v)) d = Some m \<and> vn_is_dir m) \<and>
        (\<forall>j \<in> set js. j \<noteq> root_inode \<and> (\<exists>m. hm_get (vs_nodes (add_node n v)) j = Some m \<and> vn_parent m = d))"
      by blast
  qed
  moreover have "vfs_live v \<Longrightarrow> vfs_live (add_node n v)"
    using l ids unfolding vfs_live_def by (auto simp: C N D split: if_splits)
  ultimately show ?thesis by (simp add: vfs_wf_def)
qed

lemma create_file_wf:
  assumes "vfs_wf v"
  shows "vfs_wf (fst (vfs_create_file rv d nm mode v)) \<and>
    (vfs_live v \<longrightarrow> vfs_live (fst (vfs_create_file rv d nm mode v)))"
proof (cases "ensure_dir_populated rv d v")
  case (Pair v1 r)
  note e = ensure_wf [OF assms, of rv d, unfolded Pair fst_conv]
  show ?thesis
  proof (cases r)
    case (Inr u)
    then have p: "hm_get (vs_dirs v1) d \<noteq> None" using ensure_populates Pair by simp
    show ?thesis
    proof (cases "case hm_get (vs_child v1) (d, nm) of None \<Rightarrow> None | Some i \<Rightarrow> hm_get (vs_nodes v1) i")
      case None
      have "vfs_wf (add_node \<lparr>vn_id = vs_next v1, vn_parent = d, vn_name = nm, vn_oid = [],
          vn_mode = mode, vn_is_dir = False, vn_size = 0, vn_deleted = False\<rparr> v1) \<and>
          (vfs_live v1 \<longrightarrow> vfs_live (add_node \<lparr>vn_id = vs_next v1, vn_parent = d, vn_name = nm, vn_oid = [],
          vn_mode = mode, vn_is_dir = False, vn_size = 0, vn_deleted = False\<rparr> v1))"
        using e p by (intro add_node_keeps) simp_all
      then show ?thesis using Inr e None by (simp add: vfs_create_file_def Pair Let_def)
    next
      case (Some n)
      then obtain i where i: "hm_get (vs_child v1) (d, nm) = Some i" "hm_get (vs_nodes v1) i = Some n"
        by (auto split: option.splits)
      have "vfs_wf (node_update i (\<lambda>_. n\<lparr>vn_deleted := False, vn_size := 0\<rparr>) v1) \<and>
        (vfs_live v1 \<longrightarrow> vfs_live (node_update i (\<lambda>_. n\<lparr>vn_deleted := False, vn_size := 0\<rparr>) v1))"
        using e i by (intro update_keeps) auto
      then show ?thesis using Inr e Some i by (simp add: vfs_create_file_def Pair Let_def)
    qed
  qed (use e in \<open>simp add: vfs_create_file_def Pair\<close>)
qed


lemma own_dir_wf:
  assumes wf: "vfs_wf v" and n: "hm_get (vs_nodes v) i = Some n" "vn_is_dir n"
    and e: "\<And>ids. hm_get (vs_dirs v) i = Some ids \<Longrightarrow> ids = []"
  shows "vfs_wf (v\<lparr>vs_dirs := hm_put i [] (vs_dirs v)\<rparr>) \<and>
    (vfs_live v \<longrightarrow> vfs_live (v\<lparr>vs_dirs := hm_put i [] (vs_dirs v)\<rparr>))"
proof -
  let ?v = "v\<lparr>vs_dirs := hm_put i [] (vs_dirs v)\<rparr>"
  have "child_wf ?v"
    unfolding child_wf_def
  proof (intro allI impI)
    fix d nm j
    assume "hm_get (vs_child ?v) (d, nm) = Some j"
    then have a: "hm_get (vs_child v) (d, nm) = Some j" by simp
    show "j \<noteq> root_inode \<and> (\<exists>n ids. hm_get (vs_nodes ?v) j = Some n \<and> vn_parent n = d \<and> vn_name n = nm \<and>
        hm_get (vs_dirs ?v) d = Some ids \<and> j \<in> set ids)"
    proof (cases "d = i")
      case True
      then show ?thesis using wf_child [OF wf a] e by (metis empty_iff empty_set)
    next
      case False
      obtain m ids where "j \<noteq> root_inode" "hm_get (vs_nodes v) j = Some m" "vn_parent m = d" "vn_name m = nm"
        "hm_get (vs_dirs v) d = Some ids" "j \<in> set ids"
        using wf_child [OF wf a] by blast
      then show ?thesis using False by simp
    qed
  qed
  moreover have "nodes_wf ?v" using wf by (simp add: vfs_wf_def nodes_wf_def)
  moreover have "dirs_wf ?v"
    unfolding dirs_wf_def
  proof (intro allI impI)
    fix d ids
    assume a: "hm_get (vs_dirs ?v) d = Some ids"
    show "distinct ids \<and> (\<exists>n. hm_get (vs_nodes ?v) d = Some n \<and> vn_is_dir n) \<and>
        (\<forall>j \<in> set ids. j \<noteq> root_inode \<and> (\<exists>n. hm_get (vs_nodes ?v) j = Some n \<and> vn_parent n = d))"
    proof (cases "d = i")
      case False
      then have "hm_get (vs_dirs v) d = Some ids" using a by simp
      from wf_dir [OF wf this] show ?thesis by simp
    qed (use a n in simp)
  qed
  moreover have "vfs_live v \<Longrightarrow> vfs_live ?v" by (auto simp: vfs_live_def split: if_splits)
  ultimately show ?thesis by (simp add: vfs_wf_def)
qed

lemma mkdir_wf:
  assumes "vfs_wf v"
  shows "vfs_wf (fst (vfs_mkdir rv d nm v)) \<and> (vfs_live v \<longrightarrow> vfs_live (fst (vfs_mkdir rv d nm v)))"
proof (cases "ensure_dir_populated rv d v")
  case (Pair v1 r)
  note e = ensure_wf [OF assms, of rv d, unfolded Pair fst_conv]
  show ?thesis
  proof (cases r)
    case (Inr u)
    then have p: "hm_get (vs_dirs v1) d \<noteq> None" using ensure_populates Pair by simp
    define n where "n = \<lparr>vn_id = vs_next v1, vn_parent = d, vn_name = nm, vn_oid = [],
        vn_mode = Directory, vn_is_dir = True, vn_size = 4096, vn_deleted = False\<rparr>"
    have a: "vfs_wf (add_node n v1) \<and> (vfs_live v1 \<longrightarrow> vfs_live (add_node n v1))"
      using e p by (intro add_node_keeps) (simp_all add: n_def)
    have "hm_get (vs_nodes v1) d \<noteq> None" using e p wf_dir(2) by fastforce
    then have d: "d < vs_next v1" using e wf_node by blast
    have fresh: "hm_get (vs_dirs v1) (vs_next v1) = None"
      using e wf_dir(2) wf_node by (metis less_irrefl not_None_eq)
    have "hm_get (vs_nodes (add_node n v1)) (vs_next v1) = Some n" "vn_is_dir n"
      "\<And>ids. hm_get (vs_dirs (add_node n v1)) (vs_next v1) = Some ids \<Longrightarrow> ids = []"
      using d fresh by (auto simp: add_node_def n_def get_push_child)
    note own_dir_wf [OF conjunct1 [OF a] this]
    then show ?thesis using Inr e a by (simp add: vfs_mkdir_def Pair Let_def n_def)
  qed (use e in \<open>simp add: vfs_mkdir_def Pair\<close>)
qed

text \<open>Taking a child out: the state \<open>vfs_remove\<close> leaves.\<close>

definition removed :: "nat \<Rightarrow> nat \<Rightarrow> string \<Rightarrow> vfs \<Rightarrow> vfs" where
  "removed i d nm v =
     (let v2 = retain_other d i (node_update i (vn_deleted_update (\<lambda>_. True)) v)
      in v2\<lparr>vs_child := hm_del (d, nm) (vs_child v2)\<rparr>)"

lemma removed_fields:
  "hm_get (vs_nodes (removed i d nm v)) j =
     (if j = i then map_option (vn_deleted_update (\<lambda>_. True)) (hm_get (vs_nodes v) i) else hm_get (vs_nodes v) j)"
  "hm_get (vs_child (removed i d nm v)) k = (if k = (d, nm) then None else hm_get (vs_child v) k)"
  "hm_get (vs_dirs (removed i d nm v)) d' =
     (if d' = d then map_option (filter (\<lambda>c. c \<noteq> i)) (hm_get (vs_dirs v) d) else hm_get (vs_dirs v) d')"
  "vs_next (removed i d nm v) = vs_next v"
  by (simp_all add: removed_def Let_def get_node_update get_retain_other)

lemma removed_wf:
  assumes wf: "vfs_wf v" and i: "hm_get (vs_child v) (d, nm) = Some i"
  shows "vfs_wf (removed i d nm v) \<and> (vfs_live v \<longrightarrow> vfs_live (removed i d nm v))"
proof -
  let ?v = "removed i d nm v"
  obtain n ids where n: "i \<noteq> root_inode" "hm_get (vs_nodes v) i = Some n" "vn_parent n = d" "vn_name n = nm"
    "hm_get (vs_dirs v) d = Some ids" "i \<in> set ids"
    using wf_child [OF wf i] by blast
  have keep: "\<exists>m'. hm_get (vs_nodes ?v) j = Some m' \<and> vn_parent m' = vn_parent m \<and> vn_name m' = vn_name m \<and>
      vn_is_dir m' = vn_is_dir m" if "hm_get (vs_nodes v) j = Some m" for j m
    using that by (auto simp: removed_fields)
  have "nodes_wf ?v"
    using wf n(1) unfolding vfs_wf_def nodes_wf_def removed_fields(4)
    by (auto simp: removed_fields(1) split: if_splits)
  moreover have "child_wf ?v"
    unfolding child_wf_def
  proof (intro allI impI)
    fix d' nm' j
    assume "hm_get (vs_child ?v) (d', nm') = Some j"
    then have a: "hm_get (vs_child v) (d', nm') = Some j" "(d', nm') \<noteq> (d, nm)"
      by (simp_all add: removed_fields split: if_splits)
    then have "j \<noteq> i" using wf_child_unique [OF wf i] by blast
    then show "j \<noteq> root_inode \<and> (\<exists>m ids. hm_get (vs_nodes ?v) j = Some m \<and> vn_parent m = d' \<and> vn_name m = nm' \<and>
        hm_get (vs_dirs ?v) d' = Some ids \<and> j \<in> set ids)"
      using a(1) by (elim wf_child [OF wf]) (auto simp: removed_fields)
  qed
  moreover have "dirs_wf ?v"
    unfolding dirs_wf_def
  proof (intro allI impI)
    fix d' js
    assume "hm_get (vs_dirs ?v) d' = Some js"
    then obtain js0 where js0: "hm_get (vs_dirs v) d' = Some js0" "set js \<subseteq> set js0" "distinct js0 \<longrightarrow> distinct js"
      by (auto simp: removed_fields split: if_splits)
    note w = wf_dir [OF wf js0(1)]
    have "distinct js" using w(1) js0(3) by simp
    moreover have "\<exists>m. hm_get (vs_nodes ?v) d' = Some m \<and> vn_is_dir m" using w(2) keep by metis
    moreover have "j \<noteq> root_inode \<and> (\<exists>m. hm_get (vs_nodes ?v) j = Some m \<and> vn_parent m = d')" if "j \<in> set js" for j
      using w(3) [of j] that js0(2) keep by (metis subsetD)
    ultimately show "distinct js \<and> (\<exists>m. hm_get (vs_nodes ?v) d' = Some m \<and> vn_is_dir m) \<and>
        (\<forall>j \<in> set js. j \<noteq> root_inode \<and> (\<exists>m. hm_get (vs_nodes ?v) j = Some m \<and> vn_parent m = d'))" by blast
  qed
  moreover have "vfs_live ?v" if L: "vfs_live v"
    unfolding vfs_live_def
  proof (intro conjI allI impI)
    fix d' nm' j m
    assume a: "hm_get (vs_child ?v) (d', nm') = Some j" "hm_get (vs_nodes ?v) j = Some m"
    then have "hm_get (vs_child v) (d', nm') = Some j" "j \<noteq> i"
      using wf_child_unique [OF wf i] by (auto simp: removed_fields split: if_splits)
    then show "\<not> vn_deleted m" using L a(2) unfolding vfs_live_def removed_fields by auto
  next
    fix d' js j m
    assume a: "hm_get (vs_dirs ?v) d' = Some js" "j \<in> set js" "hm_get (vs_nodes ?v) j = Some m"
    have "j \<noteq> i"
    proof (cases "d' = d")
      case False
      then have "hm_get (vs_dirs v) d' = Some js" using a(1) by (simp add: removed_fields)
      then show ?thesis using wf_dir(3) [OF wf _ a(2)] n(2,3) False by auto
    qed (use a in \<open>auto simp: removed_fields\<close>)
    moreover obtain js0 where "hm_get (vs_dirs v) d' = Some js0" "j \<in> set js0"
      using a(1,2) by (auto simp: removed_fields split: if_splits)
    ultimately show "\<not> vn_deleted m" using L a(3) unfolding vfs_live_def removed_fields by auto
  qed
  ultimately show ?thesis by (simp add: vfs_wf_def)
qed

lemma remove_eq:
  "vfs_remove rv d nm v = and_then (ensure_dir_populated rv d v) (\<lambda>v _.
     case hm_get (vs_child v) (d, nm) of
       None \<Rightarrow> (v, Inl (E_Vfs Vfs_NoChild))
     | Some i \<Rightarrow> (case hm_get (vs_nodes v) i of
          None \<Rightarrow> (v, Inl (E_Vfs Vfs_NoNode))
        | Some n \<Rightarrow> (removed i d nm v, Inr (n\<lparr>vn_deleted := True\<rparr>))))"
  unfolding vfs_remove_def removed_def Let_def ..

lemma remove_wf:
  assumes "vfs_wf v"
  shows "vfs_wf (fst (vfs_remove rv d nm v)) \<and> (vfs_live v \<longrightarrow> vfs_live (fst (vfs_remove rv d nm v)))"
proof (cases "ensure_dir_populated rv d v")
  case (Pair v1 r)
  note e = ensure_wf [OF assms, of rv d, unfolded Pair fst_conv]
  show ?thesis
    using e removed_wf [OF conjunct1 [OF e], of d nm]
    by (cases r) (auto simp: remove_eq Pair split: option.splits)
qed


text \<open>Moving a child: what \<open>vfs_rename\<close> does after it removed the target.\<close>

definition moved :: "nat \<Rightarrow> nat \<Rightarrow> string \<Rightarrow> nat \<Rightarrow> string \<Rightarrow> vfs \<Rightarrow> vfs" where
  "moved i from_dir from_name to_dir to_name v =
     (let v2 = node_update i (\<lambda>n. n\<lparr>vn_parent := to_dir, vn_name := to_name\<rparr>) v;
          v3 = v2\<lparr>vs_child := hm_put (to_dir, to_name) i (hm_del (from_dir, from_name) (vs_child v2))\<rparr>
      in push_child to_dir i (retain_other from_dir i v3))"

lemma rename_eq:
  "vfs_rename rv from_dir from_name to_dir to_name v =
     and_then (ensure_dir_populated rv from_dir v) (\<lambda>v _.
     and_then (ensure_dir_populated rv to_dir v) (\<lambda>v _.
       case hm_get (vs_child v) (from_dir, from_name) of
         None \<Rightarrow> (v, Inl (E_Vfs Vfs_NoChild))
       | Some i \<Rightarrow>
           (case hm_get (vs_nodes v) i of
              None \<Rightarrow> (v, Inl (E_Vfs Vfs_NoNode))
            | Some _ \<Rightarrow> (moved i from_dir from_name to_dir to_name (fst (vfs_remove rv to_dir to_name v)), Inr ()))))"
  unfolding vfs_rename_def moved_def Let_def ..

lemma moved_fields:
  assumes "hm_get (vs_dirs v) t = Some ids"
  shows "hm_get (vs_nodes (moved i f fn t tn v)) j =
      (if j = i then map_option (\<lambda>n. n\<lparr>vn_parent := t, vn_name := tn\<rparr>) (hm_get (vs_nodes v) i) else hm_get (vs_nodes v) j)"
    "hm_get (vs_child (moved i f fn t tn v)) k =
      (if k = (t, tn) then Some i else if k = (f, fn) then None else hm_get (vs_child v) k)"
    "hm_get (vs_dirs (moved i f fn t tn v)) d =
      (if d = t then Some ((if f = t then filter (\<lambda>c. c \<noteq> i) ids else ids) @ [i])
       else if d = f then map_option (filter (\<lambda>c. c \<noteq> i)) (hm_get (vs_dirs v) f) else hm_get (vs_dirs v) d)"
    "vs_next (moved i f fn t tn v) = vs_next v"
  using assms by (auto simp: moved_def Let_def get_node_update get_retain_other get_push_child)

lemma moved_wf:
  assumes wf: "vfs_wf v" and t: "hm_get (vs_dirs v) t = Some ids"
    and i: "i \<noteq> root_inode" "hm_get (vs_nodes v) i = Some n" "vn_parent n = f"
    and c: "\<And>d nm. hm_get (vs_child v) (d, nm) = Some i \<Longrightarrow> (d, nm) = (f, fn)"
  shows "vfs_wf (moved i f fn t tn v) \<and> (vfs_live v \<and> \<not> vn_deleted n \<longrightarrow> vfs_live (moved i f fn t tn v))"
proof -
  let ?v = "moved i f fn t tn v"
  note F = moved_fields [OF t, of i f fn tn]
  have only: "d = f" if "hm_get (vs_dirs v) d = Some js" "i \<in> set js" for d js
    using wf_dir(3) [OF wf that] i(2,3) by auto
  have keep: "hm_get (vs_nodes ?v) j = Some m" if "hm_get (vs_nodes v) j = Some m" "j \<noteq> i" for j m
    using that by (simp add: F)
  have isdir: "\<exists>m. hm_get (vs_nodes ?v) d = Some m \<and> vn_is_dir m"
    if "hm_get (vs_nodes v) d = Some m" "vn_is_dir m" for d m
    using that by (cases "d = i") (auto simp: F)
  have other: "j \<noteq> i \<and> hm_get (vs_dirs v) d = Some js \<and> j \<in> set js \<or> j = i \<and> d = t"
    if "hm_get (vs_dirs ?v) d = Some ks" "j \<in> set ks" "js = the (hm_get (vs_dirs v) d)" for d ks j js
    using that t only by (auto simp: F split: if_splits)
  have "nodes_wf ?v"
    using wf i(1) unfolding vfs_wf_def nodes_wf_def F(4) by (auto simp: F(1) split: if_splits)
  moreover have "child_wf ?v"
    unfolding child_wf_def
  proof (intro allI impI)
    fix d nm j
    assume a: "hm_get (vs_child ?v) (d, nm) = Some j"
    show "j \<noteq> root_inode \<and> (\<exists>m ids. hm_get (vs_nodes ?v) j = Some m \<and> vn_parent m = d \<and> vn_name m = nm \<and>
        hm_get (vs_dirs ?v) d = Some ids \<and> j \<in> set ids)"
    proof (cases "(d, nm) = (t, tn)")
      case True
      then have j: "j = i" using a by (simp add: F)
      show ?thesis unfolding j using True i by (simp add: F)
    next
      case False
      then have "hm_get (vs_child v) (d, nm) = Some j" "(d, nm) \<noteq> (f, fn)"
        using a by (auto simp: F split: if_splits)
      moreover from this have "j \<noteq> i" using c by blast
      ultimately show ?thesis using t by (elim wf_child [OF wf]) (auto simp: F)
    qed
  qed
  moreover have "dirs_wf ?v"
    unfolding dirs_wf_def
  proof (intro allI impI)
    fix d ks
    assume a: "hm_get (vs_dirs ?v) d = Some ks"
    obtain js where js: "hm_get (vs_dirs v) d = Some js" using a t by (auto simp: F split: if_splits)
    note w = wf_dir [OF wf js]
    have "distinct ks" using a js w(1) t only by (auto simp: F split: if_splits)
    moreover have "\<exists>m. hm_get (vs_nodes ?v) d = Some m \<and> vn_is_dir m" using w(2) isdir by blast
    moreover have "j \<noteq> root_inode \<and> (\<exists>m. hm_get (vs_nodes ?v) j = Some m \<and> vn_parent m = d)" if "j \<in> set ks" for j
      using other [OF a that] js w(3) [of j] keep i(1,2) by (auto simp: F(1))
    ultimately show "distinct ks \<and> (\<exists>m. hm_get (vs_nodes ?v) d = Some m \<and> vn_is_dir m) \<and>
        (\<forall>j \<in> set ks. j \<noteq> root_inode \<and> (\<exists>m. hm_get (vs_nodes ?v) j = Some m \<and> vn_parent m = d))" by blast
  qed
  moreover have "vfs_live ?v" if L: "vfs_live v \<and> \<not> vn_deleted n"
    unfolding vfs_live_def
  proof (intro conjI allI impI)
    fix d nm j m
    assume "hm_get (vs_child ?v) (d, nm) = Some j" "hm_get (vs_nodes ?v) j = Some m"
    then show "\<not> vn_deleted m" using L i(2) unfolding vfs_live_def F by (auto split: if_splits)
  next
    fix d ks j m
    assume a: "hm_get (vs_dirs ?v) d = Some ks" "j \<in> set ks" and m: "hm_get (vs_nodes ?v) j = Some m"
    show "\<not> vn_deleted m"
      using other [OF a refl] L m i(2) unfolding vfs_live_def F(1) by (auto split: if_splits)
  qed
  ultimately show ?thesis by (simp add: vfs_wf_def)
qed


lemma ensure_present: "hm_get (vs_dirs v) d \<noteq> None \<Longrightarrow> ensure_dir_populated rv d v = (v, Inr ())"
  by (simp add: ensure_dir_populated_def)

lemma ensure_keeps_dirs:
  "ensure_dir_populated rv d v = (v', r) \<Longrightarrow> hm_get (vs_dirs v) d' = Some ids \<Longrightarrow> hm_get (vs_dirs v') d' = Some ids"
  by (auto simp: ensure_dir_populated_def Let_def split: if_splits option.splits prod.splits)

lemma remove_present:
  "hm_get (vs_dirs v) d \<noteq> None \<Longrightarrow> hm_get (vs_child v) (d, nm) = Some i \<Longrightarrow> hm_get (vs_nodes v) i = Some n \<Longrightarrow>
   vfs_remove rv d nm v = (removed i d nm v, Inr (n\<lparr>vn_deleted := True\<rparr>))"
  by (simp add: remove_eq ensure_present)

lemma remove_absent:
  "hm_get (vs_dirs v) d \<noteq> None \<Longrightarrow> hm_get (vs_child v) (d, nm) = None \<Longrightarrow>
   vfs_remove rv d nm v = (v, Inl (E_Vfs Vfs_NoChild))"
  by (simp add: remove_eq ensure_present)

text \<open>The state of a rename when both directories are populated and the source exists.\<close>

lemma rename_core_wf:
  assumes wf: "vfs_wf v" and f: "hm_get (vs_dirs v) f \<noteq> None" and t: "hm_get (vs_dirs v) t \<noteq> None"
    and i: "hm_get (vs_child v) (f, fn) = Some i"
  shows "vfs_wf (moved i f fn t tn (fst (vfs_remove rv t tn v))) \<and>
    (vfs_live v \<and> (f, fn) \<noteq> (t, tn) \<longrightarrow> vfs_live (moved i f fn t tn (fst (vfs_remove rv t tn v))))"
proof -
  obtain n ids where n: "i \<noteq> root_inode" "hm_get (vs_nodes v) i = Some n" "vn_parent n = f" "vn_name n = fn"
    "hm_get (vs_dirs v) f = Some ids" "i \<in> set ids"
    using wf_child [OF wf i] by blast
  define v1 where "v1 = fst (vfs_remove rv t tn v)"
  have w1: "vfs_wf v1 \<and> (vfs_live v \<longrightarrow> vfs_live v1)" using remove_wf [OF wf] by (simp add: v1_def)
  have v1: "(\<forall>k j. hm_get (vs_child v1) k = Some j \<longrightarrow> hm_get (vs_child v) k = Some j) \<and>
      (\<exists>ids. hm_get (vs_dirs v1) t = Some ids) \<and>
      (\<exists>m. hm_get (vs_nodes v1) i = Some m \<and> vn_parent m = f \<and>
        (hm_get (vs_child v) (t, tn) = Some i \<or> vn_deleted m = vn_deleted n))"
  proof -
    consider (absent) "hm_get (vs_child v) (t, tn) = None"
      | (present) j m where "hm_get (vs_child v) (t, tn) = Some j" "hm_get (vs_nodes v) j = Some m"
      using wf_child [OF wf] by (metis not_None_eq)
    then show ?thesis
    proof cases
      case absent
      then show ?thesis using t n by (auto simp: v1_def remove_absent)
    next
      case present
      then show ?thesis using t n by (auto simp: v1_def remove_present [OF t present] removed_fields)
    qed
  qed
  obtain ids1 where ids1: "hm_get (vs_dirs v1) t = Some ids1" using v1 by blast
  obtain m where m: "hm_get (vs_nodes v1) i = Some m" "vn_parent m = f"
    "hm_get (vs_child v) (t, tn) = Some i \<or> vn_deleted m = vn_deleted n" using v1 by blast
  have u: "\<And>d nm. hm_get (vs_child v1) (d, nm) = Some i \<Longrightarrow> (d, nm) = (f, fn)"
    using v1 wf_child_unique [OF wf i] by blast
  have "\<not> vn_deleted m" if "vfs_live v" "(f, fn) \<noteq> (t, tn)"
  proof -
    have "hm_get (vs_child v) (t, tn) \<noteq> Some i" using that(2) wf_child_unique [OF wf i] by blast
    then show ?thesis using m(3) that(1) i n(2) unfolding vfs_live_def by auto
  qed
  then show ?thesis
    using moved_wf [OF conjunct1 [OF w1] ids1 n(1) m(1,2) u, of tn] w1 unfolding v1_def by blast
qed

lemma rename_wf:
  assumes "vfs_wf v"
  shows "vfs_wf (fst (vfs_rename rv f fn t tn v)) \<and>
    (vfs_live v \<and> (f, fn) \<noteq> (t, tn) \<longrightarrow> vfs_live (fst (vfs_rename rv f fn t tn v)))"
proof (cases "ensure_dir_populated rv f v")
  case (Pair v1 r)
  note e1 = ensure_wf [OF assms, of rv f, unfolded Pair fst_conv]
  show ?thesis
  proof (cases r)
    case (Inr u)
    then obtain ids where f: "hm_get (vs_dirs v1) f = Some ids"
      using ensure_populates [of rv f v v1] Pair by auto
    show ?thesis
    proof (cases "ensure_dir_populated rv t v1")
      case P2: (Pair v2 r2)
      note e2 = ensure_wf [OF conjunct1 [OF e1], of rv t, unfolded P2 fst_conv]
      show ?thesis
      proof (cases r2)
        case (Inr u2)
        have f2: "hm_get (vs_dirs v2) f \<noteq> None" using ensure_keeps_dirs [OF P2 f] by simp
        have t2: "hm_get (vs_dirs v2) t \<noteq> None" using ensure_populates [of rv t v1 v2] P2 Inr by simp
        show ?thesis
          using rename_core_wf [OF conjunct1 [OF e2] f2 t2, of fn _ tn rv] e1 e2 Inr \<open>r = Inr u\<close>
          by (auto simp: rename_eq Pair P2 split: option.splits)
      qed (use e1 e2 Inr in \<open>auto simp: rename_eq Pair P2\<close>)
    qed
  qed (use e1 in \<open>auto simp: rename_eq Pair\<close>)
qed

lemma lookup_wf:
  assumes "vfs_wf v"
  shows "vfs_wf (fst (vfs_lookup rv d nm v)) \<and> (vfs_live v \<longrightarrow> vfs_live (fst (vfs_lookup rv d nm v)))"
  using ensure_wf [OF assms, of rv d] assms
  by (cases "ensure_dir_populated rv d v"; cases "snd (ensure_dir_populated rv d v)")
    (auto simp: vfs_lookup_def split: option.splits)

lemma list_dir_wf:
  assumes "vfs_wf v"
  shows "vfs_wf (fst (list_dir rv d v)) \<and> (vfs_live v \<longrightarrow> vfs_live (fst (list_dir rv d v)))"
  using ensure_wf [OF assms, of rv d]
  by (cases "ensure_dir_populated rv d v"; cases "snd (ensure_dir_populated rv d v)") (auto simp: list_dir_def)

lemma size_wf:
  assumes "vfs_wf v"
  shows "vfs_wf (update_file_size i sz v) \<and> (vfs_live v \<longrightarrow> vfs_live (update_file_size i sz v))"
  unfolding update_file_size_def using assms by (intro update_keeps) auto

end
