(* ===== verification/Vfs_Spec.thy ===== *)
theory Vfs_Spec
  imports Vfs
begin

text \<open>
  What the inode table of Vfs promises. \<open>vfs_invariant\<close> is the interface of an invariant that
  every operation keeps, with what follows for sequences of operations and for the path
  operations; \<open>dir_map\<close> is the abstract directory tree, a finite map from directory and name
  to inode, which each operation changes at the named entries only; \<open>walk\<close> gives paths their
  meaning.
\<close>

section \<open>Invariants of all operations\<close>

locale vfs_invariant =
  fixes rv :: repo_view and I :: "vfs \<Rightarrow> bool"
  assumes lookup_keeps: "I v \<Longrightarrow> I (fst (vfs_lookup rv d nm v))"
    and list_keeps: "I v \<Longrightarrow> I (fst (list_dir rv d v))"
    and create_keeps: "I v \<Longrightarrow> I (fst (vfs_create_file rv d nm mode v))"
    and mkdir_keeps: "I v \<Longrightarrow> I (fst (vfs_mkdir rv d nm v))"
    and remove_keeps: "I v \<Longrightarrow> I (fst (vfs_remove rv d nm v))"
    and rename_keeps: "I v \<Longrightarrow> I (fst (vfs_rename rv f fn t tn v))"
    and size_keeps: "I v \<Longrightarrow> I (update_file_size i n v)"

inductive vfs_step :: "repo_view \<Rightarrow> vfs \<Rightarrow> vfs \<Rightarrow> bool" for rv where
  lookup: "vfs_step rv v (fst (vfs_lookup rv d nm v))"
| listing: "vfs_step rv v (fst (list_dir rv d v))"
| create: "vfs_step rv v (fst (vfs_create_file rv d nm mode v))"
| mkdir: "vfs_step rv v (fst (vfs_mkdir rv d nm v))"
| remove: "vfs_step rv v (fst (vfs_remove rv d nm v))"
| rename: "vfs_step rv v (fst (vfs_rename rv f fn t tn v))"
| size: "vfs_step rv v (update_file_size i n v)"

inductive_cases vfs_step_elim: "vfs_step rv v v'"

text \<open>States that operations reach from a fresh table.\<close>

inductive vfs_reachable :: "repo_view \<Rightarrow> string \<Rightarrow> vfs \<Rightarrow> bool" for rv oid where
  start: "vfs_reachable rv oid (vfs_new oid)"
| step: "vfs_reachable rv oid v \<Longrightarrow> vfs_step rv v v' \<Longrightarrow> vfs_reachable rv oid v'"

context vfs_invariant
begin

lemma step_keeps: "vfs_step rv v v' \<Longrightarrow> I v \<Longrightarrow> I v'"
  by (erule vfs_step_elim)
    (simp_all add: lookup_keeps list_keeps create_keeps mkdir_keeps remove_keeps rename_keeps size_keeps)

lemma reachable_keeps: "I (vfs_new oid) \<Longrightarrow> vfs_reachable rv oid v \<Longrightarrow> I v"
  by (rotate_tac, induction rule: vfs_reachable.induct) (auto intro: step_keeps)

lemma lookup_parts_keeps: "I v \<Longrightarrow> I (fst (lookup_parts rv cur parts v))"
proof (induction parts arbitrary: cur v)
  case (Cons part parts)
  have "I (fst (and_then (vfs_lookup rv cur part v) (\<lambda>v child. lookup_parts rv child parts v)))"
    by (rule fst_and_then [where P = I]) (simp_all add: Cons lookup_keeps)
  then show ?case using Cons by simp
qed simp

lemma lookup_path_keeps: "I v \<Longrightarrow> I (fst (lookup_path rv path v))"
  by (simp add: lookup_path_def Let_def lookup_parts_keeps)

lemma ensure_parts_keeps: "I v \<Longrightarrow> I (fst (ensure_parts rv cur parts v))"
proof (induction parts arbitrary: cur v)
  case (Cons part parts)
  have l: "I (fst (vfs_lookup rv cur part v))" by (rule lookup_keeps) (rule Cons.prems)
  show ?case
  proof (cases "vfs_lookup rv cur part v")
    case (Pair v1 r)
    show ?thesis
    proof (cases r)
      case (Inl e)
      have "I (fst (and_then (vfs_mkdir rv cur part v1) (\<lambda>v node. ensure_parts rv (vn_id node) parts v)))"
        by (rule fst_and_then [where P = I]) (use l Pair in \<open>simp_all add: mkdir_keeps Cons.IH\<close>)
      then show ?thesis using Pair Inl by simp
    next
      case (Inr child)
      then show ?thesis using Pair l Cons.IH by simp
    qed
  qed
qed simp

lemma ensure_parent_keeps: "I v \<Longrightarrow> I (fst (ensure_parent_dirs rv path v))"
proof -
  assume v: "I v"
  have "I (fst (and_then (ensure_parts rv root_inode ps v) (\<lambda>v cur. (v, Inr (cur, q)))))" for ps and q :: string
    by (rule fst_and_then [where P = I]) (simp_all add: v ensure_parts_keeps)
  then show ?thesis using v by (simp add: ensure_parent_dirs_def Let_def)
qed

end

interpretation wf: vfs_invariant rv vfs_wf for rv
  by unfold_locales
    (simp_all add: lookup_wf list_dir_wf create_file_wf mkdir_wf remove_wf rename_wf size_wf)

text \<open>
  C31: the structure of the inode table holds in every state that operations can reach, failing
  ones included: numbers are fresh, every name leads to a node with that parent and name which its
  directory lists exactly once, and the root is always a live directory.
\<close>

theorem reachable_vfs_wf:
  assumes "vfs_reachable rv oid v"
  shows "vfs_wf v"
  using vfs_new_wf(1) assms by (rule wf.reachable_keeps)

text \<open>An empty repository and its view, for the witnesses.\<close>

definition demo_view :: repo_view where
  "demo_view = \<lparr>rv_tree = (\<lambda>_. None), rv_mem = (\<lambda>_. None), rv_disk_size = (\<lambda>_. None)\<rparr>"

theorem reachable_vfs_wf_witness:
  "vfs_wf (fst (vfs_rename demo_view 1 ''a'' 1 ''a'' (fst (vfs_create_file demo_view 1 ''a'' RegularFile (vfs_new [])))))"
  by (rule reachable_vfs_wf [OF vfs_reachable.step [OF vfs_reachable.step [OF vfs_reachable.start vfs_step.create] vfs_step.rename]])

section \<open>The abstract directory tree\<close>

definition dir_map :: "vfs \<Rightarrow> nat \<times> string \<Rightarrow> nat option" where
  "dir_map v = (\<lambda>(d, nm). live_child v d nm)"

lemma live_child_live:
  assumes "vfs_wf v" "vfs_live v"
  shows "dir_map v = hm_get (vs_child v)"
proof
  fix k :: "nat \<times> string"
  obtain d nm where k: "k = (d, nm)" by (cases k)
  show "dir_map v k = hm_get (vs_child v) k"
  proof (cases "hm_get (vs_child v) (d, nm)")
    case (Some i)
    then obtain n where "hm_get (vs_nodes v) i = Some n" using wf_child [OF assms(1)] by metis
    moreover from this have "\<not> vn_deleted n" using assms(2) Some unfolding vfs_live_def by blast
    ultimately show ?thesis using Some by (simp add: dir_map_def live_child_def k)
  qed (simp add: dir_map_def live_child_def k)
qed

lemma dir_map_size [simp]: "dir_map (update_file_size i n v) = dir_map v"
  by (auto simp: dir_map_def live_child_def update_file_size_def get_node_update fun_eq_iff split: option.splits)

text \<open>What the operations are on the abstract tree, once their directories are populated.\<close>

lemma create_abs:
  assumes "vfs_wf v" "vfs_live v" "vfs_create_file rv d nm mode v = (v', Inr n)"
  shows "dir_map v' = (dir_map (fst (ensure_dir_populated rv d v)))((d, nm) \<mapsto> vn_id n) \<and>
    get_node v' (vn_id n) = Some n \<and> vn_size n = 0 \<and> \<not> vn_deleted n"
proof -
  obtain v1 r where e: "ensure_dir_populated rv d v = (v1, r)" by (cases "ensure_dir_populated rv d v")
  then obtain u where r: "r = Inr u" using assms(3) by (cases r) (auto simp: vfs_create_file_def)
  have w1: "vfs_wf v1" "vfs_live v1" using ensure_wf [OF assms(1), of rv d] assms(2) e by auto
  have w': "vfs_wf v'" "vfs_live v'" using create_file_wf [OF assms(1), of rv d nm mode] assms(2,3) by auto
  have "hm_get (vs_child v') = (hm_get (vs_child v1))((d, nm) \<mapsto> vn_id n) \<and>
      get_node v' (vn_id n) = Some n \<and> vn_size n = 0 \<and> \<not> vn_deleted n"
  proof (cases "hm_get (vs_child v1) (d, nm)")
    case None
    then have n: "n = \<lparr>vn_id = vs_next v1, vn_parent = d, vn_name = nm, vn_oid = [],
        vn_mode = mode, vn_is_dir = False, vn_size = 0, vn_deleted = False\<rparr>" "v' = add_node n v1"
      using assms(3) e r by (auto simp: vfs_create_file_def Let_def)
    then show ?thesis by (auto simp: add_node_def get_node_def fun_eq_iff)
  next
    case (Some i)
    then obtain m where m: "hm_get (vs_nodes v1) i = Some m" using wf_child [OF w1(1)] by metis
    then have n: "n = m\<lparr>vn_deleted := False, vn_size := 0\<rparr>" "v' = node_update i (\<lambda>_. n) v1"
      using assms(3) e r Some by (auto simp: vfs_create_file_def Let_def)
    have "vn_id m = i" using wf_node [OF w1(1) m] by simp
    then show ?thesis using n m Some by (auto simp: get_node_def get_node_update fun_eq_iff)
  qed
  then show ?thesis using live_child_live [OF w1] live_child_live [OF w'] e by simp
qed

lemma lookup_live:
  assumes "dir_map v (d, nm) = Some i" "nm \<noteq> ''.''" "nm \<noteq> ''..''"
  shows "vfs_lookup rv d nm v = (v, Inr i)"
  using assms by (simp add: vfs_lookup_def dir_map_def)

lemma lookup_populated:
  assumes "hm_get (vs_dirs v) d \<noteq> None" "nm \<noteq> ''.''" "nm \<noteq> ''..''"
  shows "vfs_lookup rv d nm v =
    (v, case dir_map v (d, nm) of Some i \<Rightarrow> Inr i | None \<Rightarrow> Inl (E_Vfs Vfs_NoChild))"
  using assms by (auto simp: vfs_lookup_def dir_map_def ensure_present split: option.splits)


lemma removed_child: "hm_get (vs_child (removed i d nm v)) = (hm_get (vs_child v))((d, nm) := None)"
  by (auto simp: removed_fields fun_eq_iff)

lemma remove_abs:
  assumes "vfs_wf v" "vfs_live v" "vfs_remove rv d nm v = (v', Inr n)"
  shows "dir_map v' = (dir_map (fst (ensure_dir_populated rv d v)))((d, nm) := None) \<and>
    dir_map (fst (ensure_dir_populated rv d v)) (d, nm) = Some (vn_id n) \<and>
    get_node v' (vn_id n) = None \<and> hm_get (vs_dirs v') d \<noteq> None"
proof -
  obtain v1 r where e: "ensure_dir_populated rv d v = (v1, r)" by (cases "ensure_dir_populated rv d v")
  then obtain u where r: "r = Inr u" using assms(3) by (cases r) (auto simp: vfs_remove_def)
  have w1: "vfs_wf v1" "vfs_live v1" using ensure_wf [OF assms(1), of rv d] assms(2) e by auto
  have w': "vfs_wf v'" "vfs_live v'" using remove_wf [OF assms(1), of rv d nm] assms(2,3) by auto
  obtain i m where m: "hm_get (vs_child v1) (d, nm) = Some i" "hm_get (vs_nodes v1) i = Some m"
    "v' = removed i d nm v1" "n = m\<lparr>vn_deleted := True\<rparr>"
    using assms(3) e r by (auto simp: remove_eq split: option.splits)
  have i: "vn_id m = i" using wf_node [OF w1(1) m(2)] by simp
  have "hm_get (vs_dirs v1) d \<noteq> None" using ensure_populates [of rv d v v1] e r by simp
  then show ?thesis
    using live_child_live [OF w1] live_child_live [OF w'] e m i
    by (auto simp: removed_child removed_fields get_node_def)
qed

lemma moved_child:
  assumes "hm_get (vs_dirs v) t = Some ids"
  shows "hm_get (vs_child (moved i f fn t tn v)) = (hm_get (vs_child v))((f, fn) := None, (t, tn) := Some i)"
  by (auto simp: moved_fields(2) [OF assms] fun_eq_iff)

text \<open>The state a successful rename starts from, and what it removes first.\<close>

lemma rename_parts:
  assumes "vfs_wf v" "vfs_live v" "vfs_rename rv f fn t tn v = (v', Inr ())"
    and v1: "v1 = fst (ensure_dir_populated rv t (fst (ensure_dir_populated rv f v)))"
  obtains i n where "vfs_wf v1" "vfs_live v1" "hm_get (vs_dirs v1) f \<noteq> None" "hm_get (vs_dirs v1) t \<noteq> None"
    "hm_get (vs_child v1) (f, fn) = Some i" "hm_get (vs_nodes v1) i = Some n"
    "v' = moved i f fn t tn (fst (vfs_remove rv t tn v1))"
proof -
  obtain v0 r where e: "ensure_dir_populated rv f v = (v0, r)" by (cases "ensure_dir_populated rv f v")
  then obtain u where r: "r = Inr u" using assms(3) by (cases r) (auto simp: rename_eq)
  have w0: "vfs_wf v0" "vfs_live v0" using ensure_wf [OF assms(1), of rv f] assms(2) e by auto
  obtain r1 where e1: "ensure_dir_populated rv t v0 = (v1, r1)" using e v1 by (cases "ensure_dir_populated rv t v0") auto
  then obtain u1 where r1: "r1 = Inr u1" using assms(3) e r by (cases r1) (auto simp: rename_eq)
  have w1: "vfs_wf v1" "vfs_live v1" using ensure_wf [OF w0(1), of rv t] w0(2) e1 by auto
  obtain ids where "hm_get (vs_dirs v0) f = Some ids" using ensure_populates [of rv f v v0] e r by auto
  then have "hm_get (vs_dirs v1) f \<noteq> None" using ensure_keeps_dirs [OF e1] by simp
  moreover have "hm_get (vs_dirs v1) t \<noteq> None" using ensure_populates [of rv t v0 v1] e1 r1 by simp
  moreover obtain i n where "hm_get (vs_child v1) (f, fn) = Some i" "hm_get (vs_nodes v1) i = Some n"
    "v' = moved i f fn t tn (fst (vfs_remove rv t tn v1))"
    using assms(3) e r e1 r1 by (auto simp: rename_eq split: option.splits)
  ultimately show thesis using that w1 by blast
qed

lemma remove_child_map:
  assumes "vfs_wf v" "hm_get (vs_dirs v) d \<noteq> None"
  shows "hm_get (vs_child (fst (vfs_remove rv d nm v))) = (hm_get (vs_child v))((d, nm) := None)"
    "\<exists>ids. hm_get (vs_dirs (fst (vfs_remove rv d nm v))) d = Some ids"
    "hm_get (vs_child v) (d, nm) \<noteq> Some j \<Longrightarrow>
      hm_get (vs_nodes (fst (vfs_remove rv d nm v))) j = hm_get (vs_nodes v) j"
proof -
  have "hm_get (vs_child (fst (vfs_remove rv d nm v))) = (hm_get (vs_child v))((d, nm) := None) \<and>
    (\<exists>ids. hm_get (vs_dirs (fst (vfs_remove rv d nm v))) d = Some ids) \<and>
    (hm_get (vs_child v) (d, nm) \<noteq> Some j \<longrightarrow>
      hm_get (vs_nodes (fst (vfs_remove rv d nm v))) j = hm_get (vs_nodes v) j)"
  proof (cases "hm_get (vs_child v) (d, nm)")
    case None
    then show ?thesis using assms by (auto simp: remove_absent fun_eq_iff)
  next
    case (Some i)
    then obtain n where "hm_get (vs_nodes v) i = Some n" using wf_child [OF assms(1)] by metis
    then show ?thesis using assms(2) Some by (auto simp: remove_present removed_child removed_fields)
  qed
  then show "hm_get (vs_child (fst (vfs_remove rv d nm v))) = (hm_get (vs_child v))((d, nm) := None)"
    "\<exists>ids. hm_get (vs_dirs (fst (vfs_remove rv d nm v))) d = Some ids"
    "hm_get (vs_child v) (d, nm) \<noteq> Some j \<Longrightarrow>
      hm_get (vs_nodes (fst (vfs_remove rv d nm v))) j = hm_get (vs_nodes v) j" by blast+
qed

section \<open>Correctness of the operations\<close>

text \<open>
  C33: creating a file makes exactly one change to the directory tree: the name now leads to a
  live, empty node, which a lookup returns; every other entry is as it was.
\<close>

theorem create_file_refines:
  assumes "vfs_wf v" "vfs_live v" "vfs_create_file rv d nm mode v = (v', Inr n)" "nm \<notin> {''.'', ''..''}"
  shows "dir_map v' = (dir_map (fst (ensure_dir_populated rv d v)))((d, nm) \<mapsto> vn_id n) \<and>
    vfs_lookup rv d nm v' = (v', Inr (vn_id n)) \<and> get_node v' (vn_id n) = Some n \<and> vn_size n = 0"
  using create_abs [OF assms(1-3)] lookup_live [of v' d nm "vn_id n" rv] assms(4) by simp

text \<open>
  C34: removing a name takes exactly this entry out of the directory tree: afterwards a lookup of
  it fails and its node is gone, and every other entry is as it was.
\<close>

theorem remove_refines:
  assumes "vfs_wf v" "vfs_live v" "vfs_remove rv d nm v = (v', Inr n)" "nm \<notin> {''.'', ''..''}"
  shows "dir_map v' = (dir_map (fst (ensure_dir_populated rv d v)))((d, nm) := None) \<and>
    vfs_lookup rv d nm v' = (v', Inl (E_Vfs Vfs_NoChild)) \<and> get_node v' (vn_id n) = None"
  using remove_abs [OF assms(1-3)] lookup_populated [of v' d nm rv] assms(4) by simp

text \<open>
  C11: a rename between two different entries moves the node: the new name leads to the inode
  the old name led to, with its object id and size unchanged, the old name is gone, and every
  other entry is as it was (a previous target is replaced).
\<close>

theorem rename_refines:
  assumes "vfs_wf v" "vfs_live v" "vfs_rename rv f fn t tn v = (v', Inr ())" "(f, fn) \<noteq> (t, tn)"
    and v1: "v1 = fst (ensure_dir_populated rv t (fst (ensure_dir_populated rv f v)))"
  shows "\<exists>i n. dir_map v1 (f, fn) = Some i \<and> hm_get (vs_nodes v1) i = Some n \<and>
    dir_map v' = (dir_map v1)((f, fn) := None, (t, tn) \<mapsto> i) \<and>
    get_node v' i = Some (n\<lparr>vn_parent := t, vn_name := tn\<rparr>)"
proof -
  obtain i n where p: "vfs_wf v1" "vfs_live v1" "hm_get (vs_dirs v1) f \<noteq> None" "hm_get (vs_dirs v1) t \<noteq> None"
    "hm_get (vs_child v1) (f, fn) = Some i" "hm_get (vs_nodes v1) i = Some n"
    "v' = moved i f fn t tn (fst (vfs_remove rv t tn v1))"
    using rename_parts [OF assms(1-3) v1] by blast
  have w': "vfs_wf v'" "vfs_live v'" using rename_wf [OF assms(1), of rv f fn t tn] assms(2-4) by auto
  have nt: "hm_get (vs_child v1) (t, tn) \<noteq> Some i" using wf_child_unique [OF p(1,5)] assms(4) by blast
  obtain ids where ids: "hm_get (vs_dirs (fst (vfs_remove rv t tn v1))) t = Some ids"
    using remove_child_map(2) [OF p(1,4)] by blast
  have "\<not> vn_deleted n" using p(2,5,6) unfolding vfs_live_def by blast
  moreover have "hm_get (vs_nodes v') i = Some (n\<lparr>vn_parent := t, vn_name := tn\<rparr>)"
    unfolding p(7) moved_fields(1) [OF ids] using remove_child_map(3) [OF p(1,4) nt] p(6) by simp
  ultimately have "get_node v' i = Some (n\<lparr>vn_parent := t, vn_name := tn\<rparr>)" by (simp add: get_node_def)
  moreover have "dir_map v' = (dir_map v1)((f, fn) := None, (t, tn) \<mapsto> i)"
    unfolding live_child_live [OF w'] live_child_live [OF p(1,2)]
    unfolding p(7) moved_child [OF ids] remove_child_map(1) [OF p(1,4)] by auto
  ultimately show ?thesis using p(5,6) live_child_live [OF p(1,2)] by metis
qed

text \<open>
  C38: renaming a file onto its own name, which is meant to do nothing, destroys it: the rename
  reports success and the name can no longer be looked up.
\<close>

theorem rename_onto_itself_loses_file:
  assumes "vfs_wf v" "vfs_live v" "vfs_rename rv f fn f fn v = (v', Inr ())" "fn \<notin> {''.'', ''..''}"
  shows "vfs_lookup rv f fn v' = (v', Inl (E_Vfs Vfs_NoChild))"
proof -
  define v1 where "v1 = fst (ensure_dir_populated rv f (fst (ensure_dir_populated rv f v)))"
  obtain i n where p: "vfs_wf v1" "vfs_live v1" "hm_get (vs_dirs v1) f \<noteq> None"
    "hm_get (vs_child v1) (f, fn) = Some i" "hm_get (vs_nodes v1) i = Some n"
    "v' = moved i f fn f fn (fst (vfs_remove rv f fn v1))"
    using rename_parts [OF assms(1-3) v1_def] by blast
  have v': "v' = moved i f fn f fn (removed i f fn v1)" using p by (simp add: remove_present)
  obtain ids where ids: "hm_get (vs_dirs (removed i f fn v1)) f = Some ids"
    using p(3) by (auto simp: removed_fields)
  have "live_child v' f fn = None"
    unfolding v' live_child_def using p(5) by (simp add: moved_fields [OF ids] removed_fields(1))
  moreover have "hm_get (vs_dirs v') f \<noteq> None" unfolding v' by (simp add: moved_fields [OF ids])
  ultimately show ?thesis using lookup_populated [of v' f fn rv] assms(4) by (simp add: dir_map_def)
qed


lemma live_nodes_set:
  "n \<in> set (live_nodes v ids) \<longleftrightarrow> (\<exists>i \<in> set ids. hm_get (vs_nodes v) i = Some n \<and> \<not> vn_deleted n)"
proof -
  have "n \<in> set (case hm_get (vs_nodes v) i of None \<Rightarrow> [] | Some n \<Rightarrow> if vn_deleted n then [] else [n]) \<longleftrightarrow>
      hm_get (vs_nodes v) i = Some n \<and> \<not> vn_deleted n" for i
    by (auto split: option.splits)
  then show ?thesis by (simp add: live_nodes_def)
qed

text \<open>
  Making a directory under a name that is taken reports success and leaves two live entries of
  that name in the listing; the old one can no longer be reached by name.
\<close>

theorem mkdir_duplicates_name:
  assumes "vfs_wf v" "vfs_live v" "vfs_mkdir rv d nm v = (v', Inr n)"
    "dir_map (fst (ensure_dir_populated rv d v)) (d, nm) = Some i"
  shows "vn_id n \<noteq> i \<and> dir_map v' (d, nm) = Some (vn_id n) \<and>
    (\<exists>l. list_dir rv d v' = (v', Inr l) \<and> {i, vn_id n} \<subseteq> vn_id ` {m \<in> set l. vn_name m = nm})"
proof -
  obtain v1 r where e: "ensure_dir_populated rv d v = (v1, r)" by (cases "ensure_dir_populated rv d v")
  then obtain u where r: "r = Inr u" using assms(3) by (cases r) (auto simp: vfs_mkdir_def)
  have w1: "vfs_wf v1" "vfs_live v1" using ensure_wf [OF assms(1), of rv d] assms(2) e by auto
  have w': "vfs_wf v'" "vfs_live v'" using mkdir_wf [OF assms(1), of rv d nm] assms(2,3) by auto
  have "hm_get (vs_child v1) (d, nm) = Some i" using assms(4) live_child_live [OF w1] e by simp
  then obtain m ids where m: "hm_get (vs_nodes v1) i = Some m" "vn_parent m = d" "vn_name m = nm"
    "hm_get (vs_dirs v1) d = Some ids" "i \<in> set ids"
    using wf_child [OF w1(1)] by metis
  have live: "\<not> vn_deleted m" using w1(2) m(1,4,5) unfolding vfs_live_def by blast
  have lt: "vn_id m = i" "i < vs_next v1" using wf_node [OF w1(1) m(1)] by simp_all
  have "d < vs_next v1" using wf_dir(2) [OF w1(1) m(4)] wf_node [OF w1(1)] by blast
  define n0 where "n0 = \<lparr>vn_id = vs_next v1, vn_parent = d, vn_name = nm, vn_oid = [],
      vn_mode = Directory, vn_is_dir = True, vn_size = 4096, vn_deleted = False\<rparr>"
  have n: "n = n0" and v': "v' = (add_node n0 v1)\<lparr>vs_dirs := hm_put (vs_next v1) [] (vs_dirs (add_node n0 v1))\<rparr>"
    using assms(3) e r by (auto simp: vfs_mkdir_def Let_def n0_def)
  have dirs: "hm_get (vs_dirs v') d = Some (ids @ [vs_next v1])"
    using m(4) \<open>d < vs_next v1\<close> by (simp add: v' add_node_def get_push_child n0_def)
  have nodes: "hm_get (vs_nodes v') i = Some m" "hm_get (vs_nodes v') (vs_next v1) = Some n0"
    using m(1) lt by (simp_all add: v' add_node_def n0_def)
  have "hm_get (vs_child v') (d, nm) = Some (vs_next v1)" by (simp add: v' add_node_def n0_def)
  moreover have "list_dir rv d v' = (v', Inr (live_nodes v' (ids @ [vs_next v1])))"
    using dirs by (simp add: list_dir_def ensure_present)
  moreover have "m \<in> set (live_nodes v' (ids @ [vs_next v1]))" "n0 \<in> set (live_nodes v' (ids @ [vs_next v1]))"
    unfolding live_nodes_set using nodes live m(5) by (auto simp: n0_def)
  ultimately show ?thesis
    using lt m(3) live_child_live [OF w'] n by (auto simp: n0_def image_iff)
qed

section \<open>Paths\<close>

fun walk :: "vfs \<Rightarrow> nat \<Rightarrow> string list \<Rightarrow> nat option" where
  "walk v d [] = Some d"
| "walk v d (nm # nms) = (case dir_map v (d, nm) of None \<Rightarrow> None | Some c \<Rightarrow> walk v c nms)"

definition name_ok :: "string \<Rightarrow> bool" where
  "name_ok nm \<longleftrightarrow> nm \<noteq> [] \<and> CHR ''/'' \<notin> set nm \<and> nm \<notin> {''.'', ''..''}"

lemma walk_snoc: "walk v d (nms @ [nm]) = (case walk v d nms of None \<Rightarrow> None | Some c \<Rightarrow> dir_map v (c, nm))"
  by (induction nms arbitrary: d) (auto split: option.splits)

lemma dir_map_node:
  assumes "vfs_wf v" "dir_map v (d, nm) = Some i"
  obtains n where "hm_get (vs_nodes v) i = Some n" "vn_parent n = d" "vn_name n = nm" "i \<noteq> root_inode"
proof -
  have "hm_get (vs_child v) (d, nm) = Some i"
    using assms(2) by (auto simp: dir_map_def live_child_def split: option.splits if_splits)
  then show thesis using wf_child [OF assms(1)] that by metis
qed

lemma path_loop_walk:
  "vfs_wf v \<Longrightarrow> walk v root_inode nms = Some i \<Longrightarrow> path_loop v i acc = Some (Inr (acc @ rev nms))"
proof (induction nms arbitrary: i acc rule: rev_induct)
  case Nil
  then show ?case by (simp add: path_loop.simps)
next
  case (snoc nm nms)
  then obtain c where c: "walk v root_inode nms = Some c" "dir_map v (c, nm) = Some i"
    by (auto simp: walk_snoc split: option.splits)
  obtain n where n: "hm_get (vs_nodes v) i = Some n" "vn_parent n = c" "vn_name n = nm" "i \<noteq> root_inode"
    using dir_map_node [OF snoc.prems(1) c(2)] by blast
  have "c \<noteq> i"
  proof
    assume "c = i"
    have ih: "path_loop v i acc = Some (Inr (acc @ rev nms))" for acc
      using snoc.IH [OF snoc.prems(1) c(1)] \<open>c = i\<close> by simp
    have "path_loop v i [] = Some (Inr [nm])"
      using n \<open>c = i\<close> by (simp add: path_loop.simps [of v i])
    then have "rev nms = [nm]" using ih [of "[]"] by simp
    moreover from this have "nms = [nm]" by (metis rev_rev_ident rev_singleton_conv)
    ultimately show False using c(1) n \<open>c = i\<close> dir_map_node [OF snoc.prems(1), of root_inode nm i]
      by (auto split: option.splits)
  qed
  then show ?case using n snoc.IH [OF snoc.prems(1) c(1), of "acc @ [nm]"]
    by (simp add: path_loop.simps [of v i])
qed

lemma get_path_walk:
  assumes "vfs_wf v" "walk v root_inode nms = Some i"
  shows "get_path v i = Some (Inr (join ''/'' nms))"
proof (cases "i = root_inode")
  case True
  have "nms = []"
  proof (cases nms rule: rev_cases)
    case (snoc ms nm)
    then obtain c where "dir_map v (c, nm) = Some i" using assms(2) by (auto simp: walk_snoc split: option.splits)
    then show ?thesis using dir_map_node [OF assms(1)] True by metis
  qed
  then show ?thesis using True by (simp add: get_path_def)
next
  case False
  then show ?thesis using path_loop_walk [OF assms, of "[]"] by (simp add: get_path_def)
qed

lemma lookup_parts_walk:
  "walk v d nms = Some i \<Longrightarrow> list_all name_ok nms \<Longrightarrow> lookup_parts rv d nms v = (v, Inr i)"
  by (induction nms arbitrary: d) (auto simp: name_ok_def lookup_live split: option.splits)

lemma join_ends:
  assumes "nms \<noteq> []" "list_all name_ok nms"
  shows "join ''/'' nms \<noteq> [] \<and> hd (join ''/'' nms) \<noteq> CHR ''/'' \<and> last (join ''/'' nms) \<noteq> CHR ''/''"
  using assms
proof (induction nms)
  case (Cons nm nms)
  then have ok: "nm \<noteq> []" "hd nm \<noteq> CHR ''/''" "last nm \<noteq> CHR ''/''"
    by (auto simp: name_ok_def) (metis hd_in_set, metis last_in_set)
  show ?case
  proof (cases nms)
    case Nil
    then show ?thesis using ok by simp
  next
    case (Cons m ms)
    then show ?thesis using ok Cons.IH Cons.prems by auto
  qed
qed simp

lemma lookup_path_walk:
  assumes "walk v root_inode nms = Some i" "list_all name_ok nms"
  shows "lookup_path rv (join ''/'' nms) v = (v, Inr i)"
proof (cases "nms = []")
  case True
  then show ?thesis using assms by (simp add: lookup_path_def trim_char_def trim_start_char_def trim_end_char_def)
next
  case False
  note j = join_ends [OF this assms(2)]
  have "trim_char (CHR ''/'') (join ''/'' nms) = join ''/'' nms"
    using j by (simp add: trim_char_def trim_start_char_id trim_end_char_id)
  moreover have "split_on (CHR ''/'') (join ''/'' nms) = nms"
    using False assms(2) by (intro split_on_join) (auto simp: list_all_iff name_ok_def)
  ultimately show ?thesis
    using j lookup_parts_walk [OF assms] by (simp add: lookup_path_def)
qed

text \<open>
  C30: paths and inodes correspond for the nodes a client can reach: if a walk from the root
  through live nodes by non-empty names without a slash, other than dot names, ends at a node, then
  computing the path of the node ends and gives those names joined by slashes, and resolving that
  path gives the node back without changing anything. A node that no such walk reaches is not
  covered: one that a second directory of its name shadows (lemma \<open>mkdir_duplicates_name\<close>), or
  one below a cycle (lemma \<open>path_of_cycle_diverges\<close>). The log names nodes by these paths.
\<close>

theorem path_round_trip:
  assumes "vfs_wf v" "walk v root_inode nms = Some i" "list_all name_ok nms"
  shows "\<exists>p. get_path v i = Some (Inr p) \<and> p = join ''/'' nms \<and> lookup_path rv p v = (v, Inr i)"
  using get_path_walk [OF assms(1,2)] lookup_path_walk [OF assms(2,3)] by blast

text \<open>
  A directory that was moved below itself makes the path computation run for ever: no path is
  returned for any node on a cycle of parents that avoids the root.
\<close>

theorem path_of_cycle_diverges:
  assumes "\<And>j. j \<in> S \<Longrightarrow> j \<noteq> root_inode \<and>
      (\<exists>n. hm_get (vs_nodes v) j = Some n \<and> vn_parent n \<noteq> j \<and> vn_parent n \<in> S)"
    "i \<in> S"
  shows "get_path v i = None"
proof -
  have div: "w = v \<longrightarrow> j \<notin> S" if run: "path_loop w j acc = Some r" for w j acc r
  proof (rule path_loop.raw_induct [where P = "\<lambda>w j acc r. w = v \<longrightarrow> j \<notin> S", OF _ run])
    fix loop w j acc and r :: "string list result"
    assume ih: "\<And>w j acc r. loop w j acc = Some r \<Longrightarrow> w = v \<longrightarrow> j \<notin> S"
      and body: "(if j = root_inode then Some (Inr acc)
        else case hm_get (vs_nodes w) j of None \<Rightarrow> Some (Inl (E_Vfs Vfs_NoNode))
          | Some n \<Rightarrow> if vn_parent n = j then Some (Inr (acc @ [vn_name n]))
              else loop w (vn_parent n) (acc @ [vn_name n])) = Some r"
    show "w = v \<longrightarrow> j \<notin> S"
    proof (intro impI notI)
      assume w: "w = v" and "j \<in> S"
      then obtain n where n: "j \<noteq> root_inode" "hm_get (vs_nodes v) j = Some n" "vn_parent n \<noteq> j" "vn_parent n \<in> S"
        using assms(1) by blast
      then have "loop v (vn_parent n) (acc @ [vn_name n]) = Some r" using body w by simp
      then show False using ih n(4) by blast
    qed
  qed
  have "path_loop v i [] = None" using assms(2) div by (metis not_None_eq)
  then show ?thesis using assms by (auto simp: get_path_def)
qed


section \<open>Witnesses\<close>

text \<open>A root with the file \<open>a\<close> (inode 2).\<close>

definition demo_root :: vfs where
  "demo_root = fst (ensure_dir_populated demo_view 1 (vfs_new []))"

definition demo_vfs :: vfs where
  "demo_vfs = fst (vfs_create_file demo_view 1 ''a'' RegularFile (vfs_new []))"

definition demo_node :: vfs_node where
  "demo_node = \<lparr>vn_id = 2, vn_parent = 1, vn_name = ''a'', vn_oid = [], vn_mode = RegularFile,
     vn_is_dir = False, vn_size = 0, vn_deleted = False\<rparr>"

lemmas vfs_eval = vfs_new_def root_inode_def ensure_dir_populated_def demo_view_def put_all_def
  vfs_create_file_def add_node_def push_child_def remove_eq removed_def retain_other_def node_update_def
  rename_eq moved_def vfs_mkdir_def dir_map_def live_child_def

lemma demo_create: "vfs_create_file demo_view 1 ''a'' RegularFile (vfs_new []) = (demo_vfs, Inr demo_node)"
  by (simp add: demo_vfs_def demo_node_def vfs_eval Let_def)

lemma demo_vfs_wf: "vfs_wf demo_vfs" "vfs_live demo_vfs"
  using create_file_wf [OF vfs_new_wf(1), of demo_view 1 "''a''" RegularFile "[]"] vfs_new_wf(2)
  by (simp_all add: demo_vfs_def)

lemma demo_ensure: "ensure_dir_populated demo_view 1 demo_vfs = (demo_vfs, Inr ())"
  by (simp add: demo_vfs_def vfs_eval Let_def)

lemma demo_dir_map: "dir_map demo_vfs (1, ''a'') = Some 2" "dir_map demo_vfs (1, ''b'') = None"
  by (simp_all add: demo_vfs_def vfs_eval Let_def)

theorem create_file_refines_witness:
  "vfs_lookup demo_view 1 ''a'' demo_vfs = (demo_vfs, Inr 2)"
  using create_file_refines [OF vfs_new_wf demo_create, unfolded demo_node_def] by simp

theorem remove_refines_witness:
  "\<exists>v' n. vfs_remove demo_view 1 ''a'' demo_vfs = (v', Inr n) \<and>
     vfs_lookup demo_view 1 ''a'' v' = (v', Inl (E_Vfs Vfs_NoChild))"
proof -
  obtain v' n where r: "vfs_remove demo_view 1 ''a'' demo_vfs = (v', Inr n)"
    by (simp add: demo_vfs_def vfs_eval Let_def)
  show ?thesis using remove_refines [OF demo_vfs_wf r] r by simp
qed

theorem rename_refines_witness:
  "\<exists>v'. vfs_rename demo_view 1 ''a'' 1 ''b'' demo_vfs = (v', Inr ()) \<and> dir_map v' (1, ''b'') = Some 2 \<and>
     dir_map v' (1, ''a'') = None"
proof -
  obtain v' where r: "vfs_rename demo_view 1 ''a'' 1 ''b'' demo_vfs = (v', Inr ())"
    by (simp add: demo_vfs_def vfs_eval Let_def)
  have "demo_vfs = fst (ensure_dir_populated demo_view 1 (fst (ensure_dir_populated demo_view 1 demo_vfs)))"
    by (simp only: demo_ensure fst_conv)
  from rename_refines [OF demo_vfs_wf r _ this] show ?thesis using r demo_dir_map by auto
qed

theorem rename_onto_itself_loses_file_witness:
  "\<exists>v'. vfs_lookup demo_view 1 ''a'' demo_vfs = (demo_vfs, Inr 2) \<and>
     vfs_rename demo_view 1 ''a'' 1 ''a'' demo_vfs = (v', Inr ()) \<and>
     vfs_lookup demo_view 1 ''a'' v' = (v', Inl (E_Vfs Vfs_NoChild))"
proof -
  obtain v' where r: "vfs_rename demo_view 1 ''a'' 1 ''a'' demo_vfs = (v', Inr ())"
    by (simp add: demo_vfs_def vfs_eval Let_def)
  show ?thesis using rename_onto_itself_loses_file [OF demo_vfs_wf r] r lookup_live [OF demo_dir_map(1)] by simp
qed

theorem mkdir_duplicates_name_witness:
  "\<exists>v' n l. vfs_mkdir demo_view 1 ''a'' demo_vfs = (v', Inr n) \<and> vn_id n \<noteq> 2 \<and>
     list_dir demo_view 1 v' = (v', Inr l) \<and> {2, vn_id n} \<subseteq> vn_id ` {m \<in> set l. vn_name m = ''a''}"
proof -
  obtain v' n where r: "vfs_mkdir demo_view 1 ''a'' demo_vfs = (v', Inr n)"
    by (simp add: demo_vfs_def vfs_eval Let_def)
  have "dir_map (fst (ensure_dir_populated demo_view 1 demo_vfs)) (1, ''a'') = Some 2"
    by (simp only: demo_ensure fst_conv demo_dir_map)
  from mkdir_duplicates_name [OF demo_vfs_wf r this] show ?thesis using r by blast
qed

theorem path_round_trip_witness:
  "get_path demo_vfs 2 = Some (Inr ''a'') \<and> lookup_path demo_view ''a'' demo_vfs = (demo_vfs, Inr 2)"
  using path_round_trip [OF demo_vfs_wf(1), of "[''a'']" 2 demo_view] demo_dir_map
  by (simp add: root_inode_def name_ok_def)

text \<open>Two directories, the first moved into the second.\<close>

definition demo_cycle :: vfs where
  "demo_cycle =
     (let v1 = fst (vfs_mkdir demo_view 1 ''x'' (vfs_new []));
          v2 = fst (vfs_mkdir demo_view 2 ''y'' v1)
      in fst (vfs_rename demo_view 1 ''x'' 3 ''x'' v2))"

theorem path_of_cycle_diverges_witness:
  "get_path demo_cycle 2 = None"
proof -
  have n: "\<exists>n. hm_get (vs_nodes demo_cycle) 2 = Some n \<and> vn_parent n = 3"
    "\<exists>n. hm_get (vs_nodes demo_cycle) 3 = Some n \<and> vn_parent n = 2"
    by (simp_all add: demo_cycle_def vfs_eval Let_def)
  show ?thesis
    by (rule path_of_cycle_diverges [where S = "{2, 3}"]) (use n in \<open>auto simp: root_inode_def\<close>)
qed

end
