(* ===== verification/Staging.thy ===== *)
theory Staging
  imports Commit_Message
begin

text \<open>
  The staging area of \<^verbatim>\<open>src/src/staging/mod.rs\<close>: the files \<open>node_<id>.bin\<close> of its directory
  (by inode) and the three tables kept beside them. The operating system is the record \<open>io\<close>: which
  calls of a method succeed, how many bytes a failing \<open>write_all\<close> still put into the file of a
  node, the node files an earlier run left in the directory, and which files a \<open>remove_dir_all\<close> that
  fails (or is not reached because the directory is not seen) leaves behind. A node file that cannot be
  examined (\<open>Io_Exists\<close>) is taken for missing, and created again, which empties it. The sets of deleted nodes and changed paths are lists without
  duplicates, of which only membership matters.
\<close>

datatype io_call =
  Io_Exists nat | Io_Create nat | Io_Write_Base nat | Io_Open nat | Io_Seek nat | Io_Write nat | Io_Flush nat
| Io_Stat nat | Io_Set_Len nat | Io_Read nat | Io_Remove_Dir | Io_Create_Dir

record io =
  io_ok :: "io_call \<Rightarrow> bool"
  io_part :: "nat \<Rightarrow> nat"
  io_left :: "(nat, bytes) hmap"
  io_kept :: "nat \<Rightarrow> bool"

record staging =
  sg_files :: "(nat, bytes) hmap"
  sg_staged :: "(nat, nat) hmap"
  sg_deleted :: "nat list"
  sg_changed :: "string list"

section \<open>Operations\<close>

text \<open>The node files that are there after the directory was removed, which may fail silently.\<close>

definition remaining_files :: "io \<Rightarrow> (nat, bytes) hmap \<Rightarrow> (nat, bytes) hmap" where
  "remaining_files io fs = (if io_ok io Io_Remove_Dir then [] else filter (\<lambda>(i, _). io_kept io i) fs)"

definition staging_new :: "io \<Rightarrow> staging result" where
  "staging_new io =
     (if io_ok io Io_Create_Dir
      then Inr \<lparr>sg_files = remaining_files io (io_left io), sg_staged = [], sg_deleted = [], sg_changed = []\<rparr>
      else Inl E_Staging)"

definition is_staged :: "staging \<Rightarrow> nat \<Rightarrow> bool" where
  "is_staged s i \<longleftrightarrow> hm_get (sg_staged s) i \<noteq> None"

definition is_deleted :: "staging \<Rightarrow> nat \<Rightarrow> bool" where
  "is_deleted s i \<longleftrightarrow> i \<in> set (sg_deleted s)"

definition list_deleted_nodes :: "staging \<Rightarrow> nat list" where
  "list_deleted_nodes s = sg_deleted s"

definition mark_deleted :: "nat \<Rightarrow> staging \<Rightarrow> staging" where
  "mark_deleted i s = s\<lparr>sg_deleted := List.insert i (sg_deleted s)\<rparr>"

definition get_size :: "staging \<Rightarrow> nat \<Rightarrow> nat option" where
  "get_size s i = hm_get (sg_staged s) i"

definition staging_create_file :: "io \<Rightarrow> nat \<Rightarrow> staging \<Rightarrow> staging \<times> unit result" where
  "staging_create_file io i s =
     (if io_ok io (Io_Create i)
      then (s\<lparr>sg_files := hm_put i [] (sg_files s), sg_staged := hm_put i 0 (sg_staged s)\<rparr>, Inr ())
      else (s, Inl E_Staging))"

text \<open>The file of a node, as \<^verbatim>\<open>Path::exists\<close> sees it.\<close>

definition existing_file :: "io \<Rightarrow> nat \<Rightarrow> staging \<Rightarrow> bytes option" where
  "existing_file io i s = (if io_ok io (Io_Exists i) then hm_get (sg_files s) i else None)"

text \<open>
  The file of a node, created from the base content when none is seen (a file that was left
  behind is taken as it is, also when the node is not staged). A base copy that fails leaves a part.
\<close>

definition ensure_file :: "io \<Rightarrow> nat \<Rightarrow> bytes option \<Rightarrow> staging \<Rightarrow> staging \<times> bytes result" where
  "ensure_file io i initial_data s =
     (case existing_file io i s of
        Some c \<Rightarrow> (s, Inr c)
      | None \<Rightarrow>
          (if \<not> io_ok io (Io_Create i) then (s, Inl E_Staging)
           else
             let s1 = s\<lparr>sg_files := hm_put i [] (sg_files s)\<rparr> in
             case initial_data of
               None \<Rightarrow> (s1, Inr [])
             | Some base \<Rightarrow>
                 (if \<not> io_ok io (Io_Write_Base i)
                  then (s1\<lparr>sg_files := hm_put i (take (io_part io i) base) (sg_files s1)\<rparr>, Inl E_Staging)
                  else (s1\<lparr>sg_files := hm_put i base (sg_files s1)\<rparr>, Inr base))))"

text \<open>Writing at a position: a gap is filled with zeros, an empty write changes nothing.\<close>

definition overlay :: "bytes \<Rightarrow> nat \<Rightarrow> bytes \<Rightarrow> bytes" where
  "overlay c off d =
     (if d = [] then c
      else take off (c @ replicate (off - length c) 0) @ d @ drop (off + length d) c)"

definition resize :: "bytes \<Rightarrow> nat \<Rightarrow> bytes" where
  "resize c n = take n c @ replicate (n - length c) 0"

definition staging_write_at ::
  "io \<Rightarrow> nat \<Rightarrow> nat \<Rightarrow> bytes \<Rightarrow> bytes option \<Rightarrow> staging \<Rightarrow> staging \<times> nat result" where
  "staging_write_at io i offset data initial_data s =
     and_then (ensure_file io i initial_data s) (\<lambda>s c.
       if \<not> io_ok io (Io_Open i) then (s, Inl E_Staging)
       else if \<not> io_ok io (Io_Seek i) then (s, Inl E_Staging)
       else if \<not> io_ok io (Io_Write i)
         then (s\<lparr>sg_files := hm_put i (overlay c offset (take (io_part io i) data)) (sg_files s)\<rparr>, Inl E_Staging)
       else
         let c' = overlay c offset data; s = s\<lparr>sg_files := hm_put i c' (sg_files s)\<rparr> in
         if \<not> io_ok io (Io_Flush i) then (s, Inl E_Staging)
         else if \<not> io_ok io (Io_Stat i) then (s, Inl E_Staging)
         else (s\<lparr>sg_staged := hm_put i (length c') (sg_staged s)\<rparr>, Inr (length c')))"

definition staging_truncate :: "io \<Rightarrow> nat \<Rightarrow> nat \<Rightarrow> bytes option \<Rightarrow> staging \<Rightarrow> staging \<times> unit result" where
  "staging_truncate io i new_size initial_data s =
     and_then (ensure_file io i initial_data s) (\<lambda>s c.
       if \<not> io_ok io (Io_Open i) then (s, Inl E_Staging)
       else if \<not> io_ok io (Io_Set_Len i) then (s, Inl E_Staging)
       else (s\<lparr>sg_files := hm_put i (resize c new_size) (sg_files s),
               sg_staged := hm_put i new_size (sg_staged s)\<rparr>, Inr ()))"

text \<open>The bytes a read returns, and whether it reaches the end: the same for cached blobs.\<close>

definition read_range :: "bytes \<Rightarrow> nat \<Rightarrow> nat \<Rightarrow> bytes \<times> bool" where
  "read_range c offset count =
     (if offset \<ge> length c then ([], True)
      else let to_read = min count (length c - offset)
           in (slice offset (offset + to_read) c, offset + to_read \<ge> length c))"

definition staging_read_at :: "io \<Rightarrow> nat \<Rightarrow> nat \<Rightarrow> nat \<Rightarrow> staging \<Rightarrow> (bytes \<times> bool) option result" where
  "staging_read_at io i offset count s =
     (if \<not> is_staged s i then Inr None
      else case hm_get (sg_files s) i of
          None \<Rightarrow> Inr None
        | Some c \<Rightarrow>
            (if \<not> io_ok io (Io_Open i) then Inr None
             else if \<not> io_ok io (Io_Stat i) then Inl E_Staging
             else if offset < length c \<and> (\<not> io_ok io (Io_Seek i) \<or> \<not> io_ok io (Io_Read i)) then Inl E_Staging
             else Inr (Some (read_range c offset count))))"

definition get_staged_content :: "io \<Rightarrow> nat \<Rightarrow> staging \<Rightarrow> bytes option result" where
  "get_staged_content io i s =
     (if \<not> is_staged s i then Inr None
      else case hm_get (sg_files s) i of
          None \<Rightarrow> Inl E_Staging
        | Some c \<Rightarrow> if io_ok io (Io_Read i) then Inr (Some c) else Inl E_Staging)"

definition list_staged_nodes :: "staging \<Rightarrow> nat list" where
  "list_staged_nodes s = hm_keys (sg_staged s)"

definition record_changed_path :: "string \<Rightarrow> staging \<Rightarrow> staging" where
  "record_changed_path path s =
     (let clean = clean_path path
      in if clean = [] then s else s\<lparr>sg_changed := List.insert clean (sg_changed s)\<rparr>)"

definition list_changed_paths :: "staging \<Rightarrow> string list" where
  "list_changed_paths s = sg_changed s"

definition has_modifications :: "staging \<Rightarrow> bool" where
  "has_modifications s \<longleftrightarrow> sg_staged s \<noteq> [] \<or> sg_deleted s \<noteq> [] \<or> sg_changed s \<noteq> []"

definition staging_reset :: "io \<Rightarrow> staging \<Rightarrow> staging \<times> unit result" where
  "staging_reset io s =
     (\<lparr>sg_files = remaining_files io (sg_files s), sg_staged = [], sg_deleted = [], sg_changed = []\<rparr>,
      if io_ok io Io_Create_Dir then Inr () else Inl E_Staging)"

section \<open>Content\<close>

lemma length_overlay: "length (overlay c off d) = (if d = [] then length c else max (length c) (off + length d))"
  by (auto simp: overlay_def)

lemma nth_overlay:
  "i < length (overlay c off d) \<Longrightarrow> overlay c off d ! i =
     (if off \<le> i \<and> i < off + length d then d ! (i - off) else if i < length c then c ! i else 0)"
  by (auto simp: overlay_def nth_append min_def split: if_splits)

lemma overlay_append: "overlay (overlay c off a) (off + length a) b = overlay c off (a @ b)"
proof (rule nth_equalityI)
  show l: "length (overlay (overlay c off a) (off + length a) b) = length (overlay c off (a @ b))"
    by (auto simp: length_overlay)
  fix i
  assume i: "i < length (overlay (overlay c off a) (off + length a) b)"
  show "overlay (overlay c off a) (off + length a) b ! i = overlay c off (a @ b) ! i"
    using i l by (auto simp: nth_overlay length_overlay nth_append split: if_splits)
qed

lemma read_range_overlay:
  assumes "d \<noteq> []"
  shows "read_range (overlay c off d) off (length d) = (d, off + length d \<ge> length c)"
proof -
  define pre where "pre = take off (c @ replicate (off - length c) 0)"
  have o: "overlay c off d = pre @ d @ drop (off + length d) c" "length pre = off"
    using assms by (simp_all add: overlay_def pre_def)
  have len: "length (overlay c off d) = max (length c) (off + length d)" "0 < length d"
    using assms by (simp_all add: length_overlay)
  then have "slice off (off + length d) (overlay c off d) = d"
    using slice_mid [of pre d] o by simp
  then show ?thesis using len by (auto simp: read_range_def Let_def min_def)
qed

text \<open>Consecutive chunks, written one after the other.\<close>

primrec put_chunks ::
  "(nat \<Rightarrow> nat \<Rightarrow> bytes \<Rightarrow> 's \<Rightarrow> 's \<times> nat result) \<Rightarrow> nat \<Rightarrow> nat \<Rightarrow> bytes list \<Rightarrow> 's \<Rightarrow> 's \<times> unit result" where
  "put_chunks put i off [] s = (s, Inr ())"
| "put_chunks put i off (d # ds) s =
     and_then (put i off d s) (\<lambda>s _. put_chunks put i (off + length d) ds s)"

text \<open>
  A store of byte files with positional writes, as the clients of the staging area use it: what
  a successful write leaves, and that it touches one file only. Its clients' lemma: writing
  consecutive chunks is writing their concatenation. A file that is not visible may be started anew.
\<close>

locale byte_store =
  fixes content :: "'s \<Rightarrow> nat \<Rightarrow> bytes option"
    and visible :: "nat \<Rightarrow> bool"
    and put :: "nat \<Rightarrow> nat \<Rightarrow> bytes \<Rightarrow> 's \<Rightarrow> 's \<times> nat result"
  assumes put_ok: "visible i \<Longrightarrow> content s i = Some c \<Longrightarrow> put i off d s = (s', Inr n) \<Longrightarrow>
      content s' i = Some (overlay c off d) \<and> n = length (overlay c off d)"
    and put_frame: "put i off d s = (s', r) \<Longrightarrow> j \<noteq> i \<Longrightarrow> content s' j = content s j"
begin

lemma chunks_content:
  "visible i \<Longrightarrow> content s i = Some c \<Longrightarrow> put_chunks put i off ds s = (s', Inr ()) \<Longrightarrow>
   content s' i = Some (overlay c off (concat ds)) \<and> (\<forall>j. j \<noteq> i \<longrightarrow> content s' j = content s j)"
proof (induction ds arbitrary: off s c)
  case Nil
  then show ?case by (simp add: overlay_def)
next
  case (Cons d ds)
  obtain s1 r where w: "put i off d s = (s1, r)" by (cases "put i off d s")
  then obtain n where r: "r = Inr n" using Cons.prems(3) by (cases r) auto
  have "content s1 i = Some (overlay c off d)" using put_ok [OF Cons.prems(1,2)] w r by simp
  then have "content s' i = Some (overlay (overlay c off d) (off + length d) (concat ds)) \<and>
      (\<forall>j. j \<noteq> i \<longrightarrow> content s' j = content s1 j)"
    using Cons.prems(1,3) w r by (intro Cons.IH) simp_all
  then show ?case using put_frame [OF w] by (simp add: overlay_append)
qed

end

lemma existing_seen [simp]: "io_ok io (Io_Exists i) \<Longrightarrow> existing_file io i s = hm_get (sg_files s) i"
  by (simp add: existing_file_def)

lemma existing_none [simp]: "hm_get (sg_files s) i = None \<Longrightarrow> existing_file io i s = None"
  by (simp add: existing_file_def)

lemma existing_file_Some: "existing_file io i s = Some c \<Longrightarrow> hm_get (sg_files s) i = Some c"
  by (simp add: existing_file_def split: if_splits)

lemma ensure_file_some [simp]: "existing_file io i s = Some c \<Longrightarrow> ensure_file io i d s = (s, Inr c)"
  by (simp add: ensure_file_def)

lemma ensure_file_frame: "ensure_file io i d s = (s', r) \<Longrightarrow> j \<noteq> i \<Longrightarrow> hm_get (sg_files s') j = hm_get (sg_files s) j"
  by (auto simp: ensure_file_def Let_def split: option.splits if_splits)

lemma write_frame_other:
  assumes "staging_write_at io i off d base s = (s', r)" "j \<noteq> i"
  shows "hm_get (sg_files s') j = hm_get (sg_files s) j"
proof (cases "ensure_file io i base s")
  case (Pair s1 r1)
  then show ?thesis using assms ensure_file_frame [OF Pair assms(2)]
    by (cases r1) (auto simp: staging_write_at_def Let_def split: if_splits)
qed

interpretation staged: byte_store "\<lambda>s i. hm_get (sg_files s) i" "\<lambda>i. io_ok io (Io_Exists i)" "\<lambda>i off d s. staging_write_at io i off d None s" for io
proof unfold_locales
  show "io_ok io (Io_Exists i) \<Longrightarrow> hm_get (sg_files s) i = Some c \<Longrightarrow> staging_write_at io i off d None s = (s', Inr n) \<Longrightarrow>
      hm_get (sg_files s') i = Some (overlay c off d) \<and> n = length (overlay c off d)" for s i c off d s' n
    by (auto simp: staging_write_at_def Let_def split: if_splits)
  show "staging_write_at io i off d None s = (s', r) \<Longrightarrow> j \<noteq> i \<Longrightarrow>
      hm_get (sg_files s') j = hm_get (sg_files s) j" for i off d s s' r j
    by (rule write_frame_other)
qed


lemma staging_write_read:
  assumes "staging_write_at io i off d base s = (s', Inr n)" "d \<noteq> []"
    "io_ok io' (Io_Open i)" "io_ok io' (Io_Stat i)" "io_ok io' (Io_Seek i)" "io_ok io' (Io_Read i)"
  shows "staging_read_at io' i off (length d) s' = Inr (Some (d, off + length d \<ge> n)) \<and>
    get_size s' i = Some n \<and>
    (\<forall>j off' cnt. j \<noteq> i \<longrightarrow> staging_read_at io' j off' cnt s' = staging_read_at io' j off' cnt s)"
proof -
  obtain s1 r where e: "ensure_file io i base s = (s1, r)" by (cases "ensure_file io i base s")
  then obtain c where r: "r = Inr c" using assms(1) by (cases r) (auto simp: staging_write_at_def)
  have n: "n = length (overlay c off d)"
    and s': "s' = s1\<lparr>sg_files := hm_put i (overlay c off d) (sg_files s1), sg_staged := hm_put i n (sg_staged s1)\<rparr>"
    using assms(1) e r by (auto simp: staging_write_at_def Let_def split: if_splits)
  have lt: "off < n" and eof: "(off + length d \<ge> length c) = (off + length d \<ge> n)"
    using assms(2) length_greater_0_conv [of d] by (auto simp: n length_overlay max_def simp del: length_greater_0_conv)
  have st: "sg_staged s1 = sg_staged s"
    using e by (auto simp: ensure_file_def Let_def split: option.splits if_splits)
  have "staging_read_at io' i off (length d) s' = Inr (Some (d, off + length d \<ge> n))"
    using assms(3-6) read_range_overlay [OF assms(2), of c off] eof
    by (simp add: staging_read_at_def s' is_staged_def)
  moreover have "staging_read_at io' j off' cnt s' = staging_read_at io' j off' cnt s" if "j \<noteq> i" for j off' cnt
    using that ensure_file_frame [OF e that] st by (simp add: staging_read_at_def s' is_staged_def)
  ultimately show ?thesis by (simp add: get_size_def s')
qed

section \<open>Correctness\<close>

text \<open>What a write starts from: the file that is seen, else the base content, else nothing.\<close>

definition old_content :: "io \<Rightarrow> nat \<Rightarrow> bytes option \<Rightarrow> staging \<Rightarrow> bytes" where
  "old_content io i base s =
     (case existing_file io i s of Some c \<Rightarrow> c | None \<Rightarrow> (case base of Some b \<Rightarrow> b | None \<Rightarrow> []))"

lemma ensure_file_Inr:
  "ensure_file io i base s = (s', Inr c) \<Longrightarrow> c = old_content io i base s \<and> hm_get (sg_files s') i = Some c \<and>
     sg_staged s' = sg_staged s"
  by (auto simp: ensure_file_def old_content_def Let_def split: option.splits if_splits dest: existing_file_Some)

lemma write_leaves:
  assumes "staging_write_at io i off d base s = (s', Inr n)"
  shows "hm_get (sg_files s') i = Some (overlay (old_content io i base s) off d)"
    "n = length (overlay (old_content io i base s) off d)" "sg_staged s' = hm_put i n (sg_staged s)"
proof -
  obtain s1 r where e: "ensure_file io i base s = (s1, r)" by fastforce
  then obtain c where r: "r = Inr c" using assms by (cases r) (auto simp: staging_write_at_def)
  note c = ensure_file_Inr [OF e [unfolded r]]
  show "hm_get (sg_files s') i = Some (overlay (old_content io i base s) off d)"
    "n = length (overlay (old_content io i base s) off d)" "sg_staged s' = hm_put i n (sg_staged s)"
    using assms c e r by (auto simp: staging_write_at_def Let_def split: if_splits)
qed

lemma read_range_eq: "read_range c off cnt = (take cnt (drop off c), length c \<le> off + cnt)"
  by (cases "length c \<le> off + cnt") (auto simp: read_range_def slice_def Let_def)

lemma read_file:
  assumes "is_staged s i" "hm_get (sg_files s) i = Some c"
    "io_ok io (Io_Open i)" "io_ok io (Io_Stat i)" "io_ok io (Io_Seek i)" "io_ok io (Io_Read i)"
  shows "staging_read_at io i off cnt s = Inr (Some (take cnt (drop off c), length c \<le> off + cnt))"
  using assms by (simp add: staging_read_at_def read_range_eq)

text \<open>
  C32: a successful write changes exactly the bytes it names: the file then holds the data at its offset,
  every other byte that was there before (in the file, or, where none is seen, in the base content a first write
  starts from), and zeros in a gap; its length is the larger of the old length and the end of the data (the old length
  when there is no data), which is the size returned and recorded. Every later range read returns that part
  of the file, with the end-of-file flag exactly when it reaches the end. No other node is affected.
\<close>

theorem write_then_read:
  assumes "staging_write_at io i off d base s = (s', Inr n)"
    "io_ok io' (Io_Open i)" "io_ok io' (Io_Stat i)" "io_ok io' (Io_Seek i)" "io_ok io' (Io_Read i)"
  shows "\<exists>c. hm_get (sg_files s') i = Some c \<and> length c = n \<and> get_size s' i = Some n \<and>
    n = (if d = [] then length (old_content io i base s) else max (length (old_content io i base s)) (off + length d)) \<and>
    (\<forall>k < n. c ! k = (if off \<le> k \<and> k < off + length d then d ! (k - off)
      else if k < length (old_content io i base s) then old_content io i base s ! k else 0)) \<and>
    (\<forall>off' cnt. staging_read_at io' i off' cnt s' = Inr (Some (take cnt (drop off' c), n \<le> off' + cnt))) \<and>
    (\<forall>j. j \<noteq> i \<longrightarrow> hm_get (sg_files s') j = hm_get (sg_files s) j \<and> get_size s' j = get_size s j)"
proof -
  note w = write_leaves [OF assms(1)]
  have "is_staged s' i" by (simp add: is_staged_def w(3))
  from read_file [OF this w(1) assms(2-5)] show ?thesis
    using w write_frame_other [OF assms(1)] by (simp add: length_overlay nth_overlay get_size_def)
qed

definition demo_staging :: staging where
  "demo_staging = \<lparr>sg_files = [], sg_staged = [], sg_deleted = [], sg_changed = []\<rparr>"

abbreviation all_ok :: io where
  "all_ok \<equiv> \<lparr>io_ok = \<lambda>_. True, io_part = \<lambda>_. 0, io_left = [], io_kept = \<lambda>_. False\<rparr>"

theorem write_then_read_witness:
  "\<exists>s'. staging_write_at all_ok 5 2 [8, 9] (Some [1]) demo_staging = (s', Inr 4) \<and>
     hm_get (sg_files s') 5 = Some [1, 0, 8, 9] \<and> staging_read_at all_ok 5 1 2 s' = Inr (Some ([0, 8], False))"
proof -
  obtain s' where w: "staging_write_at all_ok 5 2 [8, 9] (Some [1]) demo_staging = (s', Inr 4)"
    by (simp add: staging_write_at_def ensure_file_def demo_staging_def overlay_def Let_def)
  have o: "old_content all_ok 5 (Some [1]) demo_staging = [1]" by (simp add: old_content_def demo_staging_def)
  obtain c where c: "hm_get (sg_files s') 5 = Some c" "length c = 4"
    "\<forall>k < 4. c ! k = (if 2 \<le> k \<and> k < 2 + length [8, 9 :: u8] then [8, 9] ! (k - 2) else if k < length [1 :: u8] then [1] ! k else 0)"
    "staging_read_at all_ok 5 1 2 s' = Inr (Some (take 2 (drop 1 c), 4 \<le> 1 + (2 :: nat)))"
    using write_then_read [OF w, of all_ok] unfolding o by auto
  have "c = [1, 0, 8, 9]"
    using c(2,3) by (intro nth_equalityI) (auto simp: less_Suc_eq numeral_eq_Suc nth_Cons')
  then show ?thesis using w c(1,4) by simp
qed

text \<open>
  C36: a file written in consecutive pieces holds their concatenation over the old content, with
  zeros in a gap, whatever the sizes of the pieces, when the file is seen to be there; no other file changes.
\<close>

theorem chunked_writes:
  assumes "io_ok io (Io_Exists i)" "hm_get (sg_files s) i = Some c"
    "put_chunks (\<lambda>i off d s. staging_write_at io i off d None s) i off ds s = (s', Inr ())"
  shows "hm_get (sg_files s') i = Some (overlay c off (concat ds)) \<and>
    (\<forall>k < length (overlay c off (concat ds)). overlay c off (concat ds) ! k =
       (if off \<le> k \<and> k < off + length (concat ds) then concat ds ! (k - off)
        else if k < length c then c ! k else 0)) \<and>
    (\<forall>j. j \<noteq> i \<longrightarrow> hm_get (sg_files s') j = hm_get (sg_files s) j)"
  using staged.chunks_content [OF assms] by (simp add: nth_overlay)

theorem chunked_writes_witness:
  "\<exists>s'. put_chunks (\<lambda>i off d s. staging_write_at all_ok i off d None s) 5 1 [[8], [9, 10]]
        (demo_staging\<lparr>sg_files := [(5, [1, 2])]\<rparr>) = (s', Inr ()) \<and>
     hm_get (sg_files s') 5 = Some (overlay [1, 2] 1 [8, 9, 10])"
proof -
  let ?s = "demo_staging\<lparr>sg_files := [(5, [1, 2])]\<rparr>"
  obtain s' where w: "put_chunks (\<lambda>i off d s. staging_write_at all_ok i off d None s) 5 1 [[8], [9, 10]] ?s = (s', Inr ())"
    by (simp add: staging_write_at_def demo_staging_def Let_def)
  have "hm_get (sg_files ?s) 5 = Some [1, 2]" by simp
  from chunked_writes [OF _ this w] w show ?thesis by simp
qed

text \<open>
  A first write that fails while the base content is copied leaves a part of it behind, and the
  retry takes that part for the content: the write succeeds and the rest of the file is lost,
  without an error.
\<close>

theorem retry_after_failed_base_copy:
  assumes "hm_get (sg_files s) i = None" "io_ok io (Io_Create i)" "\<not> io_ok io (Io_Write_Base i)"
    "\<And>c. io_ok io' c"
  shows "\<exists>s1 s2. staging_write_at io i off d (Some base) s = (s1, Inl E_Staging) \<and>
    staging_write_at io' i off d (Some base) s1 = (s2, Inr (length (overlay (take (io_part io i) base) off d))) \<and>
    get_staged_content io' i s2 = Inr (Some (overlay (take (io_part io i) base) off d))"
  using assms
  by (simp add: staging_write_at_def ensure_file_def get_staged_content_def is_staged_def Let_def)

definition no_base_copy :: io where
  "no_base_copy = all_ok\<lparr>io_ok := \<lambda>c. c \<noteq> Io_Write_Base 5, io_part := \<lambda>_. 1\<rparr>"

theorem retry_after_failed_base_copy_witness:
  "\<exists>s1 s2. staging_write_at no_base_copy 5 0 [9] (Some [1, 2, 3]) demo_staging = (s1, Inl E_Staging) \<and>
     staging_write_at all_ok 5 0 [9] (Some [1, 2, 3]) s1 = (s2, Inr 1) \<and>
     get_staged_content all_ok 5 s2 = Inr (Some [9])"
  using retry_after_failed_base_copy [of demo_staging 5 no_base_copy all_ok 0 "[9]" "[1, 2, 3]"]
  by (simp add: demo_staging_def no_base_copy_def overlay_def)

text \<open>
  A write that fails half way leaves what it wrote: the file is longer than its recorded size, and a
  read returns the bytes of a write that was answered with an error.
\<close>

lemma failed_write_is_read:
  assumes "hm_get (sg_files s) i = Some c" "hm_get (sg_staged s) i = Some (length c)"
    "io_ok io (Io_Exists i)" "io_ok io (Io_Open i)" "io_ok io (Io_Seek i)" "\<not> io_ok io (Io_Write i)" "0 < io_part io i" "io_part io i \<le> length d"
    "\<And>c. io_ok io' c"
  shows "\<exists>s'. staging_write_at io i (length c) d None s = (s', Inl E_Staging) \<and> get_size s' i = Some (length c) \<and>
    staging_read_at io' i (length c) (length d) s' = Inr (Some (take (io_part io i) d, True))"
  using assms by (auto simp: staging_write_at_def staging_read_at_def read_range_eq is_staged_def get_size_def overlay_def)

text \<open>A staged file that cannot be examined is created again by a write, which loses what it held.\<close>

lemma unseen_file_emptied:
  assumes "\<not> io_ok io (Io_Exists i)" "\<And>c. c \<noteq> Io_Exists i \<Longrightarrow> io_ok io c"
  shows "\<exists>s'. staging_write_at io i off d None s = (s', Inr (length (overlay [] off d))) \<and>
    hm_get (sg_files s') i = Some (overlay [] off d)"
  using assms by (simp add: staging_write_at_def ensure_file_def existing_file_def Let_def)

section \<open>Recorded sizes\<close>

text \<open>
  The states the operations reach, whatever calls fail on the way, with the nodes whose file may have
  another length than the one on record since a write or truncation that failed.
\<close>

inductive staging_reachable :: "nat set \<Rightarrow> staging \<Rightarrow> bool" where
  start: "staging_new io = Inr s \<Longrightarrow> staging_reachable {} s"
| create: "staging_reachable F s \<Longrightarrow> staging_create_file io i s = (s', r) \<Longrightarrow>
    staging_reachable (if r = Inr () then F - {i} else F) s'"
| put_ok: "staging_reachable F s \<Longrightarrow> staging_write_at io i off d base s = (s', Inr n) \<Longrightarrow> staging_reachable (F - {i}) s'"
| put_failed: "staging_reachable F s \<Longrightarrow> staging_write_at io i off d base s = (s', Inl e) \<Longrightarrow>
    staging_reachable (insert i F) s'"
| truncate_ok: "staging_reachable F s \<Longrightarrow> staging_truncate io i n base s = (s', Inr ()) \<Longrightarrow> staging_reachable (F - {i}) s'"
| truncate_failed: "staging_reachable F s \<Longrightarrow> staging_truncate io i n base s = (s', Inl e) \<Longrightarrow>
    staging_reachable (insert i F) s'"
| delete: "staging_reachable F s \<Longrightarrow> staging_reachable F (mark_deleted i s)"
| record_path: "staging_reachable F s \<Longrightarrow> staging_reachable F (record_changed_path p s)"
| reset: "staging_reachable F s \<Longrightarrow> staging_reachable {} (fst (staging_reset io s))"

definition sizes_ok :: "nat set \<Rightarrow> staging \<Rightarrow> bool" where
  "sizes_ok F s \<longleftrightarrow> (\<forall>i n. hm_get (sg_staged s) i = Some n \<longrightarrow>
     (\<exists>c. hm_get (sg_files s) i = Some c \<and> (i \<notin> F \<longrightarrow> n = length c)))"

lemma sizes_okI:
  assumes "sizes_ok F s" "\<And>j. j \<noteq> i \<Longrightarrow> hm_get (sg_files s') j = hm_get (sg_files s) j \<and> hm_get (sg_staged s') j = hm_get (sg_staged s) j"
    "\<And>j. j \<noteq> i \<Longrightarrow> j \<in> F' \<longleftrightarrow> j \<in> F"
    "\<And>n. hm_get (sg_staged s') i = Some n \<Longrightarrow>
      \<exists>c. hm_get (sg_files s') i = Some c \<and> (i \<notin> F' \<longrightarrow> n = length c)"
  shows "sizes_ok F' s'"
  unfolding sizes_ok_def
proof (intro allI impI)
  fix j n
  assume "hm_get (sg_staged s') j = Some n"
  then show "\<exists>c. hm_get (sg_files s') j = Some c \<and> (j \<notin> F' \<longrightarrow> n = length c)"
    using assms by (cases "j = i") (auto simp: sizes_ok_def)
qed

lemma ensure_file_staged: "sg_staged (fst (ensure_file io i base s)) = sg_staged s"
  by (simp add: ensure_file_def Let_def split: option.split)

text \<open>What fails at a node leaves it a file, if it had one, and leaves the other nodes alone.\<close>

lemma failed_sizes:
  assumes "sizes_ok F s" "sg_staged s' = sg_staged s" "\<And>j. j \<noteq> i \<Longrightarrow> hm_get (sg_files s') j = hm_get (sg_files s) j"
    "hm_get (sg_files s) i \<noteq> None \<Longrightarrow> hm_get (sg_files s') i \<noteq> None"
  shows "sizes_ok (insert i F) s'"
proof (rule sizes_okI [OF assms(1), of i])
  fix n
  assume "hm_get (sg_staged s') i = Some n"
  then have "hm_get (sg_files s) i \<noteq> None" using assms(1,2) by (fastforce simp: sizes_ok_def)
  then show "\<exists>c. hm_get (sg_files s') i = Some c \<and> (i \<notin> insert i F \<longrightarrow> n = length c)" using assms(4) by auto
qed (use assms(2,3) in auto)

lemma ensure_file_keeps: "hm_get (sg_files s) i \<noteq> None \<Longrightarrow> hm_get (sg_files (fst (ensure_file io i base s))) i \<noteq> None"
  by (auto simp: ensure_file_def Let_def split: option.split)

lemma failed_write_sizes:
  assumes "sizes_ok F s" "staging_write_at io i off d base s = (s', Inl e)"
  shows "sizes_ok (insert i F) s'"
proof -
  obtain s1 r where e: "ensure_file io i base s = (s1, r)" by fastforce
  have "sg_staged s' = sg_staged s1 \<and> (hm_get (sg_files s1) i \<noteq> None \<longrightarrow> hm_get (sg_files s') i \<noteq> None)"
    using assms(2) e by (cases r) (auto simp: staging_write_at_def Let_def split: if_splits)
  then show ?thesis
    using ensure_file_staged [of io i base s] ensure_file_keeps [of s i io base] write_frame_other [OF assms(2)] e
    by (intro failed_sizes [OF assms(1)]) auto
qed

lemma failed_truncate_sizes:
  assumes "sizes_ok F s" "staging_truncate io i n base s = (s', Inl e)"
  shows "sizes_ok (insert i F) s'"
proof -
  obtain s1 r where e: "ensure_file io i base s = (s1, r)" by fastforce
  have "s' = s1" using assms(2) e by (cases r) (auto simp: staging_truncate_def split: if_splits)
  then show ?thesis
    using ensure_file_staged [of io i base s] ensure_file_keeps [of s i io base] ensure_file_frame [OF e] e
    by (intro failed_sizes [OF assms(1)]) auto
qed

lemma write_sizes:
  assumes "sizes_ok F s" "staging_write_at io i off d base s = (s', Inr n)"
  shows "sizes_ok (F - {i}) s'"
  using write_leaves [OF assms(2)] write_frame_other [OF assms(2)] by (intro sizes_okI [OF assms(1), of i]) auto

lemma truncate_sizes:
  assumes "sizes_ok F s" "staging_truncate io i n base s = (s', Inr ())"
  shows "sizes_ok (F - {i}) s'"
proof -
  obtain s1 r1 where e: "ensure_file io i base s = (s1, r1)" by fastforce
  obtain c where "s' = s1\<lparr>sg_files := hm_put i (resize c n) (sg_files s1), sg_staged := hm_put i n (sg_staged s1)\<rparr>"
    using assms(2) e by (cases r1) (auto simp: staging_truncate_def split: if_splits)
  then show ?thesis
    using ensure_file_frame [OF e] ensure_file_staged [of io i base s] e
    by (intro sizes_okI [OF assms(1), of i]) (auto simp: resize_def)
qed

lemma create_sizes:
  assumes "sizes_ok F s" "staging_create_file io i s = (s', r)"
  shows "sizes_ok (if r = Inr () then F - {i} else F) s'"
proof (cases "io_ok io (Io_Create i)")
  case True
  then show ?thesis using assms(2) by (auto simp: staging_create_file_def intro!: sizes_okI [OF assms(1), of i])
qed (use assms in \<open>auto simp: staging_create_file_def\<close>)

lemma other_sizes:
  "sizes_ok F s \<Longrightarrow> sizes_ok F (mark_deleted i s)" "sizes_ok F s \<Longrightarrow> sizes_ok F (record_changed_path p s)"
  "sizes_ok {} (fst (staging_reset io s))" "staging_new io = Inr s \<Longrightarrow> sizes_ok {} s"
  by (auto simp: sizes_ok_def mark_deleted_def record_changed_path_def Let_def staging_reset_def staging_new_def split: if_splits)

text \<open>
  C35: in every state the operations reach, whatever calls fail on the way, a staged node has a file, and
  this is exactly as long as the size on record unless a write or a truncation of this node failed since
  its last successful write, truncation or creation. A failure at one node concerns no other.
\<close>

theorem staged_size_is_content:
  assumes "staging_reachable F s" "get_size s i = Some n"
  shows "\<exists>c. hm_get (sg_files s) i = Some c \<and> (i \<notin> F \<longrightarrow> n = length c)"
proof -
  have "sizes_ok F s"
    using assms(1) by induction
      (blast intro: write_sizes failed_write_sizes truncate_sizes failed_truncate_sizes create_sizes other_sizes)+
  then show ?thesis using assms(2) by (simp add: sizes_ok_def get_size_def)
qed

definition half_write :: io where
  "half_write = all_ok\<lparr>io_ok := \<lambda>c. c \<noteq> Io_Write 6, io_part := \<lambda>_. 1\<rparr>"

theorem staged_size_is_content_witness:
  "\<exists>s c. staging_write_at half_write 6 0 [7, 7] None (fst (staging_write_at all_ok 5 2 [8, 9] (Some [1]) demo_staging)) = (s, Inl E_Staging) \<and>
     get_size s 5 = Some 4 \<and> hm_get (sg_files s) 5 = Some c \<and> length c = 4 \<and> hm_get (sg_files s) 6 = Some [7]"
proof -
  have 0: "staging_reachable {} demo_staging" by (rule staging_reachable.start [of all_ok]) (simp add: staging_new_def remaining_files_def demo_staging_def)
  obtain s1 where w: "staging_write_at all_ok 5 2 [8, 9] (Some [1]) demo_staging = (s1, Inr 4)" "get_size s1 5 = Some 4" "hm_get (sg_files s1) 6 = None"
    by (simp add: staging_write_at_def ensure_file_def demo_staging_def overlay_def get_size_def Let_def)
  obtain s where f: "staging_write_at half_write 6 0 [7, 7] None s1 = (s, Inl E_Staging)" "hm_get (sg_files s) 6 = Some [7]" "get_size s 5 = Some 4"
    using w(2,3) by (simp add: staging_write_at_def ensure_file_def half_write_def overlay_def get_size_def Let_def)
  have "staging_reachable (insert 6 ({} - {5})) s"
    using staging_reachable.put_failed [OF staging_reachable.put_ok [OF 0 w(1)] f(1)] .
  from staged_size_is_content [OF this f(3)] show ?thesis using w(1) f by auto
qed

end
