(* ===== verification/Wal_Proto.thy ===== *)
theory Wal_Proto
  imports Frames Rust_Text
begin

text \<open>
  The log entries of \<^verbatim>\<open>src/src/wal/proto.rs\<close> and their framing. The protobuf encoding of
  one entry is the crate \<open>prost\<close>, a parameter: the record \<open>codec\<close>, whose documented
  behaviour \<open>codec_laws\<close> is that decoding an encoded message gives it back.
\<close>

section \<open>Entries\<close>

datatype inode_type = Regular_Inode | Directory_Inode | Symlink_Inode | Executable_Inode

fun inode_type_num :: "inode_type \<Rightarrow> int" where
  "inode_type_num Regular_Inode = 0"
| "inode_type_num Directory_Inode = 1"
| "inode_type_num Symlink_Inode = 2"
| "inode_type_num Executable_Inode = 3"

text \<open>The generated accessor: an unknown number is the first variant.\<close>

definition inode_type_of :: "int \<Rightarrow> inode_type" where
  "inode_type_of n =
     (if n = 1 then Directory_Inode else if n = 2 then Symlink_Inode
      else if n = 3 then Executable_Inode else Regular_Inode)"

text \<open>The derived order is the order of the numbers.\<close>

instantiation inode_type :: linorder
begin

definition less_eq_inode_type :: "inode_type \<Rightarrow> inode_type \<Rightarrow> bool" where
  "less_eq_inode_type a b \<longleftrightarrow> inode_type_num a \<le> inode_type_num b"

definition less_inode_type :: "inode_type \<Rightarrow> inode_type \<Rightarrow> bool" where
  "less_inode_type a b \<longleftrightarrow> inode_type_num a < inode_type_num b"

instance
proof
  fix a b c :: inode_type
  have inj: "inode_type_num a = inode_type_num b \<Longrightarrow> a = b" for a b :: inode_type
    by (cases a; cases b) auto
  show "a < b \<longleftrightarrow> a \<le> b \<and> \<not> b \<le> a" "a \<le> a" "a \<le> b \<Longrightarrow> b \<le> c \<Longrightarrow> a \<le> c" "a \<le> b \<or> b \<le> a"
    by (auto simp: less_eq_inode_type_def less_inode_type_def)
  show "a \<le> b \<Longrightarrow> b \<le> a \<Longrightarrow> a = b" using inj by (simp add: less_eq_inode_type_def)
qed

end

lemma inode_type_of_num [simp]: "inode_type_of (inode_type_num t) = t"
  by (cases t) (simp_all add: inode_type_of_def)

record wal_header =
  wh_repo_url :: string
  wh_base_commit_oid :: string
  wh_author :: string
  wh_commit_message :: string
  wh_started_at :: nat
  wh_wal_seq :: nat

datatype wal_payload =
  Wal_Header wal_header
| Wal_Create_File string int nat
| Wal_Mkdir string
| Wal_Write string nat bytes
| Wal_Truncate string nat
| Wal_Remove string
| Wal_Rename string string

record wal_entry =
  we_seq :: nat
  we_timestamp :: nat
  we_payload :: "wal_payload option"

record codec =
  pc_encode :: "wal_entry \<Rightarrow> bytes"
  pc_decode :: "bytes \<Rightarrow> wal_entry option"

definition codec_laws :: "codec \<Rightarrow> bool" where
  "codec_laws C \<longleftrightarrow> (\<forall>e. pc_decode C (pc_encode C e) = Some e)"

section \<open>Framing\<close>

definition encode_framed :: "codec \<Rightarrow> wal_entry \<Rightarrow> bytes" where
  "encode_framed C e = to_be 4 (length (pc_encode C e)) @ pc_encode C e"

function decode_loop :: "codec \<Rightarrow> bytes \<Rightarrow> wal_entry list \<Rightarrow> nat \<Rightarrow> wal_entry list \<times> nat" where
  "decode_loop C data entries consumed =
     (if length data \<ge> 4 then
        let msg_len = from_be (slice 0 4 data) in
        if length data < 4 + msg_len then (entries, consumed)
        else (case pc_decode C (slice 4 (4 + msg_len) data) of
                Some entry \<Rightarrow>
                  decode_loop C (drop (4 + msg_len) data) (entries @ [entry]) (consumed + (4 + msg_len))
              | None \<Rightarrow> (entries, consumed))
      else (entries, consumed))"
  by pat_completeness auto
termination
  by (relation "measure (\<lambda>(C, data, entries, consumed). length data)") auto

declare decode_loop.simps [simp del]

definition decode_all_framed :: "codec \<Rightarrow> bytes \<Rightarrow> wal_entry list \<times> nat" where
  "decode_all_framed C data = decode_loop C data [] 0"

definition small_entry :: "codec \<Rightarrow> wal_entry \<Rightarrow> bool" where
  "small_entry C e \<longleftrightarrow> length (pc_encode C e) < 2 ^ 32"

lemma frame_header:
  assumes "length m < 2 ^ 32"
  shows "from_be (slice 0 4 (to_be 4 (length m) @ m @ rest)) = length m"
proof -
  have "slice 0 4 (to_be 4 (length m) @ m @ rest) = to_be 4 (length m)"
    using slice_prefix [of "to_be 4 (length m)"] by simp
  moreover have "length m mod 256 ^ 4 = length m" using assms by simp
  ultimately show ?thesis by (simp only: from_to_be)
qed

lemma decode_round:
  assumes "codec_laws C" "small_entry C e"
  shows "decode_loop C (encode_framed C e @ rest) es n =
    decode_loop C rest (es @ [e]) (n + length (encode_framed C e))"
proof -
  define m where "m = pc_encode C e"
  define data where "data = to_be 4 (length m) @ m @ rest"
  have h: "from_be (slice 0 4 data) = length m"
    using frame_header [of m rest] assms(2) by (simp add: data_def small_entry_def m_def)
  have s: "slice 4 (4 + length m) data = m" using slice_mid [of "to_be 4 (length m)" m rest] by (simp add: data_def)
  have d: "drop (4 + length m) data = rest" by (simp add: data_def)
  have dec: "pc_decode C m = Some e" using assms(1) by (simp add: codec_laws_def m_def)
  have l: "length data \<ge> 4" "\<not> length data < 4 + length m" by (simp_all add: data_def)
  have "decode_loop C data es n = decode_loop C rest (es @ [e]) (n + (4 + length m))"
    unfolding decode_loop.simps [of C data]
    by (simp only: l h s d dec Let_def if_True if_False option.case)
  then show ?thesis by (simp add: data_def encode_framed_def m_def)
qed

interpretation wal_frames: frame_loop
  "\<lambda>data pos (es, n). decode_loop C (drop pos data) es n" "encode_framed C"
  "\<lambda>e (es, n). (es @ [e], n + length (encode_framed C e))" "\<lambda>e. codec_laws C \<and> small_entry C e" for C
  by unfold_locales (auto simp: decode_round)

lemma fold_frames:
  "fold (\<lambda>e (es, n). (es @ [e], n + length (enc e))) fs (es, n) = (es @ fs, n + length (concat (map enc fs)))"
  by (induction fs arbitrary: es n) auto

lemma decode_frames:
  assumes "codec_laws C" "list_all (small_entry C) es"
  shows "decode_all_framed C (concat (map (encode_framed C) es) @ rest) =
    decode_loop C rest es (length (concat (map (encode_framed C) es)))"
proof -
  have ok: "list_all (\<lambda>e. codec_laws C \<and> small_entry C e) es" using assms by (simp add: list_all_iff)
  have "fold (\<lambda>e (es, n). (es @ [e], n + length (encode_framed C e))) es ([], 0) =
      (es, length (concat (map (encode_framed C) es)))"
    using fold_frames [of "encode_framed C" es "[]" 0] by simp
  then show ?thesis
    using wal_frames.frames_from_start [OF ok, of rest "([], 0)"] by (simp add: decode_all_framed_def)
qed

section \<open>Correctness\<close>

text \<open>
  A log that ends inside its last record, as a crash during a write leaves it, is decoded to
  exactly the complete records before it, in order, and the number of bytes consumed is exactly
  theirs.
\<close>

theorem decode_crashed_log:
  assumes "codec_laws C" "list_all (small_entry C) es" "small_entry C e" "k < length (encode_framed C e)"
  shows "decode_all_framed C (concat (map (encode_framed C) es) @ take k (encode_framed C e)) =
    (es, length (concat (map (encode_framed C) es)))"
proof -
  define m where "m = pc_encode C e"
  have "decode_loop C (take k (encode_framed C e)) es n = (es, n)" for n
  proof (cases "k < 4")
    case True
    then show ?thesis by (subst decode_loop.simps) simp
  next
    case False
    have t: "take k (encode_framed C e) = to_be 4 (length m) @ take (k - 4) m"
      using False by (simp add: encode_framed_def m_def)
    have "slice 0 4 (take k (encode_framed C e)) = to_be 4 (length m)"
      unfolding t using slice_prefix [of "to_be 4 (length m)"] by simp
    moreover have "length m mod 256 ^ 4 = length m" using assms(3) by (simp add: small_entry_def m_def)
    ultimately have h: "from_be (slice 0 4 (take k (encode_framed C e))) = length m"
      by (simp only: from_to_be)
    have "length (take k (encode_framed C e)) < 4 + length m"
      using assms(4) by (simp add: encode_framed_def m_def)
    then show ?thesis by (subst decode_loop.simps) (simp add: h Let_def)
  qed
  then show ?thesis by (simp add: decode_frames [OF assms(1,2)])
qed

text \<open>
  Decoding stops at a record whose bytes are not a message: the records before it are kept,
  nothing behind it is read, whatever it is.
\<close>

theorem decode_stops_at_corruption:
  assumes "codec_laws C" "list_all (small_entry C) es" "length m < 2 ^ 32" "pc_decode C m = None"
  shows "decode_all_framed C (concat (map (encode_framed C) es) @ to_be 4 (length m) @ m @ rest) =
    (es, length (concat (map (encode_framed C) es)))"
proof -
  define data where "data = to_be 4 (length m) @ m @ rest"
  have h: "from_be (slice 0 4 data) = length m" using frame_header [OF assms(3)] by (simp add: data_def)
  have s: "slice 4 (4 + length m) data = m" using slice_mid [of "to_be 4 (length m)" m rest] by (simp add: data_def)
  have l: "length data \<ge> 4" "\<not> length data < 4 + length m" by (simp_all add: data_def)
  have "decode_loop C data es n = (es, n)" for n
    unfolding decode_loop.simps [of C data]
    by (simp only: l h s assms(4) Let_def if_True if_False option.case)
  then show ?thesis by (simp add: decode_frames [OF assms(1,2)] data_def)
qed

section \<open>Witnesses\<close>

text \<open>A codec that satisfies the law: numbers in unary, strings with their length.\<close>

definition put_nat :: "nat \<Rightarrow> bytes" where
  "put_nat n = replicate n 1 @ [0]"
definition take_nat :: "bytes \<Rightarrow> nat \<times> bytes" where
  "take_nat bs = (let n = length (takeWhile (\<lambda>b. b = 1) bs) in (n, drop (n + 1) bs))"
definition put_bytes :: "bytes \<Rightarrow> bytes" where
  "put_bytes bs = put_nat (length bs) @ bs"
definition take_bytes :: "bytes \<Rightarrow> bytes \<times> bytes" where
  "take_bytes bs = (let (n, r) = take_nat bs in (take n r, drop n r))"
definition put_str :: "string \<Rightarrow> bytes" where
  "put_str s = put_bytes (str_bytes s)"
definition take_str :: "bytes \<Rightarrow> string \<times> bytes" where
  "take_str bs = (let (b, r) = take_bytes bs in (bytes_str b, r))"

lemma take_nat_put [simp]: "take_nat (put_nat n @ r) = (n, r)"
proof -
  have "takeWhile (\<lambda>b. b = 1) (replicate n 1 @ 0 # r) = replicate n (1 :: u8)"
    by (induction n) auto
  then show ?thesis by (simp add: take_nat_def put_nat_def Let_def)
qed

lemma take_bytes_put [simp]: "take_bytes (put_bytes b @ r) = (b, r)"
  by (simp add: take_bytes_def put_bytes_def)

lemma take_str_put [simp]: "take_str (put_str s @ r) = (s, r)"
  by (simp add: take_str_def put_str_def)

fun put_payload :: "wal_payload option \<Rightarrow> bytes" where
  "put_payload None = put_nat 0"
| "put_payload (Some (Wal_Header h)) = put_nat 1 @ put_str (wh_repo_url h) @ put_str (wh_base_commit_oid h)
     @ put_str (wh_author h) @ put_str (wh_commit_message h) @ put_nat (wh_started_at h) @ put_nat (wh_wal_seq h)"
| "put_payload (Some (Wal_Create_File p t m)) = put_nat 2 @ put_str p @ put_nat (nat t) @ put_nat (nat (- t)) @ put_nat m"
| "put_payload (Some (Wal_Mkdir p)) = put_nat 3 @ put_str p"
| "put_payload (Some (Wal_Write p off d)) = put_nat 4 @ put_str p @ put_nat off @ put_bytes d"
| "put_payload (Some (Wal_Truncate p n)) = put_nat 5 @ put_str p @ put_nat n"
| "put_payload (Some (Wal_Remove p)) = put_nat 6 @ put_str p"
| "put_payload (Some (Wal_Rename p q)) = put_nat 7 @ put_str p @ put_str q"

definition take_payload :: "bytes \<Rightarrow> wal_payload option" where
  "take_payload bs =
     (let (tag, r) = take_nat bs; (p, r1) = take_str r in
      if tag = 0 then None
      else if tag = 1 then
        (let (b, r2) = take_str r1; (a, r3) = take_str r2; (m, r4) = take_str r3;
             (st, r5) = take_nat r4; (sq, r6) = take_nat r5
         in Some (Wal_Header \<lparr>wh_repo_url = p, wh_base_commit_oid = b, wh_author = a,
              wh_commit_message = m, wh_started_at = st, wh_wal_seq = sq\<rparr>))
      else if tag = 2 then
        (let (x, r2) = take_nat r1; (y, r3) = take_nat r2; (m, r4) = take_nat r3
         in Some (Wal_Create_File p (int x - int y) m))
      else if tag = 3 then Some (Wal_Mkdir p)
      else if tag = 4 then
        (let (off, r2) = take_nat r1; (d, r3) = take_bytes r2 in Some (Wal_Write p off d))
      else if tag = 5 then (let (n, r2) = take_nat r1 in Some (Wal_Truncate p n))
      else if tag = 6 then Some (Wal_Remove p)
      else (let (q, r2) = take_str r1 in Some (Wal_Rename p q)))"

lemma nat_zero: "put_nat 0 = [0]"
  by (simp add: put_nat_def)

lemma take_nat_end [simp]: "take_nat (put_nat n) = (n, [])" "take_str (put_str s) = (s, [])"
  "take_bytes (put_bytes b) = (b, [])"
  using take_nat_put [of n "[]"] take_str_put [of s "[]"] take_bytes_put [of b "[]"] by simp_all

lemma take_payload_put: "take_payload (put_payload p) = p"
proof (cases "p" rule: put_payload.cases)
  case 1
  then show ?thesis by (simp add: take_payload_def split: prod.split)
qed (auto simp: take_payload_def)

definition demo_put_entry :: "wal_entry \<Rightarrow> bytes" where
  "demo_put_entry e = put_nat (we_seq e) @ put_nat (we_timestamp e) @ put_payload (we_payload e)"

definition demo_take_entry :: "bytes \<Rightarrow> wal_entry" where
  "demo_take_entry bs =
     (let (sq, r) = take_nat bs; (ts, r1) = take_nat r
      in \<lparr>we_seq = sq, we_timestamp = ts, we_payload = take_payload r1\<rparr>)"

definition demo_codec :: codec where
  "demo_codec = \<lparr>pc_encode = demo_put_entry,
     pc_decode = (\<lambda>bs. let e = demo_take_entry bs in if demo_put_entry e = bs then Some e else None)\<rparr>"

lemma demo_codec_laws [simp]: "codec_laws demo_codec"
  by (simp add: codec_laws_def demo_codec_def demo_take_entry_def demo_put_entry_def take_payload_put)

definition demo_entry :: wal_entry where
  "demo_entry = \<lparr>we_seq = 1, we_timestamp = 0, we_payload = Some (Wal_Mkdir ''d'')\<rparr>"

lemma demo_entry_small: "list_all (small_entry demo_codec) [demo_entry]"
  by (simp add: small_entry_def demo_codec_def demo_put_entry_def demo_entry_def put_nat_def put_str_def put_bytes_def)

theorem decode_crashed_log_witness:
  "decode_all_framed demo_codec (encode_framed demo_codec demo_entry @ take 6 (encode_framed demo_codec demo_entry))
   = ([demo_entry], length (encode_framed demo_codec demo_entry))"
proof -
  have "small_entry demo_codec demo_entry" using demo_entry_small by simp
  moreover have "6 < length (encode_framed demo_codec demo_entry)"
    by (simp add: encode_framed_def demo_codec_def demo_put_entry_def demo_entry_def put_nat_def put_str_def put_bytes_def)
  ultimately show ?thesis using decode_crashed_log [OF demo_codec_laws demo_entry_small] by simp
qed

theorem decode_stops_at_corruption_witness:
  "decode_all_framed demo_codec (encode_framed demo_codec demo_entry @ to_be 4 1 @ [2] @ encode_framed demo_codec demo_entry)
   = ([demo_entry], length (encode_framed demo_codec demo_entry))"
proof -
  have "pc_decode demo_codec [2] = None"
    by (simp add: demo_codec_def demo_take_entry_def demo_put_entry_def take_nat_def put_nat_def Let_def split: prod.split)
  then show ?thesis
    using decode_stops_at_corruption [OF demo_codec_laws demo_entry_small, of "[2]" "encode_framed demo_codec demo_entry"]
    by simp
qed

end
