(* ===== verification/Git_Delta.thy ===== *)
theory Git_Delta
  imports Frames External
begin

text \<open>
  Variable-length integers and deltas of \<^verbatim>\<open>src/src/git/pack.rs\<close>: \<open>decode_varint\<close> and
  \<open>apply_git_delta\<close>. A \<open>usize\<close> is 64 bits wide; the shifts are those of a release build,
  where the shift amount wraps modulo 64. A declared result size above \<open>isize::MAX\<close> is the
  capacity-overflow panic of \<open>Vec::with_capacity\<close>.
\<close>

section \<open>Variable-length integers\<close>

definition shl64 :: "nat \<Rightarrow> nat \<Rightarrow> nat" where
  "shl64 x s = take_bit 64 (push_bit (s mod 64) x)"

text \<open>
  The continuation loop shared by \<open>decode_varint\<close> and the object headers: \<open>c\<close> is the byte
  read last, \<open>err\<close> the error at the end of the buffer.
\<close>

function varint_loop :: "error \<Rightarrow> bytes \<Rightarrow> nat \<Rightarrow> u8 \<Rightarrow> nat \<Rightarrow> nat \<Rightarrow> (nat \<times> nat) result" where
  "varint_loop err data pos c val shift =
     (if c AND 0x80 \<noteq> 0 then
        (if pos \<ge> length data then Inl err
         else varint_loop err data (pos + 1) (data ! pos)
                (val OR shl64 (unat (data ! pos AND 0x7f)) shift) (shift + 7))
      else Inr (val, pos))"
  by pat_completeness auto
termination
  by (relation "measure (\<lambda>(err, data, pos, c, val, shift). length data - pos)") auto

declare varint_loop.simps [simp del]

definition decode_varint :: "bytes \<Rightarrow> nat \<Rightarrow> (nat \<times> nat) result" where
  "decode_varint data pos =
     (if pos \<ge> length data then Inl (E_Delta Delta_VarintEof)
      else varint_loop (E_Delta Delta_VarintEof) data (pos + 1) (data ! pos)
             (unat (data ! pos AND 0x7f)) 7)"

section \<open>Applying a delta\<close>

definition isize_max :: nat where
  "isize_max = 9223372036854775807"

text \<open>One optional argument byte of a copy instruction.\<close>

definition delta_arg :: "bytes \<Rightarrow> u8 \<Rightarrow> u8 \<Rightarrow> nat \<Rightarrow> nat \<times> nat \<Rightarrow> (nat \<times> nat) result" where
  "delta_arg delta opcode flg shift ap =
     (if opcode AND flg \<noteq> 0 then
        (if snd ap \<ge> length delta then Inl (E_Delta Delta_Truncated)
         else Inr (fst ap OR push_bit shift (unat (delta ! snd ap)), snd ap + 1))
      else Inr ap)"

text \<open>The four offset bytes and the three size bytes, each present when its flag is set.\<close>

definition copy_args :: "bytes \<Rightarrow> u8 \<Rightarrow> nat \<Rightarrow> (nat \<times> nat \<times> nat) result" where
  "copy_args delta opcode pos =
     res_bind (delta_arg delta opcode 0x01 0 (0, pos)) (\<lambda>a1.
     res_bind (delta_arg delta opcode 0x02 8 a1) (\<lambda>a2.
     res_bind (delta_arg delta opcode 0x04 16 a2) (\<lambda>a3.
     res_bind (delta_arg delta opcode 0x08 24 a3) (\<lambda>a4.
     res_bind (delta_arg delta opcode 0x10 0 (0, snd a4)) (\<lambda>b1.
     res_bind (delta_arg delta opcode 0x20 8 b1) (\<lambda>b2.
     res_bind (delta_arg delta opcode 0x40 16 b2) (\<lambda>b3.
       Inr (fst a4, fst b3, snd b3))))))))"

lemma delta_arg_pos: "delta_arg d c m s ap = Inr ap' \<Longrightarrow> snd ap \<le> snd ap'"
  by (auto simp: delta_arg_def split: if_splits)

lemma copy_args_pos: "copy_args d c pos = Inr (off, sz, pos') \<Longrightarrow> pos \<le> pos'"
  unfolding copy_args_def res_bind_Inr_iff by (force dest!: delta_arg_pos)

function delta_loop :: "bytes \<Rightarrow> bytes \<Rightarrow> nat \<Rightarrow> bytes \<Rightarrow> bytes result" where
  "delta_loop base delta pos out =
     (if pos < length delta then
        (let opcode = delta ! pos; pos1 = pos + 1 in
         if opcode AND 0x80 \<noteq> 0 then
           (case copy_args delta opcode pos1 of
              Inl e \<Rightarrow> Inl e
            | Inr (cp_off, cp_size0, pos2) \<Rightarrow>
                (let cp_size = (if cp_size0 = 0 then 0x10000 else cp_size0) in
                 if cp_off + cp_size > length base then Inl (E_Delta Delta_CopyRange)
                 else delta_loop base delta pos2 (out @ slice cp_off (cp_off + cp_size) base)))
         else if opcode > 0 then
           (let count = unat opcode in
            if pos1 + count > length delta then Inl (E_Delta Delta_InsertRange)
            else delta_loop base delta (pos1 + count) (out @ slice pos1 (pos1 + count) delta))
         else Inl (E_Delta Delta_OpZero))
      else Inr out)"
  by pat_completeness auto
termination
  by (relation "measure (\<lambda>(base, delta, pos, out). length delta - pos)")
    (auto dest: copy_args_pos)

declare delta_loop.simps [simp del]

definition apply_git_delta :: "bytes \<Rightarrow> bytes \<Rightarrow> bytes result" where
  "apply_git_delta base delta =
     (case decode_varint delta 0 of
        Inl e \<Rightarrow> Inl e
      | Inr (base_len, pos) \<Rightarrow>
          (case decode_varint delta pos of
             Inl e \<Rightarrow> Inl e
           | Inr (res_len, pos') \<Rightarrow>
               if res_len > isize_max then Inl Panic
               else (case delta_loop base delta pos' [] of
                   Inl e \<Rightarrow> Inl e
                 | Inr out \<Rightarrow>
                     if length out \<noteq> res_len then Inl (E_Delta Delta_ResultSize) else Inr out)))"

section \<open>Encoding integers\<close>

text \<open>
  \<open>size_bytes\<close> is the continuation loop of the object header in \<^verbatim>\<open>pack_writer.rs\<close>;
  \<open>varint_bytes\<close> the same format with seven bits in the first byte, which deltas use.
\<close>

function size_bytes :: "nat \<Rightarrow> bytes" where
  "size_bytes n =
     (if n > 0 then
        (let b = word_of_nat (n mod 128) :: u8; n' = n div 128
         in (if n' > 0 then b OR 0x80 else b) # size_bytes n')
      else [])"
  by pat_completeness auto
termination
  by (relation "measure (\<lambda>n. n)") auto

declare size_bytes.simps [simp del]

definition varint_bytes :: "nat \<Rightarrow> bytes" where
  "varint_bytes n =
     (let b = word_of_nat (n mod 128) :: u8
      in (if n div 128 > 0 then b OR 0x80 else b) # size_bytes (n div 128))"

text \<open>Seven low bits and a continuation flag are independent.\<close>

lemma low7_bits:
  fixes b :: u8
  assumes "b = word_of_nat (n mod 128)"
  shows "unat (b AND 0x7f) = n mod 128" "unat ((b OR 0x80) AND 0x7f) = n mod 128"
    "b AND 0x80 = 0" "(b OR 0x80) AND 0x80 \<noteq> 0"
proof -
  have u: "unat b = n mod 128" using assms by (simp add: unat_of_nat)
  have m: "(0x7f :: u8) = mask 7" by (simp add: mask_eq_exp_minus_1)
  have "unat (b AND 0x7f) = take_bit 7 (unat b)"
    unfolding m by (simp add: unsigned_take_bit_eq flip: take_bit_eq_mask)
  then show 1: "unat (b AND 0x7f) = n mod 128" by (simp add: u take_bit_eq_mod)
  then have b: "b AND 0x7f = b" using u by (metis word_unat_eq_iff)
  have "b AND 0x80 = b AND (0x7f AND 0x80)" using b by (metis and.assoc)
  then show 2: "b AND 0x80 = 0" by simp
  have "(b OR 0x80) AND 0x7f = (b AND 0x7f) OR (0x80 AND 0x7f)" by (rule bit.conj_disj_distrib2)
  then show "unat ((b OR 0x80) AND 0x7f) = n mod 128" using 1 by simp
  have "(b OR 0x80) AND 0x80 = (b AND 0x80) OR (0x80 AND 0x80)" by (rule bit.conj_disj_distrib2)
  then show "(b OR 0x80) AND 0x80 \<noteq> 0" using 2 by simp
qed

lemma or_push_add:
  fixes a b :: nat
  assumes "a < 2 ^ n"
  shows "a OR push_bit n b = a + b * 2 ^ n"
proof -
  have "a = take_bit n a" using assms by (simp add: take_bit_nat_eq_self)
  then have "\<not> bit a k \<or> \<not> bit (push_bit n b) k" for k
    by (metis bit_push_bit_iff bit_take_bit_iff not_le)
  then have "a + push_bit n b = a OR push_bit n b" by (intro disjunctive_add) auto
  then show ?thesis by (simp add: push_bit_eq_mult)
qed

lemma varint_loop_size_bytes:
  assumes "val < 2 ^ shift" "n * 2 ^ shift < 2 ^ 64" "(c AND 0x80 \<noteq> 0) = (n > 0)"
  shows "varint_loop err (pre @ size_bytes n @ rest) (length pre) c val shift =
         Inr (val + n * 2 ^ shift, length pre + length (size_bytes n))"
  using assms
proof (induction n arbitrary: pre c val shift rule: less_induct)
  case (less n)
  show ?case
  proof (cases "n = 0")
    case True
    with less.prems show ?thesis by (simp add: varint_loop.simps size_bytes.simps)
  next
    case False
    define m where "m = n div 128"
    define b :: u8 where "b = word_of_nat (n mod 128)"
    define b' where "b' = (if m > 0 then b OR 0x80 else b)"
    have sb: "size_bytes n = b' # size_bytes m"
      using False by (simp add: size_bytes.simps [of n] b'_def b_def m_def Let_def)
    have "2 ^ shift \<le> n * 2 ^ shift" using False by simp
    then have "(2 :: nat) ^ shift < 2 ^ 64" using less.prems(2) by linarith
    then have sh: "shift < 64" by (rule power_less_imp_less_exp [rotated]) simp
    have val7: "unat (b' AND 0x7f) = n mod 128"
      using low7_bits [OF b_def] by (simp add: b'_def)
    have flag: "(b' AND 0x80 \<noteq> 0) = (m > 0)"
      using low7_bits [OF b_def] by (simp add: b'_def)
    have le: "n mod 128 * 2 ^ shift \<le> n * 2 ^ shift" by simp
    then have "n mod 128 * 2 ^ shift < 2 ^ 64" using less.prems(2) by linarith
    then have shl: "shl64 (n mod 128) shift = push_bit shift (n mod 128)"
      using sh by (simp add: shl64_def push_bit_eq_mult take_bit_nat_eq_self)
    let ?v = "val + n mod 128 * 2 ^ shift"
    have "Suc (n mod 128) * 2 ^ shift \<le> 128 * 2 ^ shift"
      by (rule mult_le_mono1) (simp add: Suc_leI)
    moreover have "(2 :: nat) ^ (shift + 7) = 128 * 2 ^ shift" by (simp add: power_add)
    ultimately have v: "?v < 2 ^ (shift + 7)"
      using less.prems(1) unfolding mult_Suc by linarith
    have n: "n * 2 ^ shift = n mod 128 * 2 ^ shift + m * 2 ^ (shift + 7)"
      using mult_div_mod_eq [of 128 n, symmetric]
      by (simp add: m_def power_add algebra_simps flip: distrib_left)
    have "varint_loop err (pre @ size_bytes n @ rest) (length pre) c val shift
        = varint_loop err ((pre @ [b']) @ size_bytes m @ rest) (length (pre @ [b'])) b' ?v (shift + 7)"
      using less.prems(3) False or_push_add [OF less.prems(1)]
      by (simp add: varint_loop.simps [of err _ "length pre" c] sb val7 shl)
    also have "\<dots> = Inr (?v + m * 2 ^ (shift + 7), length (pre @ [b']) + length (size_bytes m))"
      by (rule less.IH) (use v flag False n less.prems(2) in \<open>auto simp: m_def\<close>)
    finally show ?thesis using n by (simp add: sb)
  qed
qed

lemma decode_varint_bytes:
  assumes "n < 2 ^ 64"
  shows "decode_varint (pre @ varint_bytes n @ rest) (length pre) =
         Inr (n, length pre + length (varint_bytes n))"
proof -
  define b :: u8 where "b = word_of_nat (n mod 128)"
  define b' where "b' = (if n div 128 > 0 then b OR 0x80 else b)"
  have vb: "varint_bytes n = b' # size_bytes (n div 128)"
    by (simp add: varint_bytes_def b'_def b_def Let_def)
  have v: "unat (b' AND 0x7f) = n mod 128" and f: "(b' AND 0x80 \<noteq> 0) = (n div 128 > 0)"
    using low7_bits [OF b_def] by (simp_all add: b'_def)
  have n: "n mod 128 + n div 128 * 2 ^ 7 = n" by simp
  have "n div 128 * 2 ^ 7 \<le> n" by simp
  then have "n div 128 * 2 ^ 7 < 2 ^ 64" using assms by linarith
  then have "varint_loop (E_Delta Delta_VarintEof) ((pre @ [b']) @ size_bytes (n div 128) @ rest)
      (length (pre @ [b'])) b' (n mod 128) 7
      = Inr (n mod 128 + n div 128 * 2 ^ 7, length (pre @ [b']) + length (size_bytes (n div 128)))"
    by (intro varint_loop_size_bytes) (use f in simp_all)
  then show ?thesis unfolding n by (simp add: decode_varint_def vb v)
qed


section \<open>Delta instructions\<close>

text \<open>
  What a delta says, as instructions, and their encoding: a copy carries one flag per non-zero
  byte of its offset and size (a size of \<open>0x10000\<close> has no size byte), an insert its length.
\<close>

datatype delta_op = Copy_Op nat nat | Insert_Op bytes

definition flag :: "u8 \<Rightarrow> u8 \<Rightarrow> u8" where
  "flag b f = (if b = 0 then 0 else f)"
definition arg :: "u8 \<Rightarrow> bytes" where
  "arg b = (if b = 0 then [] else [b])"

definition byte_at :: "nat \<Rightarrow> nat \<Rightarrow> u8" where
  "byte_at k n = word_of_nat (n div 256 ^ k mod 256)"

definition copy_opcode :: "nat \<Rightarrow> nat \<Rightarrow> u8" where
  "copy_opcode off sz =
     0x80 OR flag (byte_at 0 off) 0x01 OR flag (byte_at 1 off) 0x02 OR flag (byte_at 2 off) 0x04
     OR flag (byte_at 3 off) 0x08 OR flag (byte_at 0 sz) 0x10 OR flag (byte_at 1 sz) 0x20
     OR flag (byte_at 2 sz) 0x40"

definition copy_arg_bytes :: "nat \<Rightarrow> nat \<Rightarrow> bytes" where
  "copy_arg_bytes off sz =
     arg (byte_at 0 off) @ arg (byte_at 1 off) @ arg (byte_at 2 off) @ arg (byte_at 3 off)
     @ arg (byte_at 0 sz) @ arg (byte_at 1 sz) @ arg (byte_at 2 sz)"

fun delta_op_bytes :: "delta_op \<Rightarrow> bytes" where
  "delta_op_bytes (Copy_Op off sz) =
     (let sz' = (if sz = 0x10000 then 0 else sz) in copy_opcode off sz' # copy_arg_bytes off sz')"
| "delta_op_bytes (Insert_Op bs) = word_of_nat (length bs) # bs"

fun delta_op_result :: "bytes \<Rightarrow> delta_op \<Rightarrow> bytes" where
  "delta_op_result base (Copy_Op off sz) = slice off (off + sz) base"
| "delta_op_result base (Insert_Op bs) = bs"

fun delta_op_ok :: "bytes \<Rightarrow> delta_op \<Rightarrow> bool" where
  "delta_op_ok base (Copy_Op off sz) \<longleftrightarrow>
     0 < sz \<and> sz < 2 ^ 24 \<and> off < 2 ^ 32 \<and> off + sz \<le> length base"
| "delta_op_ok base (Insert_Op bs) \<longleftrightarrow> 0 < length bs \<and> length bs < 128"

definition delta_bytes :: "bytes \<Rightarrow> delta_op list \<Rightarrow> bytes" where
  "delta_bytes base ops =
     varint_bytes (length base) @ varint_bytes (length (concat (map (delta_op_result base) ops)))
     @ concat (map delta_op_bytes ops)"

lemma flag_and: "flag b f AND m = flag b (f AND m)"
  by (simp add: flag_def)

lemma copy_opcode_flags:
  "copy_opcode off sz AND 0x80 \<noteq> 0"
  "copy_opcode off sz AND 0x01 \<noteq> 0 \<longleftrightarrow> byte_at 0 off \<noteq> 0"
  "copy_opcode off sz AND 0x02 \<noteq> 0 \<longleftrightarrow> byte_at 1 off \<noteq> 0"
  "copy_opcode off sz AND 0x04 \<noteq> 0 \<longleftrightarrow> byte_at 2 off \<noteq> 0"
  "copy_opcode off sz AND 0x08 \<noteq> 0 \<longleftrightarrow> byte_at 3 off \<noteq> 0"
  "copy_opcode off sz AND 0x10 \<noteq> 0 \<longleftrightarrow> byte_at 0 sz \<noteq> 0"
  "copy_opcode off sz AND 0x20 \<noteq> 0 \<longleftrightarrow> byte_at 1 sz \<noteq> 0"
  "copy_opcode off sz AND 0x40 \<noteq> 0 \<longleftrightarrow> byte_at 2 sz \<noteq> 0"
  unfolding copy_opcode_def bit.conj_disj_distrib2 flag_and
  by (simp_all add: flag_def)

lemma delta_arg_present:
  assumes "c AND m \<noteq> 0 \<longleftrightarrow> b \<noteq> 0" "v < 2 ^ s" "p = length pre"
  shows "delta_arg (pre @ arg b @ rest) c m s (v, p) = Inr (v + unat b * 2 ^ s, length (pre @ arg b))"
  using assms(1) or_push_add [OF assms(2)] by (auto simp: delta_arg_def arg_def assms(3))

lemma unat_byte_at: "unat (byte_at k n) = n div 256 ^ k mod 256"
  by (simp add: byte_at_def)

lemma bytes_sum:
  "n mod 256 + n div 256 mod 256 * 256 = n mod 65536" for n :: nat
  using mod_mult2_eq [of n 256 256] by (simp add: mult.commute)

lemma bytes_sum3:
  "n mod 65536 + n div 65536 mod 256 * 65536 = n mod 16777216" for n :: nat
  using mod_mult2_eq [of n 65536 256] by (simp add: mult.commute)

lemma bytes_sum4:
  "n mod 16777216 + n div 16777216 mod 256 * 16777216 = n mod 4294967296" for n :: nat
  using mod_mult2_eq [of n 16777216 256] by (simp add: mult.commute)

lemma copy_args_bytes:
  assumes "off < 2 ^ 32" "sz < 2 ^ 24"
  shows "copy_args (pre @ copy_arg_bytes off sz @ rest) (copy_opcode off sz) (length pre) =
         Inr (off, sz, length pre + length (copy_arg_bytes off sz))"
proof -
  let ?c = "copy_opcode off sz"
  define a0 a1 a2 a3 where "a0 = arg (byte_at 0 off)" and "a1 = arg (byte_at 1 off)"
    and "a2 = arg (byte_at 2 off)" and "a3 = arg (byte_at 3 off)"
  define b0 b1 b2 where "b0 = arg (byte_at 0 sz)" and "b1 = arg (byte_at 1 sz)"
    and "b2 = arg (byte_at 2 sz)"
  define d where "d = pre @ a0 @ a1 @ a2 @ a3 @ b0 @ b1 @ b2 @ rest"
  have s1: "delta_arg d ?c 0x01 0 (0, length pre) = Inr (off mod 256, length (pre @ a0))"
    using delta_arg_present [OF copy_opcode_flags(2) [of off sz], where v = "0" and s = 0 and pre = "pre"]
    by (simp add: d_def a0_def unat_byte_at)
  have s2: "delta_arg d ?c 0x02 8 (off mod 256, length (pre @ a0)) =
      Inr (off mod 65536, length (pre @ a0 @ a1))"
    using delta_arg_present [OF copy_opcode_flags(3) [of off sz], where v = "off mod 256" and s = 8 and pre = "pre @ a0"]
    by (simp add: d_def a1_def unat_byte_at bytes_sum)
  have s3: "delta_arg d ?c 0x04 16 (off mod 65536, length (pre @ a0 @ a1)) =
      Inr (off mod 16777216, length (pre @ a0 @ a1 @ a2))"
    using delta_arg_present [OF copy_opcode_flags(4) [of off sz], where v = "off mod 65536" and s = 16 and pre = "pre @ a0 @ a1"]
    by (simp add: d_def a2_def unat_byte_at bytes_sum3)
  have s4: "delta_arg d ?c 0x08 24 (off mod 16777216, length (pre @ a0 @ a1 @ a2)) =
      Inr (off, length (pre @ a0 @ a1 @ a2 @ a3))"
    using delta_arg_present [OF copy_opcode_flags(5) [of off sz], where v = "off mod 16777216" and s = 24 and pre = "pre @ a0 @ a1 @ a2"]
      assms(1) by (simp add: d_def a3_def unat_byte_at bytes_sum4)
  have s5: "delta_arg d ?c 0x10 0 (0, length (pre @ a0 @ a1 @ a2 @ a3)) =
      Inr (sz mod 256, length (pre @ a0 @ a1 @ a2 @ a3 @ b0))"
    using delta_arg_present [OF copy_opcode_flags(6) [of off sz], where v = "0" and s = 0 and pre = "pre @ a0 @ a1 @ a2 @ a3"]
    by (simp add: d_def b0_def unat_byte_at)
  have s6: "delta_arg d ?c 0x20 8 (sz mod 256, length (pre @ a0 @ a1 @ a2 @ a3 @ b0)) =
      Inr (sz mod 65536, length (pre @ a0 @ a1 @ a2 @ a3 @ b0 @ b1))"
    using delta_arg_present [OF copy_opcode_flags(7) [of off sz], where v = "sz mod 256" and s = 8 and pre = "pre @ a0 @ a1 @ a2 @ a3 @ b0"]
    by (simp add: d_def b1_def unat_byte_at bytes_sum)
  have s7: "delta_arg d ?c 0x40 16 (sz mod 65536, length (pre @ a0 @ a1 @ a2 @ a3 @ b0 @ b1)) =
      Inr (sz, length (pre @ a0 @ a1 @ a2 @ a3 @ b0 @ b1 @ b2))"
    using delta_arg_present [OF copy_opcode_flags(8) [of off sz], where v = "sz mod 65536" and s = 16 and pre = "pre @ a0 @ a1 @ a2 @ a3 @ b0 @ b1"]
      assms(2) by (simp add: d_def b2_def unat_byte_at bytes_sum3)
  have ab: "copy_arg_bytes off sz = a0 @ a1 @ a2 @ a3 @ b0 @ b1 @ b2"
    by (simp add: copy_arg_bytes_def a0_def a1_def a2_def a3_def b0_def b1_def b2_def)
  have "copy_args d ?c (length pre) = Inr (off, sz, length pre + length (copy_arg_bytes off sz))"
    unfolding copy_args_def s1 res_bind_simps s2 s3 s4 fst_conv snd_conv s5 s6 s7 by (simp add: ab)
  then show ?thesis by (simp add: d_def ab)
qed


lemma insert_opcode:
  assumes "0 < n" "n < 128"
  shows "(word_of_nat n :: u8) AND 0x80 = 0" "(0 :: u8) < word_of_nat n" "unat (word_of_nat n :: u8) = n"
proof -
  show n: "unat (word_of_nat n :: u8) = n" using assms by (simp add: unat_of_nat)
  show "(word_of_nat n :: u8) AND 0x80 = 0" using low7_bits(3) [of _ n] assms by simp
  show "(0 :: u8) < word_of_nat n" using n assms(1) by (simp add: word_less_nat_alt)
qed

lemma delta_round:
  assumes "delta_op_ok base f"
  shows "delta_loop base (pre @ delta_op_bytes f @ rest) (length pre) out =
         delta_loop base (pre @ delta_op_bytes f @ rest) (length pre + length (delta_op_bytes f))
           (out @ delta_op_result base f)"
proof (cases f)
  case (Copy_Op off sz)
  define sz' where "sz' = (if sz = 0x10000 then 0 else sz)"
  define args where "args = copy_arg_bytes off sz'"
  define d where "d = pre @ copy_opcode off sz' # args @ rest"
  have ok: "0 < sz" "sz' < 2 ^ 24" "off < 2 ^ 32" "off + sz \<le> length base"
    using assms Copy_Op by (simp_all add: sz'_def)
  have sz: "(if sz' = 0 then 0x10000 else sz') = sz" using ok(1) by (simp add: sz'_def)
  have "copy_args ((pre @ [copy_opcode off sz']) @ args @ rest) (copy_opcode off sz')
      (length (pre @ [copy_opcode off sz'])) = Inr (off, sz', length (pre @ [copy_opcode off sz']) + length args)"
    unfolding args_def using ok(3,2) by (rule copy_args_bytes)
  then have ca: "copy_args d (copy_opcode off sz') (length pre + 1) = Inr (off, sz', length pre + 1 + length args)"
    by (simp add: d_def)
  have pos: "length pre < length d" and op: "d ! length pre = copy_opcode off sz'" by (simp_all add: d_def)
  have "\<not> off + sz > length base" using ok(4) by simp
  then have "delta_loop base d (length pre) out =
      delta_loop base d (length pre + 1 + length args) (out @ slice off (off + sz) base)"
    unfolding delta_loop.simps [of base d "length pre" out]
    by (simp only: pos op Let_def copy_opcode_flags(1) if_True ca sum.case prod.case sz if_False simp_thms)
  moreover have "d = pre @ delta_op_bytes f @ rest" "length (delta_op_bytes f) = 1 + length args"
    using Copy_Op by (simp_all add: d_def args_def sz'_def Let_def)
  ultimately show ?thesis using Copy_Op by (simp add: add.assoc)
next
  case (Insert_Op bs)
  define op :: u8 where "op = word_of_nat (length bs)"
  define d where "d = pre @ op # bs @ rest"
  have len: "0 < length bs" "length bs < 128" using assms Insert_Op by simp_all
  note o = insert_opcode [OF len, folded op_def]
  have sl: "slice (length pre + 1) (length pre + 1 + length bs) d = bs"
    using slice_mid [of "pre @ [op]" bs rest] by (simp add: d_def)
  have pos: "length pre < length d" "d ! length pre = op" "\<not> length pre + 1 + length bs > length d"
    by (simp_all add: d_def)
  have "delta_loop base d (length pre) out =
      delta_loop base d (length pre + 1 + length bs) (out @ bs)"
    unfolding delta_loop.simps [of base d "length pre" out]
    by (simp only: pos Let_def o sl if_True if_False simp_thms)
  moreover have "d = pre @ delta_op_bytes f @ rest" "length (delta_op_bytes f) = 1 + length bs"
    using Insert_Op by (simp_all add: d_def op_def)
  ultimately show ?thesis using Insert_Op by (simp add: add.assoc)
qed

interpretation deltas: frame_loop "delta_loop base" delta_op_bytes
  "\<lambda>f out. out @ delta_op_result base f" "delta_op_ok base" for base
  by unfold_locales (rule delta_round)

lemma delta_loop_end: "pos \<ge> length delta \<Longrightarrow> delta_loop base delta pos out = Inr out"
  by (subst delta_loop.simps) simp

text \<open>The two size headers are read, and the loop starts on the instructions.\<close>

lemma apply_git_delta_headers:
  assumes "n < 2 ^ 64" "m \<le> isize_max"
  shows "apply_git_delta base (varint_bytes n @ varint_bytes m @ rest) =
     (case delta_loop base ((varint_bytes n @ varint_bytes m) @ rest)
             (length (varint_bytes n @ varint_bytes m)) [] of
        Inl e \<Rightarrow> Inl e
      | Inr out \<Rightarrow> if length out \<noteq> m then Inl (E_Delta Delta_ResultSize) else Inr out)"
proof -
  define d where "d = varint_bytes n @ varint_bytes m @ rest"
  have 1: "decode_varint d 0 = Inr (n, length (varint_bytes n))"
    using decode_varint_bytes [OF assms(1), of "[]"] by (simp add: d_def)
  have "m < 2 ^ 64" using assms(2) by (simp add: isize_max_def)
  then have 2: "decode_varint d (length (varint_bytes n)) = Inr (m, length (varint_bytes n) + length (varint_bytes m))"
    using decode_varint_bytes [of m "varint_bytes n" rest] by (simp add: d_def)
  have "apply_git_delta base d =
     (case delta_loop base d (length (varint_bytes n) + length (varint_bytes m)) [] of
        Inl e \<Rightarrow> Inl e
      | Inr out \<Rightarrow> if length out \<noteq> m then Inl (E_Delta Delta_ResultSize) else Inr out)"
    using assms(2) by (simp add: apply_git_delta_def 1 2)
  then show ?thesis by (simp add: d_def)
qed

section \<open>Correctness\<close>

text \<open>
  C16: a delta encoded from any list of copy and insert instructions that fit the base is applied
  to exactly the concatenation of what the instructions produce.
\<close>

theorem apply_encoded_delta:
  assumes "list_all (delta_op_ok base) ops" "length base < 2 ^ 64"
    "length (concat (map (delta_op_result base) ops)) \<le> isize_max"
  shows "apply_git_delta base (delta_bytes base ops) = Inr (concat (map (delta_op_result base) ops))"
  using deltas.frames_consumed [OF assms(1), of
      "varint_bytes (length base) @ varint_bytes (length (concat (map (delta_op_result base) ops)))" "[]" "[]"]
  unfolding delta_bytes_def apply_git_delta_headers [OF assms(2,3)]
  by (simp add: delta_loop_end fold_snoc_map)

theorem apply_encoded_delta_witness:
  "let base = str_bytes ''The quick brown fox jumps over the lazy dog'' in
   apply_git_delta base
     (delta_bytes base [Copy_Op 0 20, Insert_Op (str_bytes ''runs past ''), Copy_Op 31 12])
   = Inr (str_bytes ''The quick brown fox runs past the lazy dog'')"
proof -
  let ?base = "str_bytes ''The quick brown fox jumps over the lazy dog''"
  let ?ops = "[Copy_Op 0 20, Insert_Op (str_bytes ''runs past ''), Copy_Op 31 12]"
  have "list_all (delta_op_ok ?base) ?ops" "length ?base < 2 ^ 64"
    "length (concat (map (delta_op_result ?base) ?ops)) \<le> isize_max"
    by (simp_all add: isize_max_def)
  note apply_encoded_delta [OF this]
  moreover have "concat (map (delta_op_result ?base) ?ops)
      = str_bytes ''The quick brown fox runs past the lazy dog''" by code_simp
  ultimately show ?thesis unfolding Let_def by (simp only:)
qed

text \<open>
  Whatever instructions come before it, a copy that reaches past the end of the base is
  refused, also when the declared base length would have allowed it: nothing outside the base is
  ever read.
\<close>

theorem delta_copy_out_of_range:
  assumes "list_all (delta_op_ok base) ops" "n < 2 ^ 64" "m \<le> isize_max"
    "0 < sz" "sz < 2 ^ 24" "off < 2 ^ 32" "length base < off + sz"
  shows "apply_git_delta base (varint_bytes n @ varint_bytes m @ concat (map delta_op_bytes ops)
           @ delta_op_bytes (Copy_Op off sz) @ rest) = Inl (E_Delta Delta_CopyRange)"
proof -
  define hdr where "hdr = varint_bytes n @ varint_bytes m"
  define pre where "pre = hdr @ concat (map delta_op_bytes ops)"
  define sz' where "sz' = (if sz = 0x10000 then 0 else sz)"
  define op where "op = copy_opcode off sz'"
  define d where "d = pre @ op # copy_arg_bytes off sz' @ rest"
  have sz: "(if sz' = 0 then 0x10000 else sz') = sz" and sz': "sz' < 2 ^ 24"
    using assms(4,5) by (simp_all add: sz'_def)
  have ca: "copy_args d op (length pre + 1) = Inr (off, sz', length pre + 1 + length (copy_arg_bytes off sz'))"
    using copy_args_bytes [OF assms(6) sz', of "pre @ [op]" rest] by (simp add: d_def op_def)
  have pos: "length pre < length d" "d ! length pre = op" by (simp_all add: d_def)
  have loop: "delta_loop base d (length pre) out = Inl (E_Delta Delta_CopyRange)" for out
    unfolding delta_loop.simps [of base d "length pre" out]
    by (simp only: pos Let_def copy_opcode_flags(1) [of off sz', folded op_def] if_True ca sum.case
        prod.case sz assms(7) simp_thms)
  have d: "d = hdr @ concat (map delta_op_bytes ops) @ delta_op_bytes (Copy_Op off sz) @ rest"
    by (simp add: d_def pre_def op_def sz'_def Let_def)
  have "delta_loop base d (length hdr) [] = delta_loop base d (length pre) (fold (\<lambda>f out. out @ delta_op_result base f) ops [])"
    using deltas.frames_consumed [OF assms(1), of hdr "delta_op_bytes (Copy_Op off sz) @ rest" "[]"]
    unfolding d [symmetric] by (simp add: pre_def)
  then show ?thesis
    unfolding apply_git_delta_headers [OF assms(2,3)] hdr_def [symmetric] d [symmetric] loop by simp
qed

theorem delta_copy_out_of_range_witness:
  "apply_git_delta [1, 2, 3] (varint_bytes 500 @ varint_bytes 4 @ concat (map delta_op_bytes [Insert_Op [9]])
     @ delta_op_bytes (Copy_Op 1 3)) = Inl (E_Delta Delta_CopyRange)"
  using delta_copy_out_of_range [of "[1, 2, 3]" "[Insert_Op [9]]" 500 4 3 1 "[]"]
  by (simp add: isize_max_def)

end
