(* ===== verification/Git_Pack.thy ===== *)
theory Git_Pack
  imports Git_Delta
begin

text \<open>
  Packfiles: \<^verbatim>\<open>src/src/git/pack.rs\<close> from \<open>ObjectType\<close> to \<open>unpack_packfile\<close>. The loop over
  the objects is \<open>unpack_objects\<close>, one iteration \<open>unpack_object\<close>; the resolution of the
  deltas is \<open>resolve_loop\<close>, one pass over the pending deltas \<open>resolve_pass\<close>. The abstract
  specification is the inductive relation \<open>obj_at\<close>: which object a pack holds at which offset.
\<close>

section \<open>Object types\<close>

datatype object_type = Commit_Type | Tree_Type | Blob_Type | Tag_Type | Ofs_Delta | Ref_Delta

definition object_type_from_u8 :: "nat \<Rightarrow> object_type result" where
  "object_type_from_u8 v =
     (if v = 1 then Inr Commit_Type
      else if v = 2 then Inr Tree_Type
      else if v = 3 then Inr Blob_Type
      else if v = 4 then Inr Tag_Type
      else if v = 6 then Inr Ofs_Delta
      else if v = 7 then Inr Ref_Delta
      else Inl (E_Pack Pack_BadType))"

fun object_type_num :: "object_type \<Rightarrow> nat" where
  "object_type_num Commit_Type = 1"
| "object_type_num Tree_Type = 2"
| "object_type_num Blob_Type = 3"
| "object_type_num Tag_Type = 4"
| "object_type_num Ofs_Delta = 6"
| "object_type_num Ref_Delta = 7"

fun type_str :: "object_type \<Rightarrow> string" where
  "type_str Commit_Type = ''commit''"
| "type_str Tree_Type = ''tree''"
| "type_str Blob_Type = ''blob''"
| "type_str Tag_Type = ''tag''"
| "type_str _ = ''unknown''"

record git_raw_object =
  ro_type :: object_type
  ro_data :: bytes

record pending_delta =
  pd_offset :: nat
  pd_type :: object_type
  pd_base_offset :: "nat option"
  pd_base_sha :: "string option"
  pd_data :: bytes

definition compute_git_sha1 :: "ext \<Rightarrow> object_type \<Rightarrow> bytes \<Rightarrow> string" where
  "compute_git_sha1 X ty data =
     (let header = type_str ty @ '' '' @ to_radix 10 (length data) @ [CHR 0x00]
      in x_hex_encode X (x_sha1 X (str_bytes header @ data)))"

section \<open>Unpacking\<close>

text \<open>The three collections and the position of \<open>unpack_packfile\<close>.\<close>

record unpack_state =
  us_by_offset :: "(nat, object_type \<times> bytes \<times> string) hmap"
  us_by_sha :: "(string, git_raw_object) hmap"
  us_pending :: "pending_delta list"
  us_pos :: nat

definition add_object :: "ext \<Rightarrow> nat \<Rightarrow> object_type \<Rightarrow> bytes \<Rightarrow> unpack_state \<Rightarrow> unpack_state" where
  "add_object X off ty data st =
     (let sha = compute_git_sha1 X ty data
      in st\<lparr>us_by_offset := hm_put off (ty, data, sha) (us_by_offset st),
            us_by_sha := hm_put sha \<lparr>ro_type = ty, ro_data = data\<rparr> (us_by_sha st)\<rparr>)"

definition add_pending :: "pending_delta \<Rightarrow> unpack_state \<Rightarrow> unpack_state" where
  "add_pending d st = st\<lparr>us_pending := us_pending st @ [d]\<rparr>"

text \<open>The continuation of an \<open>OFS_DELTA\<close> distance; additions and shifts are of 64 bits.\<close>

function ofs_loop :: "bytes \<Rightarrow> nat \<Rightarrow> u8 \<Rightarrow> nat \<Rightarrow> (nat \<times> nat) result" where
  "ofs_loop pack pos c v =
     (if c AND 0x80 \<noteq> 0 then
        (if pos \<ge> length pack then Inl (E_Pack Pack_Eof)
         else ofs_loop pack (pos + 1) (pack ! pos)
                (shl64 (v + 1) 7 OR unat (pack ! pos AND 0x7f)))
      else Inr (v, pos))"
  by pat_completeness auto
termination
  by (relation "measure (\<lambda>(pack, pos, c, v). length pack - pos)") auto

declare ofs_loop.simps [simp del]

definition inflate_at :: "ext \<Rightarrow> bytes \<Rightarrow> nat \<Rightarrow> (bytes \<times> nat) result" where
  "inflate_at X pack pos =
     (case x_inflate X (drop pos pack) of
        None \<Rightarrow> Inl (E_Pack Pack_Zlib)
      | Some (d, consumed) \<Rightarrow> Inr (d, pos + consumed))"

definition unpack_object :: "ext \<Rightarrow> bytes \<Rightarrow> unpack_state \<Rightarrow> unpack_state result" where
  "unpack_object X pack st =
     (let obj_offset = us_pos st in
      if obj_offset \<ge> length pack then Inl (E_Pack Pack_Eof)
      else let c = pack ! obj_offset in
      res_bind (object_type_from_u8 (unat (drop_bit 4 c AND 7))) (\<lambda>ty.
      res_bind (varint_loop (E_Pack Pack_Eof) pack (obj_offset + 1) c (unat (c AND 15)) 4) (\<lambda>(sz, pos).
        case ty of
          Ofs_Delta \<Rightarrow>
            (if pos \<ge> length pack then Inl (E_Pack Pack_Eof)
             else res_bind (ofs_loop pack (pos + 1) (pack ! pos) (unat (pack ! pos AND 0x7f))) (\<lambda>(dist, pos').
                    if dist > obj_offset then Inl (E_Pack Pack_NegBase)
                    else res_bind (inflate_at X pack pos') (\<lambda>(d, pos'').
                      Inr (add_pending \<lparr>pd_offset = obj_offset, pd_type = Ofs_Delta,
                             pd_base_offset = Some (obj_offset - dist), pd_base_sha = None,
                             pd_data = d\<rparr> (st\<lparr>us_pos := pos''\<rparr>)))))
        | Ref_Delta \<Rightarrow>
            (if pos + 20 > length pack then Inl (E_Pack Pack_Eof)
             else res_bind (inflate_at X pack (pos + 20)) (\<lambda>(d, pos').
                    Inr (add_pending \<lparr>pd_offset = obj_offset, pd_type = Ref_Delta,
                           pd_base_offset = None,
                           pd_base_sha = Some (x_hex_encode X (slice pos (pos + 20) pack)),
                           pd_data = d\<rparr> (st\<lparr>us_pos := pos'\<rparr>))))
        | _ \<Rightarrow>
            (if sz > isize_max then Inl Panic
             else res_bind (inflate_at X pack pos) (\<lambda>(d, pos').
                    Inr (add_object X obj_offset ty d (st\<lparr>us_pos := pos'\<rparr>)))))))"

fun unpack_objects :: "ext \<Rightarrow> bytes \<Rightarrow> nat \<Rightarrow> unpack_state \<Rightarrow> unpack_state result" where
  "unpack_objects X pack 0 st = Inr st"
| "unpack_objects X pack (Suc n) st =
     res_bind (unpack_object X pack st) (unpack_objects X pack n)"

definition base_info :: "unpack_state \<Rightarrow> pending_delta \<Rightarrow> (object_type \<times> bytes) option" where
  "base_info st item =
     (case pd_base_offset item of
        Some off \<Rightarrow> map_option (\<lambda>(t, d, _). (t, d)) (hm_get (us_by_offset st) off)
      | None \<Rightarrow>
          (case pd_base_sha item of
             Some sha \<Rightarrow> map_option (\<lambda>ob. (ro_type ob, ro_data ob)) (hm_get (us_by_sha st) sha)
           | None \<Rightarrow> None))"

text \<open>One pass: resolved deltas enter the maps at once, the others are kept in order.\<close>

fun resolve_pass ::
  "ext \<Rightarrow> pending_delta list \<Rightarrow> unpack_state \<Rightarrow> pending_delta list \<Rightarrow>
   (unpack_state \<times> pending_delta list) result" where
  "resolve_pass X [] st remaining = Inr (st, remaining)"
| "resolve_pass X (item # items) st remaining =
     (case base_info st item of
        Some (ty, base) \<Rightarrow>
          (case apply_git_delta base (pd_data item) of
             Inl e \<Rightarrow> Inl e
           | Inr resolved \<Rightarrow>
               resolve_pass X items (add_object X (pd_offset item) ty resolved st) remaining)
      | None \<Rightarrow> resolve_pass X items st (remaining @ [item]))"

lemma resolve_pass_length:
  "resolve_pass X items st remaining = Inr (st', rem) \<Longrightarrow>
   length rem \<le> length remaining + length items"
  by (induction X items st remaining rule: resolve_pass.induct)
    (fastforce split: option.splits sum.splits)+

function resolve_loop :: "ext \<Rightarrow> pending_delta list \<Rightarrow> unpack_state \<Rightarrow> unpack_state result" where
  "resolve_loop X pending st =
     (if pending = [] then Inr st
      else (case resolve_pass X pending st [] of
              Inl e \<Rightarrow> Inl e
            | Inr (st', remaining) \<Rightarrow>
                (if length remaining = length pending then Inl (E_Pack Pack_MissingBase)
                 else resolve_loop X remaining st')))"
  by pat_completeness auto
termination
  by (relation "measure (\<lambda>(X, pending, st). length pending)")
    (auto dest: resolve_pass_length)

declare resolve_loop.simps [simp del]

definition pack_magic :: bytes where
  "pack_magic = [0x50, 0x41, 0x43, 0x4B]"

definition unpack_packfile :: "ext \<Rightarrow> bytes \<Rightarrow> (string, git_raw_object) hmap result" where
  "unpack_packfile X pack =
     (if length pack < 12 then Inl (E_Pack Pack_TooShort)
      else if slice 0 4 pack \<noteq> pack_magic then Inl (E_Pack Pack_BadMagic)
      else let version = from_be (slice 4 8 pack) in
      if version \<noteq> 2 \<and> version \<noteq> 3 then Inl (E_Pack Pack_BadVersion)
      else let num_objects = from_be (slice 8 12 pack) in
      res_bind (unpack_objects X pack num_objects
          \<lparr>us_by_offset = [], us_by_sha = [], us_pending = [], us_pos = 12\<rparr>) (\<lambda>st.
      res_bind (resolve_loop X (us_pending st) st) (\<lambda>st'. Inr (us_by_sha st'))))"


section \<open>Writing object headers\<close>

text \<open>
  \<open>object_header\<close> is the type and size header of \<^verbatim>\<open>pack_writer.rs\<close> (the \<open>byte\<close> and the
  continuation loop); \<open>ofs_bytes\<close> the distance encoding that the reader expects, which the
  program itself never writes.
\<close>

definition object_header :: "object_type \<Rightarrow> nat \<Rightarrow> bytes" where
  "object_header ty n =
     (let b = push_bit 4 (word_of_nat (object_type_num ty)) OR word_of_nat (n mod 16) :: u8; n' = n div 16
      in (if n' > 0 then b OR 0x80 else b) # size_bytes n')"

function ofs_prefix :: "nat \<Rightarrow> bytes" where
  "ofs_prefix m =
     (if m < 128 then [] else ofs_prefix (m div 128 - 1)) @ [word_of_nat (m mod 128) OR 0x80]"
  by pat_completeness auto
termination
  by (relation "measure (\<lambda>m. m)") auto

declare ofs_prefix.simps [simp del]

definition ofs_bytes :: "nat \<Rightarrow> bytes" where
  "ofs_bytes n = (if n < 128 then [] else ofs_prefix (n div 128 - 1)) @ [word_of_nat (n mod 128)]"

lemma high_bit: "(b :: u8) AND 0x80 \<noteq> 0 \<longleftrightarrow> 128 \<le> unat b"
proof (cases "unat b < 128")
  case True
  then have "b = word_of_nat (unat b mod 128)" by simp
  with True show ?thesis using low7_bits(3) by (metis not_le)
next
  case False
  define n where "n = unat b - 128"
  define c :: u8 where "c = word_of_nat (n mod 128)"
  have n: "n < 128" "unat b = n + 128" using False unat_u8_less [of b] unfolding n_def by linarith+
  have "unat (c OR 0x80) = unat c OR 128" by (simp add: unsigned_or_eq)
  also have "unat c = n" using n by (simp add: c_def unat_of_nat)
  also have "n OR 128 = n + 128" using or_push_add [of n 7 1] n by (simp add: push_bit_eq_mult)
  finally have "b = c OR 0x80" using n by (metis word_unat_eq_iff)
  then show ?thesis using low7_bits(4) [OF c_def] False by simp
qed

lemma object_type_num_bounds: "0 < object_type_num ty \<and> object_type_num ty < 8"
  by (cases ty) auto

lemma from_u8_num: "object_type_from_u8 (object_type_num ty) = Inr ty"
  by (cases ty) (auto simp: object_type_from_u8_def)

lemma header_byte:
  assumes "b = (push_bit 4 (word_of_nat t) OR word_of_nat (n mod 16) :: u8)" "t < 8"
    and b': "b' = (if f then b OR 0x80 else b)"
  shows "unat (drop_bit 4 b' AND 7) = t" "unat (b' AND 15) = n mod 16" "(b' AND 0x80 \<noteq> 0) = f"
proof -
  let ?v = "n mod 16 + t * 16"
  have "unat b = take_bit 8 (push_bit 4 t) OR n mod 16"
    using assms(1,2) by (simp add: unsigned_or_eq unsigned_push_bit_eq unat_of_nat)
  also have "take_bit 8 (push_bit 4 t) = push_bit 4 t"
    using assms(2) by (simp add: take_bit_nat_eq_self push_bit_eq_mult)
  also have "push_bit 4 t OR n mod 16 = ?v" using or_push_add [of "n mod 16" 4 t] by (simp add: or.commute)
  finally have ub: "unat b = ?v" .
  have "?v < 128" using assms(2) by simp
  then have "?v OR 128 = ?v + 128" using or_push_add [of ?v 7 1] by (simp add: push_bit_eq_mult)
  then have u: "unat b' = ?v + (if f then 128 else 0)" using ub by (simp add: b' unsigned_or_eq)
  have m7: "(7 :: u8) = mask 3" and m15: "(15 :: u8) = mask 4" by (simp_all add: mask_eq_exp_minus_1)
  have tb: "take_bit 8 (unat b') = unat b'" by (simp add: take_bit_nat_eq_self)
  have "unat (drop_bit 4 b' AND 7) = take_bit 3 (drop_bit 4 (unat b'))"
    unfolding m7 by (simp add: unsigned_take_bit_eq unsigned_drop_bit_eq tb flip: take_bit_eq_mask)
  also have "\<dots> = unat b' div 16 mod 8" by (simp add: take_bit_eq_mod drop_bit_eq_div)
  also have "unat b' = n mod 16 + 16 * (t + (if f then 8 else 0))" using u by simp
  also have "\<dots> div 16 = t + (if f then 8 else 0)" by (simp only: div_mult_self2)
  finally show "unat (drop_bit 4 b' AND 7) = t" using assms(2) by simp
  have "unat (b' AND 15) = take_bit 4 (unat b')"
    unfolding m15 by (simp add: unsigned_take_bit_eq flip: take_bit_eq_mask)
  also have "\<dots> = unat b' mod 16" by (simp add: take_bit_eq_mod)
  also have "unat b' = n mod 16 + 16 * (t + (if f then 8 else 0))" using u by simp
  also have "\<dots> mod 16 = n mod 16" by (simp only: mod_mult_self2 mod_mod_trivial)
  finally show "unat (b' AND 15) = n mod 16" .
  show "(b' AND 0x80 \<noteq> 0) = f" unfolding high_bit u using \<open>?v < 128\<close> by simp
qed

lemma object_header_read:
  assumes "n < 2 ^ 64" "data = pre @ object_header ty n @ rest"
  shows "object_type_from_u8 (unat (drop_bit 4 (data ! length pre) AND 7)) = Inr ty"
    "varint_loop err data (length pre + 1) (data ! length pre) (unat (data ! length pre AND 15)) 4
     = Inr (n, length pre + length (object_header ty n))"
proof -
  define b :: u8 where "b = push_bit 4 (word_of_nat (object_type_num ty)) OR word_of_nat (n mod 16)"
  define b' where "b' = (if n div 16 > 0 then b OR 0x80 else b)"
  have oh: "object_header ty n = b' # size_bytes (n div 16)"
    by (simp add: object_header_def Let_def b'_def b_def)
  have nth: "data ! length pre = b'" by (simp add: assms(2) oh)
  note h = header_byte [OF b_def _ b'_def]
  have t: "object_type_num ty < 8" using object_type_num_bounds by simp
  show "object_type_from_u8 (unat (drop_bit 4 (data ! length pre) AND 7)) = Inr ty"
    unfolding nth h(1) [OF t] by (rule from_u8_num)
  have "n div 16 * 2 ^ 4 \<le> n" by simp
  then have "n div 16 * 2 ^ 4 < 2 ^ 64" using assms(1) by linarith
  then have "varint_loop err ((pre @ [b']) @ size_bytes (n div 16) @ rest) (length (pre @ [b'])) b' (n mod 16) 4
      = Inr (n mod 16 + n div 16 * 2 ^ 4, length (pre @ [b']) + length (size_bytes (n div 16)))"
    using h(3) [OF t] by (intro varint_loop_size_bytes) simp_all
  then show "varint_loop err data (length pre + 1) (data ! length pre) (unat (data ! length pre AND 15)) 4
     = Inr (n, length pre + length (object_header ty n))"
    unfolding nth h(2) [OF t] by (simp add: assms(2) oh)
qed

lemma ofs_prefix_read:
  assumes "m < 2 ^ 57"
  shows "\<exists>c. c AND 0x80 \<noteq> 0 \<and>
    ofs_loop (pre @ ofs_prefix m @ rest) (length pre + 1) ((pre @ ofs_prefix m @ rest) ! length pre)
      (unat ((pre @ ofs_prefix m @ rest) ! length pre AND 0x7f)) =
    ofs_loop (pre @ ofs_prefix m @ rest) (length pre + length (ofs_prefix m)) c m"
  using assms
proof (induction m arbitrary: rest rule: less_induct)
  case (less m)
  define b :: u8 where "b = word_of_nat (m mod 128) OR 0x80"
  have b: "unat (b AND 0x7f) = m mod 128" "b AND 0x80 \<noteq> 0" unfolding b_def by (rule low7_bits [OF refl])+
  show ?case
  proof (cases "m < 128")
    case True
    then have "ofs_prefix m = [b]" by (simp add: ofs_prefix.simps [of m] b_def)
    then show ?thesis using b True by (intro exI [of _ b]) simp
  next
    case False
    define k where "k = m div 128 - 1"
    have k: "k < m" "k < 2 ^ 57" "Suc k = m div 128" using False less.prems by (auto simp: k_def)
    have pm: "ofs_prefix m = ofs_prefix k @ [b]" using False by (simp add: ofs_prefix.simps [of m] b_def k_def)
    define d where "d = pre @ ofs_prefix k @ b # rest"
    obtain c where c: "c AND 0x80 \<noteq> 0"
      "ofs_loop d (length pre + 1) (d ! length pre) (unat (d ! length pre AND 0x7f))
       = ofs_loop d (length pre + length (ofs_prefix k)) c k"
      using less.IH [OF k(1,2), of "b # rest"] by (auto simp: d_def)
    have nth: "d ! (length pre + length (ofs_prefix k)) = b" by (simp add: d_def nth_append)
    have lt: "\<not> length d \<le> length pre + length (ofs_prefix k)" by (simp add: d_def)
    have "m div 128 < 2 ^ 57" using less.prems by simp
    then have "push_bit 7 (m div 128) < 2 ^ 64" by (simp add: push_bit_eq_mult)
    then have "shl64 (m div 128) 7 = push_bit 7 (m div 128)" by (simp add: shl64_def take_bit_nat_eq_self)
    moreover have "push_bit 7 (m div 128) OR m mod 128 = m"
      using or_push_add [of "m mod 128" 7 "m div 128"] by (simp add: or.commute)
    ultimately have v: "shl64 (k + 1) 7 OR unat (b AND 0x7f) = m" by (simp add: k(3) b)
    have "ofs_loop d (length pre + length (ofs_prefix k)) c k
        = ofs_loop d (length pre + length (ofs_prefix k) + 1) b m"
      using c(1) lt by (simp add: ofs_loop.simps [of d _ c] nth v [simplified])
    then show ?thesis using b c(2) by (intro exI [of _ b]) (simp add: d_def pm add.assoc)
  qed
qed

lemma ofs_bytes_read:
  assumes "n < 2 ^ 64" "data = pre @ ofs_bytes n @ rest"
  shows "ofs_loop data (length pre + 1) (data ! length pre) (unat (data ! length pre AND 0x7f))
       = Inr (n, length pre + length (ofs_bytes n))"
proof -
  define b :: u8 where "b = word_of_nat (n mod 128)"
  have b: "unat (b AND 0x7f) = n mod 128" "b AND 0x80 = 0" unfolding b_def by (rule low7_bits [OF refl])+
  show ?thesis
  proof (cases "n < 128")
    case True
    then have "ofs_bytes n = [b]" by (simp add: ofs_bytes_def b_def)
    then show ?thesis using b True by (simp add: assms(2) ofs_loop.simps [of _ _ b])
  next
    case False
    define k where "k = n div 128 - 1"
    have k: "k < 2 ^ 57" "Suc k = n div 128" using False assms(1) by (auto simp: k_def)
    have on: "ofs_bytes n = ofs_prefix k @ [b]" using False by (simp add: ofs_bytes_def b_def k_def)
    have d: "data = pre @ ofs_prefix k @ b # rest" by (simp add: assms(2) on)
    obtain c where c: "c AND 0x80 \<noteq> 0"
      "ofs_loop data (length pre + 1) (data ! length pre) (unat (data ! length pre AND 0x7f))
       = ofs_loop data (length pre + length (ofs_prefix k)) c k"
      using ofs_prefix_read [OF k(1), of pre "b # rest"] by (auto simp: d)
    have nth: "data ! (length pre + length (ofs_prefix k)) = b" by (simp add: d nth_append)
    have lt: "\<not> length data \<le> length pre + length (ofs_prefix k)" by (simp add: d)
    have "n div 128 < 2 ^ 57" using assms(1) by simp
    then have "push_bit 7 (n div 128) < 2 ^ 64" by (simp add: push_bit_eq_mult)
    then have "shl64 (n div 128) 7 = push_bit 7 (n div 128)" by (simp add: shl64_def take_bit_nat_eq_self)
    moreover have "push_bit 7 (n div 128) OR n mod 128 = n"
      using or_push_add [of "n mod 128" 7 "n div 128"] by (simp add: or.commute)
    ultimately have v: "shl64 (k + 1) 7 OR unat (b AND 0x7f) = n" by (simp add: k(2) b)
    have "ofs_loop data (length pre + length (ofs_prefix k)) c k
        = ofs_loop data (length pre + length (ofs_prefix k) + 1) b n"
      using c(1) lt by (simp add: ofs_loop.simps [of data _ c] nth v [simplified])
    also have "\<dots> = Inr (n, length pre + length (ofs_bytes n))"
      using b by (simp add: ofs_loop.simps [of _ _ b] on)
    finally show ?thesis using c(2) by simp
  qed
qed


section \<open>The specification: what a pack holds\<close>

datatype pack_frame = Base_Frame object_type bytes | Ofs_Frame nat bytes | Ref_Frame bytes bytes

fun frame_bytes :: "ext \<Rightarrow> pack_frame \<Rightarrow> bytes" where
  "frame_bytes X (Base_Frame ty d) = object_header ty (length d) @ x_deflate X d"
| "frame_bytes X (Ofs_Frame dist d) =
     object_header Ofs_Delta (length d) @ ofs_bytes dist @ x_deflate X d"
| "frame_bytes X (Ref_Frame sha d) = object_header Ref_Delta (length d) @ sha @ x_deflate X d"

text \<open>A frame that fits at an offset: distances stay inside the pack.\<close>

fun frame_ok :: "nat \<Rightarrow> pack_frame \<Rightarrow> bool" where
  "frame_ok off (Base_Frame ty d) \<longleftrightarrow>
     ty \<in> {Commit_Type, Tree_Type, Blob_Type, Tag_Type} \<and> length d \<le> isize_max"
| "frame_ok off (Ofs_Frame dist d) \<longleftrightarrow> dist \<le> off \<and> dist < 2 ^ 64 \<and> length d < 2 ^ 64"
| "frame_ok off (Ref_Frame sha d) \<longleftrightarrow> length sha = 20 \<and> length d < 2 ^ 64"

fun place :: "ext \<Rightarrow> nat \<Rightarrow> pack_frame list \<Rightarrow> (nat \<times> pack_frame) list" where
  "place X off [] = []"
| "place X off (f # fs) = (off, f) # place X (off + length (frame_bytes X f)) fs"

definition frames_ok :: "ext \<Rightarrow> pack_frame list \<Rightarrow> bool" where
  "frames_ok X fs \<longleftrightarrow> list_all (\<lambda>(off, f). frame_ok off f) (place X 12 fs) \<and> length fs < 2 ^ 32"

definition pack_bytes :: "ext \<Rightarrow> pack_frame list \<Rightarrow> bytes \<Rightarrow> bytes" where
  "pack_bytes X fs trailer =
     pack_magic @ to_be 4 2 @ to_be 4 (length fs) @ concat (map (frame_bytes X) fs) @ trailer"

inductive obj_at :: "ext \<Rightarrow> (nat \<times> pack_frame) list \<Rightarrow> nat \<Rightarrow> object_type \<Rightarrow> bytes \<Rightarrow> bool"
  for X ps where
  base: "(off, Base_Frame ty d) \<in> set ps \<Longrightarrow> obj_at X ps off ty d"
| ofs: "(off, Ofs_Frame dist delta) \<in> set ps \<Longrightarrow> obj_at X ps (off - dist) ty b \<Longrightarrow>
    apply_git_delta b delta = Inr d \<Longrightarrow> obj_at X ps off ty d"
| ref: "(off, Ref_Frame sha delta) \<in> set ps \<Longrightarrow> obj_at X ps off' ty b \<Longrightarrow>
    compute_git_sha1 X ty b = x_hex_encode X sha \<Longrightarrow>
    apply_git_delta b delta = Inr d \<Longrightarrow> obj_at X ps off ty d"

text \<open>The pending entry of a delta frame.\<close>

fun pending_of :: "ext \<Rightarrow> nat \<times> pack_frame \<Rightarrow> pending_delta list" where
  "pending_of X (off, Base_Frame ty d) = []"
| "pending_of X (off, Ofs_Frame dist d) =
     [\<lparr>pd_offset = off, pd_type = Ofs_Delta, pd_base_offset = Some (off - dist),
       pd_base_sha = None, pd_data = d\<rparr>]"
| "pending_of X (off, Ref_Frame sha d) =
     [\<lparr>pd_offset = off, pd_type = Ref_Delta, pd_base_offset = None,
       pd_base_sha = Some (x_hex_encode X sha), pd_data = d\<rparr>]"

section \<open>Reading the frames\<close>

fun add_frame :: "ext \<Rightarrow> nat \<times> pack_frame \<Rightarrow> unpack_state \<Rightarrow> unpack_state" where
  "add_frame X (off, f) st =
     (case f of
        Base_Frame ty d \<Rightarrow> add_object X off ty d (st\<lparr>us_pos := off + length (frame_bytes X f)\<rparr>)
      | _ \<Rightarrow> add_pending (hd (pending_of X (off, f)))
               (st\<lparr>us_pos := off + length (frame_bytes X f)\<rparr>))"

lemma inflate_at_deflate:
  "zlib_laws X \<Longrightarrow> p = length pre \<Longrightarrow>
   inflate_at X (pre @ x_deflate X d @ rest) p = Inr (d, p + length (x_deflate X d))"
  by (simp add: inflate_at_def)

lemma object_header_nonempty [simp]: "object_header ty n \<noteq> []"
  by (simp add: object_header_def Let_def)

lemma ofs_bytes_nonempty [simp]: "ofs_bytes n \<noteq> []"
  by (simp add: ofs_bytes_def)

lemma frame_bytes_nonempty [simp]: "frame_bytes X f \<noteq> []"
  by (cases f) auto

lemma unpack_frame:
  assumes Z: "zlib_laws X" and ok: "frame_ok (length pre) f" and pos: "us_pos st = length pre"
  shows "unpack_object X (pre @ frame_bytes X f @ rest) st = Inr (add_frame X (length pre, f) st)"
proof (cases f)
  case (Base_Frame ty d)
  define data where "data = pre @ object_header ty (length d) @ x_deflate X d @ rest"
  have n: "length d < 2 ^ 64" "\<not> length d > isize_max" using ok Base_Frame by (simp_all add: isize_max_def)
  note h = object_header_read(2) [OF n(1) data_def, of "E_Pack Pack_Eof"]
    object_header_read(1) [OF n(1) data_def]
  have lt: "\<not> length pre \<ge> length data" by (simp add: data_def)
  have inf: "inflate_at X data (length pre + length (object_header ty (length d)))
      = Inr (d, length pre + length (object_header ty (length d)) + length (x_deflate X d))"
    using inflate_at_deflate [OF Z, of _ "pre @ object_header ty (length d)"] by (simp add: data_def)
  have "unpack_object X data st = Inr (add_frame X (length pre, f) st)"
    unfolding unpack_object_def pos
    by (simp only: h lt inf n Let_def if_False res_bind_simps prod.case)
      (use ok in \<open>auto simp: Base_Frame inf n add.assoc split: object_type.split\<close>)
  then show ?thesis using Base_Frame by (simp add: data_def)
next
  case (Ofs_Frame dist d)
  define hdr where "hdr = object_header Ofs_Delta (length d)"
  define data where "data = pre @ hdr @ ofs_bytes dist @ x_deflate X d @ rest"
  have n: "length d < 2 ^ 64" "dist < 2 ^ 64" "\<not> dist > length pre" using ok Ofs_Frame by simp_all
  note h = object_header_read(2) [OF n(1) data_def [unfolded hdr_def], of "E_Pack Pack_Eof", folded hdr_def]
    object_header_read(1) [OF n(1) data_def [unfolded hdr_def]]
  have lt: "\<not> length pre \<ge> length data" "\<not> length pre + length hdr \<ge> length data" by (simp_all add: data_def hdr_def)
  have ofs: "ofs_loop data (length pre + length hdr + 1) (data ! (length pre + length hdr))
      (unat (data ! (length pre + length hdr) AND 0x7f))
      = Inr (dist, length pre + length hdr + length (ofs_bytes dist))"
    using ofs_bytes_read [OF n(2), of data "pre @ hdr"] by (simp add: data_def)
  have inf: "inflate_at X data (length pre + length hdr + length (ofs_bytes dist))
      = Inr (d, length pre + length hdr + length (ofs_bytes dist) + length (x_deflate X d))"
    using inflate_at_deflate [OF Z, of _ "pre @ hdr @ ofs_bytes dist" d rest] by (simp add: data_def add.assoc)
  have "unpack_object X data st = Inr (add_frame X (length pre, f) st)"
    using Ofs_Frame unfolding unpack_object_def pos
    by (simp only: h lt ofs inf n Let_def if_False res_bind_simps prod.case object_type.case)
      (simp add: hdr_def add.assoc)
  then show ?thesis using Ofs_Frame by (simp add: data_def hdr_def)
next
  case (Ref_Frame sha d)
  define hdr where "hdr = object_header Ref_Delta (length d)"
  define data where "data = pre @ hdr @ sha @ x_deflate X d @ rest"
  have n: "length d < 2 ^ 64" and sha: "length sha = 20" using ok Ref_Frame by simp_all
  note h = object_header_read(2) [OF n data_def [unfolded hdr_def], of "E_Pack Pack_Eof", folded hdr_def]
    object_header_read(1) [OF n data_def [unfolded hdr_def]]
  have lt: "\<not> length pre \<ge> length data" "\<not> length pre + length hdr + 20 > length data"
    using sha by (simp_all add: data_def hdr_def)
  have sl: "slice (length pre + length hdr) (length pre + length hdr + 20) data = sha"
    using slice_mid [of "pre @ hdr" sha] sha by (simp add: data_def)
  have inf: "inflate_at X data (length pre + length hdr + 20)
      = Inr (d, length pre + length hdr + 20 + length (x_deflate X d))"
    using inflate_at_deflate [OF Z, of _ "pre @ hdr @ sha" d rest] sha by (simp add: data_def add.assoc)
  have "unpack_object X data st = Inr (add_frame X (length pre, f) st)"
    using Ref_Frame unfolding unpack_object_def pos
    by (simp only: h lt sl inf Let_def if_False res_bind_simps prod.case object_type.case)
      (simp add: hdr_def sha add.assoc)
  then show ?thesis using Ref_Frame by (simp add: data_def hdr_def)
qed

lemma us_pos_add_frame [simp]: "us_pos (add_frame X (off, f) st) = off + length (frame_bytes X f)"
  by (cases f) (simp_all add: add_object_def add_pending_def Let_def)

declare add_frame.simps [simp del]

lemma unpack_frames:
  assumes "zlib_laws X" "list_all (\<lambda>(off, f). frame_ok off f) (place X (length pre) fs)"
    "us_pos st = length pre"
  shows "unpack_objects X (pre @ concat (map (frame_bytes X) fs) @ rest) (length fs) st
       = Inr (fold (add_frame X) (place X (length pre) fs) st)"
  using assms(2,3)
proof (induction fs arbitrary: pre st)
  case (Cons f fs)
  have "unpack_objects X ((pre @ frame_bytes X f) @ concat (map (frame_bytes X) fs) @ rest) (length fs)
      (add_frame X (length pre, f) st)
    = Inr (fold (add_frame X) (place X (length (pre @ frame_bytes X f)) fs) (add_frame X (length pre, f) st))"
    using Cons.prems by (intro Cons.IH) simp_all
  then show ?case
    using unpack_frame [OF assms(1), of pre f st "concat (map (frame_bytes X) fs) @ rest"] Cons.prems
    by simp
qed simp

lemma unpack_pack_bytes:
  assumes "zlib_laws X" "frames_ok X fs"
  shows "unpack_packfile X (pack_bytes X fs trailer) =
    res_bind (let st = fold (add_frame X) (place X 12 fs)
                 \<lparr>us_by_offset = [], us_by_sha = [], us_pending = [], us_pos = 12\<rparr>
              in resolve_loop X (us_pending st) st) (\<lambda>st. Inr (us_by_sha st))"
proof -
  define body where "body = concat (map (frame_bytes X) fs)"
  define hdr where "hdr = pack_magic @ to_be 4 2 @ to_be 4 (length fs)"
  have lm: "length pack_magic = 4" by (simp add: pack_magic_def)
  have len: "length hdr = 12" by (simp add: hdr_def pack_magic_def)
  have pb: "pack_bytes X fs trailer = hdr @ body @ trailer" by (simp add: pack_bytes_def hdr_def body_def)
  have s1: "slice 0 4 (hdr @ body @ trailer) = pack_magic"
    using slice_prefix [of pack_magic] by (simp add: hdr_def lm)
  have s2: "slice 4 8 (hdr @ body @ trailer) = to_be 4 2"
    using slice_mid [of pack_magic "to_be 4 2"] by (simp add: hdr_def lm)
  have s3: "slice 8 12 (hdr @ body @ trailer) = to_be 4 (length fs)"
    using slice_mid [of "pack_magic @ to_be 4 2" "to_be 4 (length fs)"] by (simp add: hdr_def lm)
  have "length fs < 256 ^ 4" using assms(2) by (simp add: frames_ok_def)
  then have n: "from_be (to_be 4 (length fs)) = length fs" unfolding from_to_be by (rule mod_less)
  have v: "from_be (to_be 4 2) = 2" unfolding from_to_be by simp
  have "unpack_objects X (hdr @ body @ trailer) (length fs)
      \<lparr>us_by_offset = [], us_by_sha = [], us_pending = [], us_pos = 12\<rparr>
    = Inr (fold (add_frame X) (place X 12 fs) \<lparr>us_by_offset = [], us_by_sha = [], us_pending = [], us_pos = 12\<rparr>)"
    using unpack_frames [OF assms(1), of hdr fs _ trailer] assms(2) len
    by (simp add: body_def frames_ok_def)
  then show ?thesis
    unfolding unpack_packfile_def pb s1 s2 s3 v n Let_def using len by simp
qed


section \<open>Soundness of the resolution\<close>

text \<open>
  Everything in the maps is an object of the pack, filed under its own id; an offset in the
  first map has its object in the second.
\<close>

definition unpack_sound :: "ext \<Rightarrow> (nat \<times> pack_frame) list \<Rightarrow> unpack_state \<Rightarrow> bool" where
  "unpack_sound X ps st \<longleftrightarrow>
     (\<forall>off ty d s. hm_get (us_by_offset st) off = Some (ty, d, s) \<longrightarrow>
        obj_at X ps off ty d \<and> s = compute_git_sha1 X ty d \<and> s \<in> set (hm_keys (us_by_sha st))) \<and>
     (\<forall>s ob. hm_get (us_by_sha st) s = Some ob \<longrightarrow>
        s = compute_git_sha1 X (ro_type ob) (ro_data ob) \<and> (\<exists>off. obj_at X ps off (ro_type ob) (ro_data ob)))"

definition resolved :: "unpack_state \<Rightarrow> nat set" where
  "resolved st = set (hm_keys (us_by_offset st))"

lemma resolved_iff: "off \<in> resolved st \<longleftrightarrow> (\<exists>ty d s. hm_get (us_by_offset st) off = Some (ty, d, s))"
  using hm_get_None_iff [of "us_by_offset st" off] unfolding resolved_def by (metis not_None_eq prod_cases3)

lemma unpack_sound_offset:
  "unpack_sound X ps st \<Longrightarrow> hm_get (us_by_offset st) off = Some (ty, d, s) \<Longrightarrow>
   obj_at X ps off ty d \<and> s = compute_git_sha1 X ty d \<and> s \<in> set (hm_keys (us_by_sha st))"
  unfolding unpack_sound_def by blast

lemma unpack_sound_sha:
  "unpack_sound X ps st \<Longrightarrow> hm_get (us_by_sha st) s = Some ob \<Longrightarrow>
   s = compute_git_sha1 X (ro_type ob) (ro_data ob) \<and> (\<exists>off. obj_at X ps off (ro_type ob) (ro_data ob))"
  unfolding unpack_sound_def by blast

lemma add_object_sound:
  "unpack_sound X ps st \<Longrightarrow> obj_at X ps off ty d \<Longrightarrow> unpack_sound X ps (add_object X off ty d st)"
  unfolding unpack_sound_def by (auto simp: add_object_def Let_def)

lemma resolved_add_object [simp]: "resolved (add_object X off ty d st) = insert off (resolved st)"
  by (simp add: add_object_def Let_def resolved_def)

lemma resolved_cong [simp]:
  "resolved (st\<lparr>us_pos := p\<rparr>) = resolved st" "resolved (add_pending q st) = resolved st"
  by (simp_all add: resolved_def add_pending_def)

lemma unpack_sound_cong [simp]:
  "unpack_sound X ps (st\<lparr>us_pos := p\<rparr>) = unpack_sound X ps st"
  "unpack_sound X ps (add_pending q st) = unpack_sound X ps st"
  by (simp_all add: unpack_sound_def add_pending_def)

text \<open>What a pending entry says of its frame.\<close>

lemma pending_of_cases:
  assumes "item \<in> set (pending_of X p)"
  obtains (ofs) off dist delta where "p = (off, Ofs_Frame dist delta)" "pd_offset item = off"
      "pd_base_offset item = Some (off - dist)" "pd_data item = delta"
  | (ref) off sha delta where "p = (off, Ref_Frame sha delta)" "pd_offset item = off"
      "pd_base_offset item = None" "pd_base_sha item = Some (x_hex_encode X sha)" "pd_data item = delta"
  using assms by (cases "(X, p)" rule: pending_of.cases) auto

lemma base_info_sound:
  assumes S: "unpack_sound X ps st" and p: "p \<in> set ps" "item \<in> set (pending_of X p)"
    and b: "base_info st item = Some (ty, b)" and r: "apply_git_delta b (pd_data item) = Inr d"
  shows "obj_at X ps (pd_offset item) ty d"
  using p(2)
proof (cases rule: pending_of_cases)
  case (ofs off dist delta)
  then obtain s where "hm_get (us_by_offset st) (off - dist) = Some (ty, b, s)"
    using b by (auto simp: base_info_def)
  then have "obj_at X ps (off - dist) ty b" using S unpack_sound_offset by blast
  then show ?thesis using obj_at.ofs p(1) r ofs by blast
next
  case (ref off sha delta)
  then obtain ob where "hm_get (us_by_sha st) (x_hex_encode X sha) = Some ob" "ty = ro_type ob" "b = ro_data ob"
    using b by (auto simp: base_info_def)
  then have "compute_git_sha1 X ty b = x_hex_encode X sha" "\<exists>off. obj_at X ps off ty b"
    using S unpack_sound_sha by metis+
  then show ?thesis using obj_at.ref p(1) r ref by blast
qed

lemma resolve_pass_sound:
  assumes "resolve_pass X items st acc = Inr (st', rem)"
    "unpack_sound X ps st" "\<forall>item \<in> set items. \<exists>p \<in> set ps. item \<in> set (pending_of X p)"
  shows "unpack_sound X ps st' \<and> resolved st \<subseteq> resolved st' \<and> set rem \<subseteq> set acc \<union> set items \<and>
     (\<forall>item \<in> set items. pd_offset item \<in> resolved st' \<or> item \<in> set rem) \<and> set acc \<subseteq> set rem"
  using assms
proof (induction X items st acc rule: resolve_pass.induct)
  case (2 X item items st acc)
  show ?case
  proof (cases "base_info st item")
    case None
    then have "resolve_pass X items st (acc @ [item]) = Inr (st', rem)" using 2(3) by simp
    from 2(1) [OF None this 2(4)] 2(5) show ?thesis by auto
  next
    case (Some tb)
    obtain ty b where tb: "tb = (ty, b)" by (cases tb)
    obtain r where r: "apply_git_delta b (pd_data item) = Inr r"
      using 2(3) Some tb by (cases "apply_git_delta b (pd_data item)") auto
    then have run: "resolve_pass X items (add_object X (pd_offset item) ty r st) acc = Inr (st', rem)"
      using 2(3) Some tb by simp
    obtain p where "p \<in> set ps" "item \<in> set (pending_of X p)" using 2(5) by auto
    then have "obj_at X ps (pd_offset item) ty r"
      using base_info_sound [OF 2(4)] Some tb r by blast
    then have "unpack_sound X ps (add_object X (pd_offset item) ty r st)"
      by (rule add_object_sound [OF 2(4)])
    from 2(2) [OF Some tb [symmetric] r run this] 2(5) show ?thesis by auto
  qed
qed simp

lemma resolve_loop_sound:
  assumes "resolve_loop X pending st = Inr st'"
    "unpack_sound X ps st" "\<forall>item \<in> set pending. \<exists>p \<in> set ps. item \<in> set (pending_of X p)"
  shows "unpack_sound X ps st' \<and> resolved st \<subseteq> resolved st' \<and>
     (\<forall>item \<in> set pending. pd_offset item \<in> resolved st')"
  using assms
proof (induction X pending st rule: resolve_loop.induct)
  case (1 X pending st)
  show ?case
  proof (cases "pending = []")
    case True
    then show ?thesis using "1.prems" by (simp add: resolve_loop.simps)
  next
    case False
    obtain st1 rem where pass: "resolve_pass X pending st [] = Inr (st1, rem)"
      and run: "resolve_loop X rem st1 = Inr st'" and len: "length rem \<noteq> length pending"
      using "1.prems"(1) False
      by (subst (asm) resolve_loop.simps) (auto split: sum.splits prod.splits if_splits)
    note s = resolve_pass_sound [OF pass "1.prems"(2,3)]
    have "unpack_sound X ps st' \<and> resolved st1 \<subseteq> resolved st' \<and> (\<forall>item \<in> set rem. pd_offset item \<in> resolved st')"
      using "1.IH" [OF False pass refl len run] s "1.prems"(3) by auto
    then show ?thesis using s by blast
  qed
qed

text \<open>The state after the frames are read.\<close>

lemma add_frames_sound:
  assumes "set qs \<subseteq> set ps" "unpack_sound X ps st"
  shows "unpack_sound X ps (fold (add_frame X) qs st) \<and>
     us_pending (fold (add_frame X) qs st) = us_pending st @ concat (map (pending_of X) qs) \<and>
     resolved st \<subseteq> resolved (fold (add_frame X) qs st) \<and>
     (\<forall>off f. (off, f) \<in> set qs \<longrightarrow> pending_of X (off, f) = [] \<longrightarrow> off \<in> resolved (fold (add_frame X) qs st))"
  using assms
proof (induction qs arbitrary: st)
  case (Cons q qs)
  obtain off f where q: "q = (off, f)" by (cases q)
  have step: "unpack_sound X ps (add_frame X q st)
      \<and> us_pending (add_frame X q st) = us_pending st @ pending_of X q
      \<and> resolved st \<subseteq> resolved (add_frame X q st)
      \<and> (pending_of X q = [] \<longrightarrow> off \<in> resolved (add_frame X q st))"
  proof (cases f)
    case (Base_Frame ty d)
    then have "obj_at X ps off ty d" using Cons.prems(1) q by (auto intro: obj_at.base)
    then show ?thesis using Base_Frame q Cons.prems(2)
      by (auto simp: add_frame.simps add_object_sound) (simp add: add_object_def Let_def)
  qed (use q Cons.prems(2) in \<open>auto simp: add_frame.simps, simp_all add: add_pending_def\<close>)
  then have "unpack_sound X ps (add_frame X q st)" by blast
  from Cons.IH [OF _ this] Cons.prems(1) step show ?case
    unfolding q fold_simps by (simp add: q) blast
qed simp

abbreviation start_state :: unpack_state where
  "start_state \<equiv> \<lparr>us_by_offset = [], us_by_sha = [], us_pending = [], us_pos = 12\<rparr>"

definition read_state :: "ext \<Rightarrow> pack_frame list \<Rightarrow> unpack_state" where
  "read_state X fs = fold (add_frame X) (place X 12 fs) start_state"

lemma read_state_facts:
  "unpack_sound X (place X 12 fs) (read_state X fs)"
  "us_pending (read_state X fs) = concat (map (pending_of X) (place X 12 fs))"
  "(off, f) \<in> set (place X 12 fs) \<Longrightarrow> pending_of X (off, f) = [] \<Longrightarrow> off \<in> resolved (read_state X fs)"
  using add_frames_sound [of "place X 12 fs" "place X 12 fs" X start_state]
  by (auto simp: read_state_def unpack_sound_def)

lemma unpack_read_state:
  assumes "zlib_laws X" "frames_ok X fs"
  shows "unpack_packfile X (pack_bytes X fs trailer) =
    res_bind (resolve_loop X (concat (map (pending_of X) (place X 12 fs))) (read_state X fs))
      (\<lambda>st. Inr (us_by_sha st))"
  unfolding unpack_pack_bytes [OF assms] Let_def read_state_def [symmetric] read_state_facts(2) ..

lemma pending_offset: "item \<in> set (pending_of X (off, f)) \<Longrightarrow> pd_offset item = off"
  by (cases f) auto

text \<open>
  What the unpacker returns for any well-formed pack of base objects and deltas is sound and
  complete for the pack's meaning: every entry is an object the pack holds, filed under that
  object's id, and every frame of the pack has its object in the result.
\<close>

theorem unpack_result_meaning:
  assumes "zlib_laws X" "frames_ok X fs" "unpack_packfile X (pack_bytes X fs trailer) = Inr m"
  shows "(\<forall>s ob. hm_get m s = Some ob \<longrightarrow> s = compute_git_sha1 X (ro_type ob) (ro_data ob) \<and>
            (\<exists>off. obj_at X (place X 12 fs) off (ro_type ob) (ro_data ob))) \<and>
         (\<forall>off f. (off, f) \<in> set (place X 12 fs) \<longrightarrow>
            (\<exists>ty d. obj_at X (place X 12 fs) off ty d \<and> compute_git_sha1 X ty d \<in> set (hm_keys m)))"
proof -
  let ?ps = "place X 12 fs"
  obtain st where run: "resolve_loop X (concat (map (pending_of X) ?ps)) (read_state X fs) = Inr st"
    and m: "m = us_by_sha st"
    using assms(3) unfolding unpack_read_state [OF assms(1,2)] by (auto simp: res_bind_Inr_iff)
  note S = resolve_loop_sound [OF run read_state_facts(1)]
  have cover: "off \<in> resolved st" if "(off, f) \<in> set ?ps" for off f
  proof (cases "pending_of X (off, f) = []")
    case True
    then show ?thesis using S read_state_facts(3) [OF that] by auto
  next
    case False
    then obtain item where "item \<in> set (pending_of X (off, f))" by (cases "pending_of X (off, f)") auto
    then have "item \<in> set (concat (map (pending_of X) ?ps))" "pd_offset item = off"
      using that pending_offset by auto
    then show ?thesis using S by auto
  qed
  have sound: "unpack_sound X ?ps st" using S by auto
  have "\<exists>ty d. obj_at X ?ps off ty d \<and> compute_git_sha1 X ty d \<in> set (hm_keys m)"
    if in_ps: "(off, f) \<in> set ?ps" for off f
  proof -
    obtain ty d s where "hm_get (us_by_offset st) off = Some (ty, d, s)"
      using cover [OF in_ps] by (auto simp: resolved_iff)
    then show ?thesis using unpack_sound_offset [OF sound] m by blast
  qed
  then show ?thesis using unpack_sound_sha [OF sound] m by blast
qed


section \<open>Completeness of the resolution\<close>

text \<open>
  A pack is meaningful when every frame denotes an object and no two different objects of it
  share an id.
\<close>

definition pack_meaningful :: "ext \<Rightarrow> pack_frame list \<Rightarrow> bool" where
  "pack_meaningful X fs \<longleftrightarrow>
     (\<forall>(off, f) \<in> set (place X 12 fs). \<exists>ty d. obj_at X (place X 12 fs) off ty d) \<and>
     (\<forall>off ty d off' ty' d'. obj_at X (place X 12 fs) off ty d \<longrightarrow> obj_at X (place X 12 fs) off' ty' d' \<longrightarrow>
        compute_git_sha1 X ty d = compute_git_sha1 X ty' d' \<longrightarrow> ty = ty' \<and> d = d')"

lemma place_lower: "(off, f) \<in> set (place X n fs) \<Longrightarrow> n \<le> off"
  by (induction fs arbitrary: n) fastforce+

lemma place_unique:
  "(off, f) \<in> set (place X n fs) \<Longrightarrow> (off, g) \<in> set (place X n fs) \<Longrightarrow> f = g"
proof (induction fs arbitrary: n)
  case (Cons h fs)
  have "0 < length (frame_bytes X h)" by simp
  then have "(n, g) \<notin> set (place X (n + length (frame_bytes X h)) fs)" for g
    using place_lower by fastforce
  then show ?case using Cons by auto
qed simp

lemma obj_at_placed: "obj_at X ps off ty d \<Longrightarrow> \<exists>f. (off, f) \<in> set ps"
  by (induction rule: obj_at.induct) auto

lemma obj_at_unique:
  assumes M: "pack_meaningful X fs" and o: "obj_at X (place X 12 fs) off ty d"
    "obj_at X (place X 12 fs) off ty' d'"
  shows "ty = ty' \<and> d = d'"
  using o
proof (induction arbitrary: ty' d' rule: obj_at.induct)
  case (base off ty d)
  from base(2,1) show ?case by (cases rule: obj_at.cases) (auto dest: place_unique)
next
  case (ofs off dist delta ty b d)
  from ofs(5) show ?case
  proof (cases rule: obj_at.cases)
    case (ofs dist' delta' b')
    then have "dist' = dist" "delta' = delta" using place_unique [OF ofs.hyps(1)] by auto
    then show ?thesis using ofs ofs.IH ofs.hyps by auto
  qed (use ofs.hyps(1) in \<open>auto dest: place_unique\<close>)
next
  case (ref off sha delta off' ty b d)
  from ref(6) show ?case
  proof (cases rule: obj_at.cases)
    case (ref sha' delta' off'' b')
    then have "sha' = sha" "delta' = delta" using place_unique [OF ref.hyps(1)] by auto
    moreover from this have "ty = ty' \<and> b = b'"
      using M ref ref.hyps unfolding pack_meaningful_def by metis
    ultimately show ?thesis using ref ref.hyps by auto
  qed (use ref.hyps(1) in \<open>auto dest: place_unique\<close>)
qed


text \<open>A base that is found is the one the pack means, so the delta applies.\<close>

lemma pending_applies:
  assumes M: "pack_meaningful X fs" and S: "unpack_sound X (place X 12 fs) st"
    and p: "p \<in> set (place X 12 fs)" "item \<in> set (pending_of X p)"
    and b: "base_info st item = Some (ty, b)"
  shows "\<exists>d. apply_git_delta b (pd_data item) = Inr d"
proof -
  obtain off f where pf: "p = (off, f)" by (cases p)
  obtain ty0 d0 where o: "obj_at X (place X 12 fs) off ty0 d0"
    using M p(1) pf unfolding pack_meaningful_def by fastforce
  show ?thesis
    using p(2)
  proof (cases rule: pending_of_cases)
    case (ofs off1 dist delta)
    then obtain s where "hm_get (us_by_offset st) (off - dist) = Some (ty, b, s)"
      using b pf by (auto simp: base_info_def)
    then have "obj_at X (place X 12 fs) (off - dist) ty b" using S unpack_sound_offset by blast
    moreover have "\<exists>b0. obj_at X (place X 12 fs) (off - dist) ty0 b0 \<and> apply_git_delta b0 delta = Inr d0"
      using o by (cases rule: obj_at.cases) (use p(1) pf ofs in \<open>auto dest: place_unique\<close>)
    ultimately show ?thesis using obj_at_unique [OF M] ofs by metis
  next
    case (ref off1 sha delta)
    then obtain ob where ob: "hm_get (us_by_sha st) (x_hex_encode X sha) = Some ob" "ty = ro_type ob" "b = ro_data ob"
      using b by (auto simp: base_info_def)
    then obtain off2 where "obj_at X (place X 12 fs) off2 ty b" "compute_git_sha1 X ty b = x_hex_encode X sha"
      using S unpack_sound_sha by metis
    moreover have "\<exists>off3 b0. obj_at X (place X 12 fs) off3 ty0 b0 \<and>
        compute_git_sha1 X ty0 b0 = x_hex_encode X sha \<and> apply_git_delta b0 delta = Inr d0"
      using o by (cases rule: obj_at.cases) (use p(1) pf ref in \<open>auto dest: place_unique\<close>)
    ultimately have "apply_git_delta b delta = Inr d0"
      using M unfolding pack_meaningful_def by metis
    then show ?thesis using ref by blast
  qed
qed

lemma base_info_mono:
  "base_info st item \<noteq> None \<Longrightarrow> base_info (add_object X off ty d st) item \<noteq> None"
  by (auto simp: base_info_def add_object_def Let_def split: option.splits)

text \<open>One pass never fails, and it resolves something if anything can be resolved.\<close>

lemma resolve_pass_total:
  assumes "pack_meaningful X fs" "unpack_sound X (place X 12 fs) st"
    "\<forall>item \<in> set items. \<exists>p \<in> set (place X 12 fs). item \<in> set (pending_of X p)"
  shows "\<exists>st' rem. resolve_pass X items st acc = Inr (st', rem) \<and>
     length rem \<le> length acc + length items \<and>
     ((\<exists>item \<in> set items. base_info st item \<noteq> None) \<longrightarrow> length rem < length acc + length items)"
  using assms(2,3)
proof (induction items arbitrary: st acc)
  case (Cons item items)
  obtain p where p: "p \<in> set (place X 12 fs)" "item \<in> set (pending_of X p)" using Cons.prems(2) by auto
  show ?case
  proof (cases "base_info st item")
    case None
    obtain st' rem where "resolve_pass X items st (acc @ [item]) = Inr (st', rem)"
      "length rem \<le> length (acc @ [item]) + length items"
      "(\<exists>i \<in> set items. base_info st i \<noteq> None) \<longrightarrow> length rem < length (acc @ [item]) + length items"
      using Cons.IH [OF Cons.prems(1), of "acc @ [item]"] Cons.prems(2) by auto
    then show ?thesis using None by (intro exI [of _ st'] exI [of _ rem]) auto
  next
    case (Some tb)
    obtain ty b where tb: "tb = (ty, b)" by (cases tb)
    obtain d where d: "apply_git_delta b (pd_data item) = Inr d"
      using pending_applies [OF assms(1) Cons.prems(1) p] Some tb by blast
    define st1 where "st1 = add_object X (pd_offset item) ty d st"
    have "unpack_sound X (place X 12 fs) st1"
      unfolding st1_def using base_info_sound [OF Cons.prems(1) p] Some tb d
      by (intro add_object_sound [OF Cons.prems(1)]) simp
    then obtain st' rem where "resolve_pass X items st1 acc = Inr (st', rem)"
      "length rem \<le> length acc + length items"
      using Cons.IH [of st1 acc] Cons.prems(2) by auto
    then show ?thesis using Some tb d by (intro exI [of _ st'] exI [of _ rem]) (simp add: st1_def)
  qed
qed simp

text \<open>As long as anything is pending, some pending delta has its base resolved.\<close>

definition covered :: "ext \<Rightarrow> pack_frame list \<Rightarrow> unpack_state \<Rightarrow> pending_delta list \<Rightarrow> bool" where
  "covered X fs st items \<longleftrightarrow>
     (\<forall>off f. (off, f) \<in> set (place X 12 fs) \<longrightarrow> off \<in> resolved st \<or>
        (\<exists>item \<in> set items. item \<in> set (pending_of X (off, f))))"

lemma some_base_available:
  assumes M: "pack_meaningful X fs" and S: "unpack_sound X (place X 12 fs) st"
    and cover: "covered X fs st items"
    and o: "obj_at X (place X 12 fs) off ty d"
    and item: "(off, f) \<in> set (place X 12 fs)" "item \<in> set items" "item \<in> set (pending_of X (off, f))"
  shows "\<exists>item \<in> set items. base_info st item \<noteq> None"
  using o item
proof (induction arbitrary: f item rule: obj_at.induct)
  case (base off ty d)
  have "f = Base_Frame ty d" using base(1,2) by (rule place_unique [rotated])
  then show ?case using base by simp
next
  case (ofs off dist delta ty b d)
  have f: "f = Ofs_Frame dist delta" using ofs(1,5) by (rule place_unique [rotated])
  obtain g where g: "(off - dist, g) \<in> set (place X 12 fs)" using obj_at_placed [OF ofs(2)] by blast
  show ?case
  proof (cases "off - dist \<in> resolved st")
    case True
    then have "hm_get (us_by_offset st) (off - dist) \<noteq> None" by (auto simp: resolved_iff)
    then show ?thesis using ofs(6,7) f by (intro bexI [of _ item]) (auto simp: base_info_def)
  next
    case False
    then show ?thesis using cover g ofs.IH unfolding covered_def by blast
  qed
next
  case (ref off sha delta off' ty b d)
  have f: "f = Ref_Frame sha delta" using ref(1,6) by (rule place_unique [rotated])
  obtain g where g: "(off', g) \<in> set (place X 12 fs)" using obj_at_placed [OF ref(2)] by blast
  show ?case
  proof (cases "off' \<in> resolved st")
    case True
    then obtain ty1 b1 s1 where e: "hm_get (us_by_offset st) off' = Some (ty1, b1, s1)"
      by (auto simp: resolved_iff)
    have "ty1 = ty \<and> b1 = b"
      using obj_at_unique [OF M _ ref(2)] unpack_sound_offset [OF S e] by blast
    then have "hm_get (us_by_sha st) (x_hex_encode X sha) \<noteq> None"
      using unpack_sound_offset [OF S e] ref(3) by (metis hm_get_None_iff)
    then show ?thesis using ref(7,8) f by (intro bexI [of _ item]) (auto simp: base_info_def)
  next
    case False
    then show ?thesis using cover g ref.IH unfolding covered_def by blast
  qed
qed

lemma resolve_loop_total:
  assumes "pack_meaningful X fs" "unpack_sound X (place X 12 fs) st"
    "\<forall>item \<in> set pending. \<exists>p \<in> set (place X 12 fs). item \<in> set (pending_of X p)"
    "covered X fs st pending"
  shows "\<exists>st'. resolve_loop X pending st = Inr st'"
  using assms
proof (induction "length pending" arbitrary: pending st rule: less_induct)
  case less
  show ?case
  proof (cases "pending = []")
    case True
    then show ?thesis by (simp add: resolve_loop.simps)
  next
    case False
    then obtain item where item: "item \<in> set pending" by (cases pending) auto
    then obtain off f where p: "(off, f) \<in> set (place X 12 fs)" "item \<in> set (pending_of X (off, f))"
      using less.prems(3) by fastforce
    obtain ty d where "obj_at X (place X 12 fs) off ty d"
      using less.prems(1) p(1) unfolding pack_meaningful_def by fastforce
    then have ex: "\<exists>item \<in> set pending. base_info st item \<noteq> None"
      using some_base_available [OF less.prems(1,2,4) _ p(1) item p(2)] by blast
    obtain st' rem where pass: "resolve_pass X pending st [] = Inr (st', rem)" and len: "length rem < length pending"
      using resolve_pass_total [OF less.prems(1-3), of "[]"] ex by auto
    note s = resolve_pass_sound [OF pass less.prems(2,3)]
    have "covered X fs st' rem"
      unfolding covered_def
    proof (intro allI impI)
      fix off f
      assume "(off, f) \<in> set (place X 12 fs)"
      then have "off \<in> resolved st \<or> (\<exists>item \<in> set pending. item \<in> set (pending_of X (off, f)))"
        using less.prems(4) unfolding covered_def by blast
      then show "off \<in> resolved st' \<or> (\<exists>item \<in> set rem. item \<in> set (pending_of X (off, f)))"
        using s pending_offset by blast
    qed
    then have "\<exists>st''. resolve_loop X rem st' = Inr st''"
      using s less.prems(3) by (intro less.hyps [OF len less.prems(1)]) auto
    then show ?thesis using False pass len by (subst resolve_loop.simps) simp
  qed
qed

text \<open>
  C5: resolving deltas always succeeds on a pack that means something, in whatever order bases
  and deltas come and however long the chains are: the unpacker returns, and the map it returns
  holds exactly the objects of the pack under their ids.
\<close>

theorem unpack_meaningful_pack:
  assumes "zlib_laws X" "frames_ok X fs" "pack_meaningful X fs"
  shows "\<exists>m. unpack_packfile X (pack_bytes X fs trailer) = Inr m \<and>
    (\<forall>s ty d. hm_get m s = Some \<lparr>ro_type = ty, ro_data = d\<rparr> \<longleftrightarrow>
       s = compute_git_sha1 X ty d \<and> (\<exists>off. obj_at X (place X 12 fs) off ty d))"
proof -
  let ?ps = "place X 12 fs"
  let ?items = "concat (map (pending_of X) ?ps)"
  have items: "\<forall>item \<in> set ?items. \<exists>p \<in> set ?ps. item \<in> set (pending_of X p)" by auto
  have "off \<in> resolved (read_state X fs) \<or> (\<exists>item \<in> set ?items. item \<in> set (pending_of X (off, f)))"
    if "(off, f) \<in> set ?ps" for off f
  proof (cases "pending_of X (off, f) = []")
    case False
    then have "hd (pending_of X (off, f)) \<in> set (pending_of X (off, f))" by simp
    with that show ?thesis by auto
  qed (use read_state_facts(3) [OF that] in simp)
  then have "covered X fs (read_state X fs) ?items" unfolding covered_def by blast
  then obtain st where run: "resolve_loop X ?items (read_state X fs) = Inr st"
    using resolve_loop_total [OF assms(3) read_state_facts(1) items] by blast
  note S = resolve_loop_sound [OF run read_state_facts(1) items]
  have res: "off \<in> resolved st" if o: "obj_at X ?ps off ty d" for off ty d
  proof -
    obtain f where f: "(off, f) \<in> set ?ps" using obj_at_placed [OF o] by blast
    show ?thesis
    proof (cases "pending_of X (off, f) = []")
      case True
      then show ?thesis using S read_state_facts(3) [OF f] by auto
    next
      case False
      then have "hd (pending_of X (off, f)) \<in> set (pending_of X (off, f))" by simp
      then show ?thesis using S f pending_offset by fastforce
    qed
  qed
  have sound: "unpack_sound X ?ps st" using S by blast
  have "hm_get (us_by_sha st) s = Some \<lparr>ro_type = ty, ro_data = d\<rparr>"
    if sha: "s = compute_git_sha1 X ty d" and o: "obj_at X ?ps off ty d" for s ty d off
  proof -
    obtain ty1 d1 s1 where e: "hm_get (us_by_offset st) off = Some (ty1, d1, s1)"
      using res [OF o] by (auto simp: resolved_iff)
    then have "obj_at X ?ps off ty1 d1" "s1 = compute_git_sha1 X ty1 d1" "s1 \<in> set (hm_keys (us_by_sha st))"
      using unpack_sound_offset [OF sound] by blast+
    moreover have "ty1 = ty \<and> d1 = d" using obj_at_unique [OF assms(3)] o calculation(1) by blast
    ultimately obtain ob where ob: "hm_get (us_by_sha st) s = Some ob"
      using sha hm_get_None_iff [of "us_by_sha st" s] by auto
    then have "s = compute_git_sha1 X (ro_type ob) (ro_data ob)" "\<exists>off. obj_at X ?ps off (ro_type ob) (ro_data ob)"
      using unpack_sound_sha [OF sound] by blast+
    then have "ro_type ob = ty \<and> ro_data ob = d"
      using assms(3) sha o unfolding pack_meaningful_def by metis
    then show ?thesis using ob by (cases ob) simp
  qed
  moreover have "unpack_packfile X (pack_bytes X fs trailer) = Inr (us_by_sha st)"
    by (simp add: unpack_read_state [OF assms(1,2)] run)
  ultimately show ?thesis using unpack_sound_sha [OF sound] by (intro exI [of _ "us_by_sha st"]) fastforce
qed



section \<open>Witnesses\<close>

text \<open>A pack of one blob and one delta against it.\<close>

definition demo_delta :: bytes where
  "demo_delta = delta_bytes [7, 8] [Copy_Op 0 2, Insert_Op [9]]"

definition demo_frames :: "pack_frame list" where
  "demo_frames = [Base_Frame Blob_Type [7, 8], Ofs_Frame 6 demo_delta]"

lemma demo_delta_eq: "demo_delta = [2, 3, 0x90, 2, 1, 9]"
  by (simp add: demo_delta_def delta_bytes_def varint_bytes_def size_bytes.simps copy_opcode_def
      copy_arg_bytes_def flag_def arg_def byte_at_def slice_def Let_def)

lemma demo_place:
  "place demo_ext 12 demo_frames = [(12, Base_Frame Blob_Type [7, 8]), (18, Ofs_Frame 6 demo_delta)]"
  by (simp add: demo_frames_def object_header_def size_bytes.simps demo_ext_def demo_deflate_def)

lemma demo_frames_ok: "frames_ok demo_ext demo_frames"
  by (simp add: frames_ok_def demo_place demo_delta_eq isize_max_def) (simp add: demo_frames_def)

lemma demo_delta_applies: "apply_git_delta [7, 8] demo_delta = Inr [7, 8, 9]"
  by (simp add: demo_delta_eq apply_git_delta_def decode_varint_def varint_loop.simps isize_max_def
      delta_loop.simps copy_args_def delta_arg_def slice_def Let_def)

lemma demo_shas:
  "compute_git_sha1 demo_ext Blob_Type [7, 8] \<noteq> compute_git_sha1 demo_ext Blob_Type [7, 8, 9]"
  unfolding compute_git_sha1_def Let_def hex_encode_inject [OF demo_hex_laws]
  by (simp add: demo_ext_def demo_sha1_def)

lemma demo_obj_at:
  "obj_at demo_ext (place demo_ext 12 demo_frames) off ty d \<longleftrightarrow>
     ty = Blob_Type \<and> (off = 12 \<and> d = [7, 8] \<or> off = 18 \<and> d = [7, 8, 9])"
proof
  assume "obj_at demo_ext (place demo_ext 12 demo_frames) off ty d"
  then show "ty = Blob_Type \<and> (off = 12 \<and> d = [7, 8] \<or> off = 18 \<and> d = [7, 8, 9])"
    by induction (auto simp: demo_place demo_delta_applies)
next
  have 1: "obj_at demo_ext (place demo_ext 12 demo_frames) 12 Blob_Type [7, 8]"
    by (rule obj_at.base) (simp add: demo_place)
  have "obj_at demo_ext (place demo_ext 12 demo_frames) 18 Blob_Type [7, 8, 9]"
    by (rule obj_at.ofs [of _ 6 demo_delta _ _ _ "[7, 8]"])
      (use 1 in \<open>simp_all add: demo_place demo_delta_applies\<close>)
  then show "ty = Blob_Type \<and> (off = 12 \<and> d = [7, 8] \<or> off = 18 \<and> d = [7, 8, 9]) \<Longrightarrow>
      obj_at demo_ext (place demo_ext 12 demo_frames) off ty d"
    using 1 by auto
qed

lemma demo_meaningful: "pack_meaningful demo_ext demo_frames"
  using demo_shas unfolding pack_meaningful_def demo_obj_at by (auto simp: demo_place)

theorem unpack_meaningful_pack_witness:
  "\<exists>m. unpack_packfile demo_ext (pack_bytes demo_ext demo_frames [1, 2]) = Inr m \<and>
     hm_get m (compute_git_sha1 demo_ext Blob_Type [7, 8, 9])
       = Some \<lparr>ro_type = Blob_Type, ro_data = [7, 8, 9]\<rparr>"
  using unpack_meaningful_pack [OF demo_zlib_laws demo_frames_ok demo_meaningful, of "[1, 2]"]
  by (auto simp: demo_obj_at)

lemma demo_unpack:
  "\<exists>m. unpack_packfile demo_ext (pack_bytes demo_ext demo_frames [1, 2]) = Inr m"
  unfolding unpack_read_state [OF demo_zlib_laws demo_frames_ok] read_state_def demo_place
  by (simp add: resolve_loop.simps add_frame.simps base_info_def add_object_def add_pending_def
      demo_delta_applies Let_def)

theorem unpack_result_meaning_witness:
  "\<exists>m. unpack_packfile demo_ext (pack_bytes demo_ext demo_frames [1, 2]) = Inr m \<and>
     compute_git_sha1 demo_ext Blob_Type [7, 8] \<in> set (hm_keys m)"
proof -
  obtain m where m: "unpack_packfile demo_ext (pack_bytes demo_ext demo_frames [1, 2]) = Inr m"
    using demo_unpack by blast
  from unpack_result_meaning [OF demo_zlib_laws demo_frames_ok m]
  have "\<exists>ty d. obj_at demo_ext (place demo_ext 12 demo_frames) 12 ty d \<and>
      compute_git_sha1 demo_ext ty d \<in> set (hm_keys m)"
    by (auto simp: demo_place)
  then show ?thesis using m by (auto simp: demo_obj_at)
qed

end
