(* ===== verification/Git_Idx.thy ===== *)
theory Git_Idx
  imports Prelude
begin

text \<open>
  Version-2 pack indexes: \<open>PackIndex::parse\<close>, \<open>find_offset\<close> and
  \<open>get_object_len_at_offset\<close> of \<^verbatim>\<open>src/src/git/idx.rs\<close>. \<open>idx_image\<close> is the file format as a
  specification: the header, the cumulative fan-out table, the sorted ids, the checksums, the
  offsets, and a table of eight-byte offsets for those that do not fit in 31 bits.
\<close>

section \<open>Parsing\<close>

record pack_index =
  pi_name :: string
  pi_fanout :: "nat list"
  pi_shas :: "bytes list"
  pi_offsets :: "nat list"
  pi_sorted :: "nat list"
  pi_pack_sha :: bytes

text \<open>The \<open>n\<close> consecutive fields of \<open>w\<close> bytes from position \<open>s\<close>.\<close>

definition chunks :: "nat \<Rightarrow> nat \<Rightarrow> nat \<Rightarrow> bytes \<Rightarrow> bytes list" where
  "chunks s w n data = map (\<lambda>i. slice (s + i * w) (s + i * w + w) data) [0..<n]"

definition idx_magic :: bytes where
  "idx_magic = [0xff, 0x74, 0x4f, 0x63]"

text \<open>The loop that fills in the large offsets, \<open>t\<close> the start of their table.\<close>

fun large_loop :: "bytes \<Rightarrow> nat \<Rightarrow> (nat \<times> nat) list \<Rightarrow> nat list \<Rightarrow> nat list result" where
  "large_loop data t [] offsets = Inr offsets"
| "large_loop data t ((obj_idx, large_idx) # ls) offsets =
     (let start = t + large_idx * 8 in
      if start + 8 > length data - 40 then Inl (E_Idx Idx_LargeOffset)
      else large_loop data t ls (offsets[obj_idx := from_be (slice start (start + 8) data)]))"

definition is_large :: "nat \<Rightarrow> bool" where
  "is_large raw \<longleftrightarrow> raw AND 0x80000000 \<noteq> 0"

definition idx_parse :: "string \<Rightarrow> bytes \<Rightarrow> pack_index result" where
  "idx_parse name data =
     (if length data < 8 + 1024 + 40 then Inl (E_Idx Idx_TooShort)
      else if slice 0 4 data \<noteq> idx_magic then Inl (E_Idx Idx_BadMagic)
      else if from_be (slice 4 8 data) \<noteq> 2 then Inl (E_Idx Idx_BadVersion)
      else
        let fanout = map from_be (chunks 8 4 256 data);
            num_objects = fanout ! 255;
            shas_start = 8 + 1024;
            shas_end = shas_start + num_objects * 20;
            offsets_start = shas_end + num_objects * 4;
            offsets_end = offsets_start + num_objects * 4
        in if length data < offsets_end + 40 then Inl (E_Idx Idx_Truncated)
           else
             let shas = chunks shas_start 20 num_objects data;
                 raw = map from_be (chunks offsets_start 4 num_objects data);
                 large = map (\<lambda>i. (i, raw ! i AND 0x7fffffff))
                   (filter (\<lambda>i. is_large (raw ! i)) [0..<num_objects])
             in res_bind (large_loop data offsets_end large
                    (map (\<lambda>r. if is_large r then 0 else r) raw)) (\<lambda>offsets.
                  Inr \<lparr>pi_name = name, pi_fanout = fanout, pi_shas = shas, pi_offsets = offsets,
                       pi_sorted = sort offsets,
                       pi_pack_sha = slice (length data - 40) (length data - 40 + 20) data\<rparr>))"

section \<open>Lookup\<close>

definition object_len_at :: "pack_index \<Rightarrow> nat \<Rightarrow> nat option" where
  "object_len_at pi offset =
     (case binary_search (pi_sorted pi) offset of
        Inr i \<Rightarrow>
          (if i + 1 < length (pi_sorted pi) then Some (pi_sorted pi ! (i + 1) - offset) else None)
      | Inl _ \<Rightarrow> None)"

definition find_offset :: "pack_index \<Rightarrow> bytes \<Rightarrow> (nat \<times> nat) option" where
  "find_offset pi sha =
     (let first_byte = unat (sha ! 0);
          low = (if first_byte = 0 then 0 else pi_fanout pi ! (first_byte - 1));
          high = pi_fanout pi ! first_byte
      in if low \<ge> high \<or> high > length (pi_shas pi) then None
         else (case binary_search (slice low high (pi_shas pi)) sha of
                 Inl _ \<Rightarrow> None
               | Inr pos \<Rightarrow>
                   (let idx = low + pos;
                        offset = pi_offsets pi ! idx;
                        len = (case binary_search (pi_sorted pi) offset of
                                 Inr i \<Rightarrow>
                                   (if i + 1 < length (pi_sorted pi)
                                    then pi_sorted pi ! (i + 1) - offset else 65536)
                               | Inl _ \<Rightarrow> 65536)
                    in Some (offset, len))))"

definition object_count :: "pack_index \<Rightarrow> nat" where
  "object_count pi = length (pi_shas pi)"

section \<open>The format\<close>

text \<open>
  The fan-out table of a list of ids: entry \<open>i\<close> counts the ids whose first byte is at most \<open>i\<close>.
\<close>

definition fanout_of :: "bytes list \<Rightarrow> nat list" where
  "fanout_of shas = map (\<lambda>i. length (filter (\<lambda>s. unat (s ! 0) \<le> i) shas)) [0..<256]"

definition too_large :: "nat \<Rightarrow> bool" where
  "too_large off \<longleftrightarrow> off > 0x7fffffff"

definition raw_offset :: "nat list \<Rightarrow> nat \<Rightarrow> nat" where
  "raw_offset offs i =
     (if too_large (offs ! i) then 0x80000000 + length (filter too_large (take i offs))
      else offs ! i)"

definition idx_image :: "bytes list \<Rightarrow> nat list \<Rightarrow> nat list \<Rightarrow> bytes \<Rightarrow> bytes \<Rightarrow> bytes" where
  "idx_image shas crcs offs pack_sha idx_sha =
     idx_magic @ to_be 4 2 @ concat (map (to_be 4) (fanout_of shas)) @ concat shas
     @ concat (map (to_be 4) crcs) @ concat (map (\<lambda>i. to_be 4 (raw_offset offs i)) [0..<length offs])
     @ concat (map (to_be 8) (filter too_large offs)) @ pack_sha @ idx_sha"

definition idx_image_ok :: "bytes list \<Rightarrow> nat list \<Rightarrow> nat list \<Rightarrow> bytes \<Rightarrow> bytes \<Rightarrow> bool" where
  "idx_image_ok shas crcs offs pack_sha idx_sha \<longleftrightarrow>
     list_all (\<lambda>s. length s = 20) shas \<and> length crcs = length shas \<and> length offs = length shas \<and>
     length shas < 2 ^ 31 \<and> list_all (\<lambda>off. off < 2 ^ 64) offs \<and>
     length pack_sha = 20 \<and> length idx_sha = 20"

lemma length_concat_const: "list_all (\<lambda>x. length x = w) xs \<Longrightarrow> length (concat xs) = length xs * w"
  by (induction xs) auto

lemma chunks_concat:
  assumes "list_all (\<lambda>x. length x = w) xs" "s = length pre" "n = length xs"
  shows "chunks s w n (pre @ concat xs @ post) = xs"
  using assms
proof (induction xs arbitrary: pre s n)
  case (Cons x xs)
  have "chunks s w (length xs + 1) (pre @ concat (x # xs) @ post)
      = slice s (s + w) (pre @ concat (x # xs) @ post)
        # chunks (length (pre @ x)) w (length xs) ((pre @ x) @ concat xs @ post)"
    using Cons.prems by (simp add: chunks_def upt_conv_Cons map_Suc_upt [symmetric] add.assoc del: upt_Suc)
  also have "slice s (s + w) (pre @ concat (x # xs) @ post) = x"
    using Cons.prems slice_mid [of pre x] by auto
  also have "chunks (length (pre @ x)) w (length xs) ((pre @ x) @ concat xs @ post) = xs"
    using Cons.prems by (intro Cons.IH) simp_all
  finally show ?case using Cons.prems(3) by simp
qed (simp add: chunks_def)

lemma is_large_iff: "raw < 2 ^ 32 \<Longrightarrow> is_large raw \<longleftrightarrow> 0x80000000 \<le> raw"
proof -
  assume "raw < 2 ^ 32"
  then have "raw div 2 ^ 31 < 2" by simp
  have "is_large raw \<longleftrightarrow> bit raw 31"
    using and_exp_eq_0_iff_not_bit [of raw 31] by (simp add: is_large_def)
  also have "\<dots> \<longleftrightarrow> odd (raw div 2 ^ 31)" by (rule bit_iff_odd)
  also have "\<dots> \<longleftrightarrow> 0x80000000 \<le> raw"
    using \<open>raw div 2 ^ 31 < 2\<close> div_greater_zero_iff [of raw "2 ^ 31"]
    by (cases "raw div 2 ^ 31 = 0") (auto simp: less_2_cases_iff)
  finally show ?thesis .
qed

lemma and_low31: "(n :: nat) AND 0x7fffffff = n mod 2 ^ 31"
  using take_bit_eq_mask [of 31 n] by (simp add: mask_eq_exp_minus_1 take_bit_eq_mod)

lemma filter_nth_count:
  assumes "i < length xs" "P (xs ! i)"
  shows "length (filter P (take i xs)) < length (filter P xs)"
    "filter P xs ! length (filter P (take i xs)) = xs ! i"
proof -
  have "xs = take i xs @ xs ! i # drop (Suc i) xs" using assms(1) by (rule id_take_nth_drop)
  then have f: "filter P xs = filter P (take i xs) @ xs ! i # filter P (drop (Suc i) xs)"
    using assms(2) by (metis filter.simps(2) filter_append)
  show "length (filter P (take i xs)) < length (filter P xs)" by (subst f) simp
  show "filter P xs ! length (filter P (take i xs)) = xs ! i" by (subst f) simp
qed

text \<open>The loop over the large offsets is a sequence of updates when all are in bounds.\<close>

lemma large_loop_updates:
  assumes "\<forall>(i, l) \<in> set ls. t + l * 8 + 8 \<le> length data - 40"
  shows "large_loop data t ls offs =
    Inr (fold (\<lambda>(i, l) os. os[i := from_be (slice (t + l * 8) (t + l * 8 + 8) data)]) ls offs)"
  using assms by (induction ls arbitrary: offs) (auto simp: Let_def)

lemma fold_updates:
  assumes "distinct (map fst ls)" "k < length offs"
  shows "length (fold (\<lambda>(i, l) os. os[i := g l]) ls offs) = length offs"
    "fold (\<lambda>(i, l) os. os[i := g l]) ls offs ! k =
     (case map_of ls k of Some l \<Rightarrow> g l | None \<Rightarrow> offs ! k)"
  using assms
proof (induction ls arbitrary: offs)
  case (Cons p ls)
  obtain i l where p: "p = (i, l)" by (cases p)
  {
    case 1
    then show ?case using Cons.IH(1) [of "offs[i := g l]"] by (simp add: p)
  next
    case 2
    then have "map_of ls i = None" by (simp add: p map_of_eq_None_iff)
    with 2 show ?case using Cons.IH(2) [of "offs[i := g l]"]
      by (auto simp: p nth_list_update split: option.splits)
  }
qed simp_all


lemma fanout_last: "fanout_of shas ! 255 = length shas"
proof -
  have "unat (s ! 0) \<le> 255" for s :: bytes using unat_u8_less [of "s ! 0"] by linarith
  then show ?thesis by (simp add: fanout_of_def)
qed

lemma length_fanout: "length (fanout_of shas) = 256"
  by (simp add: fanout_of_def)

lemma fanout_le: "i < 256 \<Longrightarrow> fanout_of shas ! i \<le> length shas"
  by (simp add: fanout_of_def)

lemma chunks_from_be:
  assumes "\<forall>x \<in> set xs. x < 256 ^ w" "s = length pre" "n = length xs"
  shows "map from_be (chunks s w n (pre @ concat (map (to_be w) xs) @ post)) = xs"
proof -
  have "chunks s w n (pre @ concat (map (to_be w) xs) @ post) = map (to_be w) xs"
    using assms(2,3) by (intro chunks_concat) (auto simp: list_all_iff)
  then show ?thesis using assms(1) by (simp add: from_to_be comp_def map_idI)
qed

lemma raw_offset_less:
  assumes "length offs < 2 ^ 31" "i < length offs"
  shows "raw_offset offs i < 256 ^ 4"
proof -
  have "length (filter too_large (take i offs)) \<le> length (take i offs)" by (rule length_filter_le)
  then show ?thesis using assms by (auto simp: raw_offset_def too_large_def)
qed

lemma raw_offset_large:
  assumes "length offs < 2 ^ 31" "i < length offs"
  shows "is_large (raw_offset offs i) \<longleftrightarrow> too_large (offs ! i)"
    "too_large (offs ! i) \<Longrightarrow> raw_offset offs i AND 0x7fffffff = length (filter too_large (take i offs))"
    "\<not> too_large (offs ! i) \<Longrightarrow> raw_offset offs i = offs ! i"
proof -
  have c: "length (filter too_large (take i offs)) < 2 ^ 31"
    using assms length_filter_le [of too_large "take i offs"] by simp
  show "is_large (raw_offset offs i) \<longleftrightarrow> too_large (offs ! i)"
    using raw_offset_less [OF assms] by (subst is_large_iff) (auto simp: raw_offset_def too_large_def)
  show "too_large (offs ! i) \<Longrightarrow> raw_offset offs i AND 0x7fffffff = length (filter too_large (take i offs))"
    using c by (simp add: and_low31 raw_offset_def)
  show "\<not> too_large (offs ! i) \<Longrightarrow> raw_offset offs i = offs ! i" by (simp add: raw_offset_def)
qed

text \<open>The offsets come back, the large ones through their table.\<close>

lemma large_loop_image:
  fixes offs :: "nat list"
  defines "n \<equiv> length offs"
  defines "raw \<equiv> map (raw_offset offs) [0..<n]"
  defines "large \<equiv> map (\<lambda>i. (i, raw ! i AND 0x7fffffff)) (filter (\<lambda>i. is_large (raw ! i)) [0..<n])"
  assumes n: "n < 2 ^ 31" and offs: "list_all (\<lambda>off. off < 2 ^ 64) offs"
    and data: "data = pre @ concat (map (to_be 8) (filter too_large offs)) @ post" "length post = 40"
  shows "large_loop data (length pre) large (map (\<lambda>r. if is_large r then 0 else r) raw) = Inr offs"
proof -
  define tab where "tab = concat (map (to_be 8) (filter too_large offs))"
  have lt: "length tab = length (filter too_large offs) * 8"
    unfolding tab_def by (subst length_concat_const [of 8]) (auto simp: list_all_iff)
  have raw: "raw ! i = raw_offset offs i" if "i < n" for i using that by (simp add: raw_def)
  note R = raw_offset_large [OF n [unfolded n_def], folded n_def]
  have c: "length (filter too_large (take i offs)) < length (filter too_large offs)"
    "filter too_large offs ! length (filter too_large (take i offs)) = offs ! i"
    if "i < n" "too_large (offs ! i)" for i
    using filter_nth_count [of i offs too_large] that by (simp_all add: n_def)
  have field: "from_be (slice (length pre + l * 8) (length pre + l * 8 + 8) data) = filter too_large offs ! l"
    if "l < length (filter too_large offs)" for l
  proof -
    have "map from_be (chunks (length pre) 8 (length (filter too_large offs)) data) = filter too_large offs"
      unfolding data(1) using offs by (intro chunks_from_be) (auto simp: list_all_iff)
    then have "map from_be (chunks (length pre) 8 (length (filter too_large offs)) data) ! l = filter too_large offs ! l"
      by simp
    then show ?thesis using that by (simp add: chunks_def)
  qed
  have bounds: "\<forall>(i, l) \<in> set large. length pre + l * 8 + 8 \<le> length data - 40"
  proof (clarify)
    fix i l
    assume "(i, l) \<in> set large"
    then have "i < n" "too_large (offs ! i)" "l = length (filter too_large (take i offs))"
      using R raw by (auto simp: large_def)
    then have "Suc l * 8 \<le> length tab" using c(1) [of i] unfolding lt by (intro mult_le_mono1) simp
    then show "length pre + l * 8 + 8 \<le> length data - 40"
      using data(2) unfolding data(1) tab_def [symmetric] by simp
  qed
  let ?offs0 = "map (\<lambda>r. if is_large r then 0 else r) raw"
  have dist: "distinct (map fst large)" by (simp add: large_def comp_def)
  have len: "length ?offs0 = n" by (simp add: raw_def)
  define g where "g = (\<lambda>l. from_be (slice (length pre + l * 8) (length pre + l * 8 + 8) data))"
  note F = fold_updates [OF dist, where g = g and offs = ?offs0, unfolded len]
  have "fold (\<lambda>(i, l) os. os[i := g l]) large ?offs0 = offs"
  proof (cases "n = 0")
    case True
    then show ?thesis by (simp add: large_def raw_def n_def)
  next
    case False
    show ?thesis
    proof (rule nth_equalityI)
      show "length (fold (\<lambda>(i, l) os. os[i := g l]) large ?offs0) = length offs"
        using F(1) [of 0] False by (simp add: n_def)
      fix i
      assume "i < length (fold (\<lambda>(i, l) os. os[i := g l]) large ?offs0)"
      then have i: "i < n" using F(1) [of 0] False by simp
      have m: "map_of large i = (if is_large (raw ! i) then Some (raw ! i AND 0x7fffffff) else None)"
        using i unfolding large_def by (simp add: map_of_map_restrict restrict_map_def)
      show "fold (\<lambda>(i, l) os. os[i := g l]) large ?offs0 ! i = offs ! i"
      proof (cases "too_large (offs ! i)")
        case True
        then have "fold (\<lambda>(i, l) os. os[i := g l]) large ?offs0 ! i
            = g (length (filter too_large (take i offs)))"
          using F(2) [OF i] m R [OF i] raw [OF i] by simp
        then show ?thesis using field [OF c(1) [OF i True]] c(2) [OF i True] by (simp add: g_def)
      next
        case False
        then show ?thesis using F(2) [OF i] m R [OF i] raw [OF i] i by (simp add: raw_def)
      qed
    qed
  qed
  then show ?thesis unfolding large_loop_updates [OF bounds] g_def by simp
qed


section \<open>Correctness\<close>

definition index_of :: "string \<Rightarrow> bytes list \<Rightarrow> nat list \<Rightarrow> bytes \<Rightarrow> pack_index" where
  "index_of name shas offs pack_sha =
     \<lparr>pi_name = name, pi_fanout = fanout_of shas, pi_shas = shas, pi_offsets = offs,
      pi_sorted = sort offs, pi_pack_sha = pack_sha\<rparr>"

lemma idx_parse_image:
  assumes "idx_image_ok shas crcs offs pack_sha idx_sha"
  shows "idx_parse name (idx_image shas crcs offs pack_sha idx_sha) = Inr (index_of name shas offs pack_sha)"
proof -
  define n where "n = length shas"
  define raw where "raw = map (raw_offset offs) [0..<n]"
  define F where "F = concat (map (to_be 4) (fanout_of shas))"
  define S where "S = concat shas"
  define C where "C = concat (map (to_be 4) crcs)"
  define R where "R = concat (map (to_be 4) raw)"
  define L where "L = concat (map (to_be 8) (filter too_large offs))"
  have ok: "list_all (\<lambda>s. length s = 20) shas" "length crcs = n" "length offs = n" "n < 2 ^ 31"
    "list_all (\<lambda>off. off < 2 ^ 64) offs" "length pack_sha = 20" "length idx_sha = 20"
    using assms by (simp_all add: idx_image_ok_def n_def)
  have lm: "length idx_magic = 4" by (simp add: idx_magic_def)
  have lens: "length F = 1024" "length S = n * 20" "length C = n * 4" "length R = n * 4"
    unfolding F_def S_def C_def R_def
    using ok by (subst length_concat_const [of 4] length_concat_const [of 20];
        simp add: list_all_iff fanout_of_def raw_def n_def)+
  define data where "data = idx_magic @ to_be 4 2 @ F @ S @ C @ R @ L @ pack_sha @ idx_sha"
  have img: "idx_image shas crcs offs pack_sha idx_sha = data"
    using ok(3) by (simp add: idx_image_def data_def F_def S_def C_def R_def L_def raw_def comp_def)
  have len: "length data = 8 + 1024 + n * 20 + n * 4 + n * 4 + length L + 40"
    using ok(6,7) lens lm by (simp add: data_def)
  have magic: "slice 0 4 data = idx_magic" using slice_prefix [of idx_magic] by (simp add: data_def lm)
  have ver: "from_be (slice 4 8 data) = 2"
    using slice_mid [of idx_magic "to_be 4 2"] by (simp add: data_def lm from_to_be)
  have fan: "map from_be (chunks 8 4 256 data) = fanout_of shas"
  proof -
    have "fanout_of shas ! i < 256 ^ 4" if "i < 256" for i
      using fanout_le [OF that, of shas] ok(4) by (simp add: n_def)
    then have "\<forall>x \<in> set (fanout_of shas). x < 256 ^ 4" by (auto simp: in_set_conv_nth length_fanout)
    then have "map from_be (chunks 8 4 256 ((idx_magic @ to_be 4 2) @ F @ S @ C @ R @ L @ pack_sha @ idx_sha))
        = fanout_of shas"
      unfolding F_def by (rule chunks_from_be) (simp_all only: length_append lm length_to_be length_fanout)
    then show ?thesis by (simp only: data_def append_assoc)
  qed
  have shas: "chunks (8 + 1024) 20 n data = shas"
    using chunks_concat [OF ok(1), of "8 + 1024" "idx_magic @ to_be 4 2 @ F" n] lm lens
    by (simp add: data_def S_def n_def)
  have raws: "map from_be (chunks (8 + 1024 + n * 20 + n * 4) 4 n data) = raw"
  proof -
    have "\<forall>x \<in> set raw. x < 256 ^ 4" using raw_offset_less [of offs] ok(3,4) by (auto simp: raw_def)
    then have "map from_be (chunks (8 + 1024 + n * 20 + n * 4) 4 n
        ((idx_magic @ to_be 4 2 @ F @ S @ C) @ R @ L @ pack_sha @ idx_sha)) = raw"
      unfolding R_def by (rule chunks_from_be) (simp_all add: lm lens raw_def)
    then show ?thesis by (simp only: data_def append_assoc)
  qed
  have large: "large_loop data (8 + 1024 + n * 20 + n * 4 + n * 4)
      (map (\<lambda>i. (i, raw ! i AND 0x7fffffff)) (filter (\<lambda>i. is_large (raw ! i)) [0..<n]))
      (map (\<lambda>r. if is_large r then 0 else r) raw) = Inr offs"
  proof -
    define pre where "pre = idx_magic @ to_be 4 2 @ F @ S @ C @ R"
    have lp: "8 + 1024 + n * 20 + n * 4 + n * 4 = length pre" by (simp add: pre_def lm lens)
    have "data = pre @ concat (map (to_be 8) (filter too_large offs)) @ pack_sha @ idx_sha"
      by (simp only: data_def L_def pre_def append_assoc)
    then show ?thesis
      unfolding lp raw_def unfolding ok(3) [symmetric]
      by (rule large_loop_image [rotated 2]) (use ok in \<open>simp_all only: length_append\<close>)
  qed
  have psha: "slice (length data - 40) (length data - 40 + 20) data = pack_sha"
    using slice_mid [of "idx_magic @ to_be 4 2 @ F @ S @ C @ R @ L" pack_sha idx_sha] ok(6,7) lens lm
    by (simp add: data_def)
  have num: "fanout_of shas ! 255 = n" by (simp add: fanout_last n_def)
  have c1: "\<not> length data < 8 + 1024 + 40" and c2: "\<not> length data < 8 + 1024 + n * 20 + n * 4 + n * 4 + 40"
    using len by simp_all
  show ?thesis
    unfolding img idx_parse_def Let_def fan num raws shas
    by (simp only: c1 c2 magic ver if_False if_True simp_thms large res_bind_simps psha index_of_def)
qed

text \<open>Ids sorted: the ids with a given first byte are the slice the fan-out table gives.\<close>

lemma sorted_hd_mono:
  assumes "sorted shas" "i \<le> j" "j < length shas" "list_all (\<lambda>s. length s = 20) shas"
  shows "shas ! i ! 0 \<le> shas ! j ! 0"
proof -
  have "shas ! i \<le> shas ! j" using assms by (simp add: sorted_nth_mono)
  moreover have "length (shas ! i) = Suc 19" "length (shas ! j) = Suc 19"
    using assms by (auto simp: list_all_length)
  then obtain a as b bs where "shas ! i = a # as" "shas ! j = b # bs"
    by (cases "shas ! i"; cases "shas ! j") auto
  ultimately show ?thesis by (auto simp: Cons_le_Cons)
qed

lemma sorted_count_prefix:
  assumes "\<And>i j. i \<le> j \<Longrightarrow> j < length xs \<Longrightarrow> P (xs ! j) \<Longrightarrow> P (xs ! i)" "k < length xs"
  shows "k < length (filter P xs) \<longleftrightarrow> P (xs ! k)"
  using assms
proof (induction xs arbitrary: k)
  case (Cons x xs)
  show ?case
  proof (cases "P x")
    case True
    have mono: "P (xs ! i)" if "i \<le> j" "j < length xs" "P (xs ! j)" for i j
      using Cons.prems(1) [of "Suc i" "Suc j"] that by simp
    show ?thesis using Cons.IH [OF mono] Cons.prems(2) True by (cases k) auto
  next
    case False
    have "\<not> P ((x # xs) ! j)" if "j < length (x # xs)" for j
      using Cons.prems(1) [of 0 j] that False by auto
    moreover from this have "\<forall>y \<in> set (x # xs). \<not> P y" by (metis in_set_conv_nth)
    then have "filter P (x # xs) = []" by (simp only: filter_empty_conv) 
    ultimately show ?thesis using Cons.prems(2) by (simp only: list.size) simp
  qed
qed simp

text \<open>
  Lookup in the index of sorted ids finds exactly the ids that are there.
\<close>

lemma find_offset_index:
  assumes shas: "sorted shas" "list_all (\<lambda>s. length s = 20) shas" and sha: "length sha = 20"
    and offs: "length offs = length shas"
  shows "sha \<notin> set shas \<Longrightarrow> find_offset (index_of name shas offs psha) sha = None"
    "sha \<in> set shas \<Longrightarrow> \<exists>i < length shas. shas ! i = sha \<and>
       find_offset (index_of name shas offs psha) sha =
         Some (offs ! i, case object_len_at (index_of name shas offs psha) (offs ! i) of
            Some l \<Rightarrow> l | None \<Rightarrow> 65536)"
proof -
  let ?pi = "index_of name shas offs psha"
  define fb where "fb = unat (sha ! 0)"
  have fb: "fb < 256" by (simp add: fb_def)
  define low where "low = (if fb = 0 then 0 else fanout_of shas ! (fb - 1))"
  define high where "high = fanout_of shas ! fb"
  have high: "high \<le> length shas" using fanout_le fb by (simp add: high_def)
  have cnt: "k < fanout_of shas ! b \<longleftrightarrow> unat (shas ! k ! 0) \<le> b" if "k < length shas" "b < 256" for k b
    using sorted_count_prefix [of shas "\<lambda>s. unat (s ! 0) \<le> b" k] that
      sorted_hd_mono [OF shas(1) _ _ shas(2)]
    by (auto simp: fanout_of_def word_le_nat_alt dest: order_trans)
  have range: "low \<le> k \<and> k < high \<longleftrightarrow> unat (shas ! k ! 0) = fb" if "k < length shas" for k
  proof (cases "fb = 0")
    case True
    then show ?thesis using cnt [OF that fb] by (simp add: low_def high_def)
  next
    case False
    then have "fb - 1 < 256" using fb by simp
    then have "\<not> k < low \<longleftrightarrow> \<not> unat (shas ! k ! 0) \<le> fb - 1"
      using cnt [OF that] False by (simp add: low_def)
    moreover have "k < high \<longleftrightarrow> unat (shas ! k ! 0) \<le> fb" using cnt [OF that fb] by (simp add: high_def)
    ultimately show ?thesis using False by linarith
  qed
  define sl where "sl = slice low high shas"
  have lsl: "length sl = high - low" using high by (simp add: sl_def)
  have nth: "sl ! k = shas ! (low + k)" if "k < high - low" for k
    using that high by (simp add: sl_def slice_def)
  have ssl: "sorted sl" unfolding sl_def slice_def using shas(1) by (intro sorted_wrt_take sorted_wrt_drop)
  have mem: "sha \<in> set sl \<longleftrightarrow> sha \<in> set shas"
  proof
    assume "sha \<in> set shas"
    then obtain k where k: "k < length shas" "shas ! k = sha" by (auto simp: in_set_conv_nth)
    then have "low \<le> k" "k < high" using range [of k] by (auto simp: fb_def)
    then have "sl ! (k - low) = sha" "k - low < length sl" using nth [of "k - low"] k lsl by auto
    then show "sha \<in> set sl" by (auto simp: in_set_conv_nth)
  next
    assume "sha \<in> set sl"
    then show "sha \<in> set shas"
      unfolding sl_def slice_def by (meson in_set_takeD in_set_dropD)
  qed
  have find: "find_offset ?pi sha =
     (if low \<ge> high then None
      else (case binary_search sl sha of
              Inl _ \<Rightarrow> None
            | Inr pos \<Rightarrow> Some (offs ! (low + pos),
                case object_len_at ?pi (offs ! (low + pos)) of Some l \<Rightarrow> l | None \<Rightarrow> 65536)))"
  proof -
    have pi: "pi_fanout ?pi = fanout_of shas" "pi_shas ?pi = shas" "pi_offsets ?pi = offs"
      by (simp_all add: index_of_def)
    have "(low \<ge> high \<or> high > length shas) = (low \<ge> high)" using high by auto
    then show ?thesis
      unfolding find_offset_def object_len_at_def Let_def pi fb_def [symmetric] low_def [symmetric]
        high_def [symmetric] sl_def [symmetric]
      by (cases "binary_search sl sha") (auto split: sum.split)
  qed
  show "sha \<notin> set shas \<Longrightarrow> find_offset ?pi sha = None"
  proof -
    assume "sha \<notin> set shas"
    then have "binary_search sl sha \<noteq> Inr pos" for pos
      using binary_search_Inr [of sl sha pos] mem by (metis nth_mem)
    then show ?thesis unfolding find by (auto split: sum.splits)
  qed
  show "\<exists>i < length shas. shas ! i = sha \<and> find_offset ?pi sha =
      Some (offs ! i, case object_len_at ?pi (offs ! i) of Some l \<Rightarrow> l | None \<Rightarrow> 65536)"
    if sha_in: "sha \<in> set shas"
  proof -
    obtain pos where pos: "binary_search sl sha = Inr pos"
      using binary_search_complete [OF ssl] sha_in mem by blast
    then have b: "pos < high - low" "shas ! (low + pos) = sha"
      using binary_search_Inr [OF pos] lsl nth by auto
    then show ?thesis
      using pos high by (intro exI [of _ "low + pos"]) (auto simp: find)
  qed
qed


text \<open>The length the lookup gives: the distance to the next object of the pack.\<close>

definition len_to_next :: "nat list \<Rightarrow> nat \<Rightarrow> nat option" where
  "len_to_next offs off =
     (let later = filter (\<lambda>x. off < x) offs in if later = [] then None else Some (Min (set later) - off))"

lemma object_len_next:
  assumes "off \<in> set offs"
  shows "object_len_at (index_of name shas offs psha) off = len_to_next offs off"
proof -
  define xs where "xs = sort offs"
  have xs: "sorted xs" "set xs = set offs" by (simp_all add: xs_def)
  then obtain i where i: "binary_search xs off = Inr i" using binary_search_complete assms by metis
  note b = binary_search_Inr [OF i] and last = binary_search_last [OF xs(1) i]
  have later: "set (filter (\<lambda>x. off < x) offs) = {xs ! j | j. i < j \<and> j < length xs}"
  proof -
    have "x \<in> set xs \<and> off < x \<longleftrightarrow> (\<exists>j. x = xs ! j \<and> i < j \<and> j < length xs)" for x
    proof
      assume x: "x \<in> set xs \<and> off < x"
      then obtain j where j: "j < length xs" "xs ! j = x" by (auto simp: in_set_conv_nth)
      then have "\<not> j \<le> i" using x b sorted_nth_mono [OF xs(1), of j i] by auto
      with j show "\<exists>j. x = xs ! j \<and> i < j \<and> j < length xs" by auto
    qed (use last in auto)
    then show ?thesis using xs(2) by auto
  qed
  have op: "object_len_at (index_of name shas offs psha) off
      = (if i + 1 < length xs then Some (xs ! (i + 1) - off) else None)"
    using i by (simp add: object_len_at_def index_of_def xs_def)
  show ?thesis
  proof (cases "i + 1 < length xs")
    case True
    have "xs ! (i + 1) \<in> {xs ! j | j. i < j \<and> j < length xs}" using True by auto
    moreover have "xs ! (i + 1) \<le> x" if "x \<in> {xs ! j | j. i < j \<and> j < length xs}" for x
      using that sorted_nth_mono [OF xs(1), of "i + 1"] by auto
    ultimately have "Min (set (filter (\<lambda>x. off < x) offs)) = xs ! (i + 1)"
      "filter (\<lambda>x. off < x) offs \<noteq> []"
      unfolding later by (auto intro!: Min_eqI simp: later [symmetric] simp flip: set_empty)
    then show ?thesis using True op by (simp add: len_to_next_def Let_def)
  next
    case False
    then have "set (filter (\<lambda>x. off < x) offs) = {}" unfolding later by auto
    then have "filter (\<lambda>x. off < x) offs = []" by (simp only: set_empty)
    then show ?thesis using False op by (simp add: len_to_next_def Let_def)
  qed
qed

lemma index_finds:
  assumes "idx_image_ok shas crcs offs pack_sha idx_sha" "sorted shas" "distinct shas" "i < length shas"
  shows "find_offset (index_of name shas offs pack_sha) (shas ! i) =
      Some (offs ! i, case len_to_next offs (offs ! i) of Some l \<Rightarrow> l | None \<Rightarrow> 65536)"
proof -
  have ok: "list_all (\<lambda>s. length s = 20) shas" "length offs = length shas"
    using assms(1) by (simp_all add: idx_image_ok_def)
  have "length (shas ! i) = 20" using ok(1) assms(4) by (simp add: list_all_length)
  from find_offset_index(2) [OF assms(2) ok(1) this ok(2), of name pack_sha] assms(4)
  obtain j where "j < length shas" "shas ! j = shas ! i"
    "find_offset (index_of name shas offs pack_sha) (shas ! i) = Some (offs ! j,
       case object_len_at (index_of name shas offs pack_sha) (offs ! j) of Some l \<Rightarrow> l | None \<Rightarrow> 65536)"
    by auto
  moreover from this have "j = i" using assms(3,4) nth_eq_iff_index_eq by blast
  moreover have "offs ! i \<in> set offs" using ok(2) assms(4) by simp
  ultimately show ?thesis by (simp add: object_len_next)
qed

text \<open>
  C17: parsing an index file of the version-2 format and looking up an object in it gives the
  offset the file stores for it, through the table of large offsets where it has to, and a length
  that reaches exactly to the next object of the pack (64 KiB for the last one).
\<close>

theorem parsed_index_finds:
  assumes "idx_image_ok shas crcs offs pack_sha idx_sha" "sorted shas" "distinct shas" "i < length shas"
  shows "\<exists>pi. idx_parse name (idx_image shas crcs offs pack_sha idx_sha) = Inr pi \<and>
    find_offset pi (shas ! i) =
      Some (offs ! i, case len_to_next offs (offs ! i) of Some l \<Rightarrow> l | None \<Rightarrow> 65536)"
  unfolding idx_parse_image [OF assms(1)] using index_finds [OF assms] by blast

text \<open>An id that the index file does not list is not found.\<close>

theorem parsed_index_absent:
  assumes "idx_image_ok shas crcs offs pack_sha idx_sha" "sorted shas" "length sha = 20" "sha \<notin> set shas"
  shows "\<exists>pi. idx_parse name (idx_image shas crcs offs pack_sha idx_sha) = Inr pi \<and>
    find_offset pi sha = None"
proof -
  have ok: "list_all (\<lambda>s. length s = 20) shas" "length offs = length shas"
    using assms(1) by (simp_all add: idx_image_ok_def)
  show ?thesis
    unfolding idx_parse_image [OF assms(1)]
    using find_offset_index(1) [OF assms(2) ok(1) assms(3) ok(2) assms(4)] by blast
qed

text \<open>Two objects, one of them beyond 4 GiB.\<close>

definition demo_shas :: "bytes list" where
  "demo_shas = [replicate 20 1, replicate 20 2]"

lemma demo_index_ok:
  "idx_image_ok demo_shas [1, 2] [5000000000, 12] (replicate 20 7) (replicate 20 8)"
  by (simp add: idx_image_ok_def demo_shas_def)

lemma demo_shas_sorted: "sorted demo_shas" "distinct demo_shas" "replicate 20 3 \<notin> set demo_shas"
  by (simp_all add: demo_shas_def eval_nat_numeral)

theorem parsed_index_finds_witness:
  "\<exists>pi. idx_parse ''p'' (idx_image demo_shas [1, 2] [5000000000, 12] (replicate 20 7) (replicate 20 8)) = Inr pi \<and>
     find_offset pi (demo_shas ! 1) = Some (12, 4999999988)"
  using parsed_index_finds [OF demo_index_ok demo_shas_sorted(1,2), of 1 "''p''"]
  by (simp add: demo_shas_def len_to_next_def)

theorem parsed_index_absent_witness:
  "\<exists>pi. idx_parse ''p'' (idx_image demo_shas [1, 2] [5000000000, 12] (replicate 20 7) (replicate 20 8)) = Inr pi \<and>
     find_offset pi (replicate 20 3) = None"
  by (rule parsed_index_absent [OF demo_index_ok demo_shas_sorted(1) _ demo_shas_sorted(3)]) simp

end
