(* ===== verification/Pack_Writer.thy ===== *)
theory Pack_Writer
  imports Git_Pack Git_Idx
begin

text \<open>
  The pack writer: \<^verbatim>\<open>src/src/git/pack_writer.rs\<close>, over the objects \<open>GitObjectToPack\<close> of
  \<^verbatim>\<open>src/src/git/builder.rs\<close>. The written pack is related to \<open>pack_bytes\<close> of Git_Pack and the
  written index to \<open>idx_image\<close> of Git_Idx, which gives the round trips through both readers.
\<close>

section \<open>The packfile\<close>

record git_object_to_pack =
  gp_oid :: string
  gp_type :: object_type
  gp_data :: bytes

record object_entry =
  oe_oid :: bytes
  oe_offset :: nat
  oe_crc :: nat

fun pack_loop ::
  "ext \<Rightarrow> git_object_to_pack list \<Rightarrow> bytes \<Rightarrow> object_entry list \<Rightarrow> (bytes \<times> object_entry list) result" where
  "pack_loop X [] pack entries = Inr (pack, entries)"
| "pack_loop X (ob # obs) pack entries =
     (let hdr = object_header (gp_type ob) (length (gp_data ob));
          compressed = x_deflate X (gp_data ob);
          crc = x_crc32 X (hdr @ compressed)
      in case x_hex_decode X (gp_oid ob) of
           None \<Rightarrow> Inl (E_Writer Writer_BadHex)
         | Some oid_bytes \<Rightarrow>
             pack_loop X obs (pack @ hdr @ compressed)
               (entries @ [\<lparr>oe_oid = oid_bytes, oe_offset = length pack, oe_crc = crc\<rparr>]))"

definition create_pack_data ::
  "ext \<Rightarrow> git_object_to_pack list \<Rightarrow> (bytes \<times> object_entry list \<times> bytes) result" where
  "create_pack_data X objects =
     res_bind (pack_loop X objects (pack_magic @ to_be 4 2 @ to_be 4 (length objects)) []) (\<lambda>(pack, entries).
       (let pack_sha = x_sha1 X pack in Inr (pack @ pack_sha, entries, pack_sha)))"

section \<open>The index\<close>

definition fanout_counts :: "object_entry list \<Rightarrow> nat list" where
  "fanout_counts entries =
     fold (\<lambda>e f. f[unat (oe_oid e ! 0) := f ! unat (oe_oid e ! 0) + 1]) entries (replicate 256 0)"

fun cumulate :: "nat \<Rightarrow> nat list \<Rightarrow> nat list" where
  "cumulate cum [] = []"
| "cumulate cum (c # cs) = (cum + c) # cumulate (cum + c) cs"

definition create_idx_v2_data :: "ext \<Rightarrow> object_entry list \<Rightarrow> bytes \<Rightarrow> bytes result" where
  "create_idx_v2_data X entries0 pack_sha =
     (let entries = sort_key oe_oid entries0 in
      if list_ex (\<lambda>e. oe_oid e = []) entries then Inl Panic
      else if list_ex (\<lambda>e. oe_offset e > 0x7fffffff) entries then Inl (E_Writer Writer_LargeOffset)
      else
        let idx = idx_magic @ to_be 4 2
              @ concat (map (to_be 4) (cumulate 0 (fanout_counts entries)))
              @ concat (map oe_oid entries)
              @ concat (map (\<lambda>e. to_be 4 (oe_crc e)) entries)
              @ concat (map (\<lambda>e. to_be 4 (oe_offset e)) entries)
              @ pack_sha
        in Inr (idx @ x_sha1 X idx))"

definition create_pack_and_index_bytes ::
  "ext \<Rightarrow> git_object_to_pack list \<Rightarrow> (bytes \<times> bytes \<times> string) result" where
  "create_pack_and_index_bytes X objects =
     res_bind (create_pack_data X objects) (\<lambda>(pack, entries, pack_sha).
     res_bind (create_idx_v2_data X entries pack_sha) (\<lambda>idx.
       Inr (pack, idx, x_hex_encode X pack_sha)))"

section \<open>The pack that is written\<close>

definition frame_of :: "git_object_to_pack \<Rightarrow> pack_frame" where
  "frame_of ob = Base_Frame (gp_type ob) (gp_data ob)"

text \<open>Objects filed under their own id, as the tree builder makes them.\<close>

definition object_ok :: "ext \<Rightarrow> git_object_to_pack \<Rightarrow> bool" where
  "object_ok X ob \<longleftrightarrow>
     gp_type ob \<in> {Commit_Type, Tree_Type, Blob_Type, Tag_Type} \<and>
     length (gp_data ob) \<le> isize_max \<and> gp_oid ob = compute_git_sha1 X (gp_type ob) (gp_data ob)"

definition object_sha :: "ext \<Rightarrow> git_object_to_pack \<Rightarrow> bytes" where
  "object_sha X ob =
     x_sha1 X (str_bytes (type_str (gp_type ob) @ '' '' @ to_radix 10 (length (gp_data ob)) @ [CHR 0x00]) @ gp_data ob)"

definition entry_of :: "ext \<Rightarrow> nat \<Rightarrow> git_object_to_pack \<Rightarrow> object_entry" where
  "entry_of X off ob =
     \<lparr>oe_oid = object_sha X ob, oe_offset = off, oe_crc = x_crc32 X (frame_bytes X (frame_of ob))\<rparr>"

fun entries_of :: "ext \<Rightarrow> nat \<Rightarrow> git_object_to_pack list \<Rightarrow> object_entry list" where
  "entries_of X off [] = []"
| "entries_of X off (ob # obs) =
     entry_of X off ob # entries_of X (off + length (frame_bytes X (frame_of ob))) obs"

lemma object_oid: "object_ok X ob \<Longrightarrow> gp_oid ob = x_hex_encode X (object_sha X ob)"
  by (simp add: object_ok_def object_sha_def compute_git_sha1_def Let_def)

lemma pack_loop_ok:
  assumes "hex_laws X" "list_all (object_ok X) obs"
  shows "pack_loop X obs pack entries =
     Inr (pack @ concat (map (\<lambda>ob. frame_bytes X (frame_of ob)) obs),
          entries @ entries_of X (length pack) obs)"
  using assms(2)
proof (induction obs arbitrary: pack entries)
  case (Cons ob obs)
  have "x_hex_decode X (gp_oid ob) = Some (object_sha X ob)"
    using Cons.prems object_oid [of X ob] assms(1) by simp
  then show ?case
    using Cons by (simp add: Let_def entry_of_def frame_of_def)
qed simp

lemma create_pack_data_ok:
  assumes "hex_laws X" "list_all (object_ok X) obs"
  shows "\<exists>sha. create_pack_data X obs = Inr (pack_bytes X (map frame_of obs) sha, entries_of X 12 obs, sha) \<and>
    (\<exists>d. sha = x_sha1 X d)"
proof -
  define hdr where "hdr = pack_magic @ to_be 4 2 @ to_be 4 (length obs)"
  have "length hdr = 12" by (simp add: hdr_def pack_magic_def)
  then show ?thesis
    using pack_loop_ok [OF assms, of hdr "[]"]
    by (simp add: create_pack_data_def hdr_def [symmetric] Let_def pack_bytes_def comp_def)
      (auto simp: hdr_def)
qed

lemma place_base:
  "place X off (map frame_of obs) = zip (map oe_offset (entries_of X off obs)) (map frame_of obs)"
  by (induction obs arbitrary: off) (auto simp: entry_of_def)

lemma length_entries_of [simp]: "length (entries_of X off obs) = length obs"
  by (induction obs arbitrary: off) auto

lemma frames_ok_base:
  assumes "list_all (object_ok X) obs" "length obs < 2 ^ 32"
  shows "frames_ok X (map frame_of obs)"
proof -
  have "list_all (\<lambda>(off, f). frame_ok off f) (place X off (map frame_of obs))" for off
    using assms(1) by (induction obs arbitrary: off) (auto simp: frame_of_def object_ok_def)
  then show ?thesis using assms(2) by (simp add: frames_ok_def)
qed

text \<open>Reading back a pack of base objects: the loop only adds objects, nothing is pending.\<close>

definition raw_of :: "git_object_to_pack \<Rightarrow> git_raw_object" where
  "raw_of ob = \<lparr>ro_type = gp_type ob, ro_data = gp_data ob\<rparr>"

lemma add_base_frames:
  assumes "list_all (object_ok X) obs" "us_pending st = []"
  shows "us_pending (fold (add_frame X) (place X off (map frame_of obs)) st) = [] \<and>
    us_by_sha (fold (add_frame X) (place X off (map frame_of obs)) st)
    = fold (\<lambda>ob m. hm_put (gp_oid ob) (raw_of ob) m) obs (us_by_sha st)"
  using assms
proof (induction obs arbitrary: st off)
  case (Cons ob obs)
  have "gp_oid ob = compute_git_sha1 X (gp_type ob) (gp_data ob)" using Cons.prems(1) by (simp add: object_ok_def)
  then have "us_by_sha (add_frame X (off, frame_of ob) st) = hm_put (gp_oid ob) (raw_of ob) (us_by_sha st)"
    "us_pending (add_frame X (off, frame_of ob) st) = []"
    using Cons.prems(2) by (simp_all add: add_frame.simps frame_of_def add_object_def Let_def raw_of_def)
  then show ?case using Cons by simp
qed simp

lemma fold_put_get:
  "distinct (map k xs) \<Longrightarrow> x \<in> set xs \<Longrightarrow>
   hm_get (fold (\<lambda>x m. hm_put (k x) (v x) m) xs m) (k x) = Some (v x)"
proof (induction xs arbitrary: m)
  case (Cons y ys)
  have keep: "k x \<notin> set (map k ys) \<Longrightarrow>
      hm_get (fold (\<lambda>x m. hm_put (k x) (v x) m) ys m) (k x) = hm_get m (k x)" for m
    by (induction ys arbitrary: m) auto
  show ?case
  proof (cases "x = y")
    case True
    then show ?thesis using Cons.prems keep by simp
  next
    case False
    then show ?thesis using Cons by simp
  qed
qed simp

lemma fold_put_keys:
  "hm_get (fold (\<lambda>x m. hm_put (k x) (v x) m) xs m) y = Some w \<Longrightarrow>
   (\<exists>x \<in> set xs. y = k x \<and> w = v x) \<or> hm_get m y = Some w"
  by (induction xs arbitrary: m) (fastforce split: if_splits)+

text \<open>
  C15: a pack written by the program unpacks to exactly the objects that were written: each is
  found under its id with its type and data, and there is nothing else.
\<close>

theorem written_pack_unpacks:
  assumes "zlib_laws X" "hex_laws X" "list_all (object_ok X) obs" "length obs < 2 ^ 32"
    "distinct (map gp_oid obs)"
  shows "\<exists>pack entries sha m. create_pack_data X obs = Inr (pack, entries, sha) \<and>
    unpack_packfile X pack = Inr m \<and>
    (\<forall>oid raw. hm_get m oid = Some raw \<longleftrightarrow> (\<exists>ob \<in> set obs. oid = gp_oid ob \<and> raw = raw_of ob))"
proof -
  define m where "m = fold (\<lambda>ob m. hm_put (gp_oid ob) (raw_of ob) m) obs []"
  obtain sha where c: "create_pack_data X obs = Inr (pack_bytes X (map frame_of obs) sha, entries_of X 12 obs, sha)"
    using create_pack_data_ok [OF assms(2,3)] by blast
  have "unpack_packfile X (pack_bytes X (map frame_of obs) sha) = Inr m"
    unfolding unpack_pack_bytes [OF assms(1) frames_ok_base [OF assms(3,4)]]
    using add_base_frames [OF assms(3), of start_state 12] by (simp add: resolve_loop.simps m_def)
  moreover have "hm_get m oid = Some raw \<longleftrightarrow> (\<exists>ob \<in> set obs. oid = gp_oid ob \<and> raw = raw_of ob)" for oid raw
    unfolding m_def using fold_put_keys [of gp_oid raw_of obs "[]" oid raw] fold_put_get [OF assms(5), of _ raw_of "[]"]
    by auto
  ultimately show ?thesis using c by blast
qed


definition demo_object :: git_object_to_pack where
  "demo_object = \<lparr>gp_oid = compute_git_sha1 demo_ext Blob_Type [104, 105], gp_type = Blob_Type,
     gp_data = [104, 105]\<rparr>"

lemma demo_object_ok: "list_all (object_ok demo_ext) [demo_object]"
  by (simp add: object_ok_def demo_object_def isize_max_def)

theorem written_pack_unpacks_witness:
  "\<exists>pack entries sha m. create_pack_data demo_ext [demo_object] = Inr (pack, entries, sha) \<and>
     unpack_packfile demo_ext pack = Inr m \<and> hm_get m (gp_oid demo_object) = Some (raw_of demo_object)"
proof -
  obtain pack entries sha m where r: "create_pack_data demo_ext [demo_object] = Inr (pack, entries, sha)"
    "unpack_packfile demo_ext pack = Inr m"
    "\<forall>oid raw. hm_get m oid = Some raw \<longleftrightarrow> (\<exists>ob \<in> set [demo_object]. oid = gp_oid ob \<and> raw = raw_of ob)"
    using written_pack_unpacks [OF demo_zlib_laws demo_hex_laws demo_object_ok] by auto
  then have "hm_get m (gp_oid demo_object) = Some (raw_of demo_object)" by simp
  with r show ?thesis by blast
qed

section \<open>The index that is written\<close>

lemma fanout_counts_nth:
  assumes "i < 256"
  shows "fanout_counts entries ! i = length (filter (\<lambda>s. unat (s ! 0) = i) (map oe_oid entries))"
    "length (fanout_counts entries) = 256"
proof -
  have "length (fold (\<lambda>e f. f[unat (oe_oid e ! 0) := f ! unat (oe_oid e ! 0) + 1]) entries f) = length f \<and>
    (i < length f \<longrightarrow>
      fold (\<lambda>e f. f[unat (oe_oid e ! 0) := f ! unat (oe_oid e ! 0) + 1]) entries f ! i
      = f ! i + length (filter (\<lambda>s. unat (s ! 0) = i) (map oe_oid entries)))" for f
    by (induction entries arbitrary: f) (auto simp: nth_list_update)
  from this [of "replicate 256 0"] assms
  show "fanout_counts entries ! i = length (filter (\<lambda>s. unat (s ! 0) = i) (map oe_oid entries))"
    "length (fanout_counts entries) = 256"
    by (simp_all add: fanout_counts_def)
qed

lemma cumulate_nth:
  "i < length cs \<Longrightarrow> cumulate cum cs ! i = cum + sum_list (take (Suc i) cs)"
  "length (cumulate cum cs) = length cs"
  by (induction cs arbitrary: cum i) (auto simp: nth_Cons split: nat.splits)

lemma filter_le_Suc:
  "length (filter (\<lambda>x. f x \<le> Suc i) xs) = length (filter (\<lambda>x. f x \<le> i) xs) + length (filter (\<lambda>x. f x = Suc i) xs)"
  by (induction xs) auto

lemma cumulate_fanout: "cumulate 0 (fanout_counts entries) = fanout_of (map oe_oid entries)"
proof (rule nth_equalityI)
  have len: "length (fanout_counts entries) = 256" using fanout_counts_nth(2) [of 0] by simp
  then show "length (cumulate 0 (fanout_counts entries)) = length (fanout_of (map oe_oid entries))"
    by (simp add: cumulate_nth(2) length_fanout)
  fix i
  assume "i < length (cumulate 0 (fanout_counts entries))"
  then have i: "i < 256" by (simp add: cumulate_nth(2) len)
  have "sum_list (take (Suc i) (fanout_counts entries))
      = length (filter (\<lambda>s. unat (s ! 0) \<le> i) (map oe_oid entries))"
    using i
  proof (induction i)
    case 0
    have "take (Suc 0) (fanout_counts entries) = [fanout_counts entries ! 0]"
      using len by (cases "fanout_counts entries") auto
    then show ?case using fanout_counts_nth(1) [of 0 entries] by simp
  next
    case (Suc i)
    have "take (Suc (Suc i)) (fanout_counts entries) = take (Suc i) (fanout_counts entries) @ [fanout_counts entries ! Suc i]"
      using Suc.prems len by (simp only: take_Suc_conv_app_nth)
    then show ?case using Suc fanout_counts_nth(1) [of "Suc i" entries] filter_le_Suc [of "\<lambda>s. unat (s ! 0)" i "map oe_oid entries"]
      by simp
  qed
  then show "cumulate 0 (fanout_counts entries) ! i = fanout_of (map oe_oid entries) ! i"
    using i by (simp add: cumulate_nth(1) len fanout_of_def)
qed

lemma raw_offsets_small:
  assumes "\<forall>off \<in> set offs. off \<le> 0x7fffffff"
  shows "map (\<lambda>i. to_be 4 (raw_offset offs i)) [0..<length offs] = map (to_be 4) offs"
    "filter too_large offs = []"
proof -
  have "\<not> too_large (offs ! i)" if "i < length offs" for i
    using assms that by (simp add: too_large_def not_less)
  then show "map (\<lambda>i. to_be 4 (raw_offset offs i)) [0..<length offs] = map (to_be 4) offs"
    by (intro nth_equalityI) (simp_all add: raw_offset_def)
  show "filter too_large offs = []" using assms by (auto simp: too_large_def filter_empty_conv)
qed

text \<open>The written index is the image of the sorted entries.\<close>

lemma created_index_image:
  assumes "sha1_laws X" "\<forall>e \<in> set es. length (oe_oid e) = 20" "\<forall>e \<in> set es. oe_offset e \<le> 0x7fffffff"
  shows "\<exists>d. create_idx_v2_data X es sha =
    (let s = sort_key oe_oid es in
     Inr (idx_image (map oe_oid s) (map oe_crc s) (map oe_offset s) sha (x_sha1 X d)))"
proof -
  define s where "s = sort_key oe_oid es"
  have ne: "\<not> list_ex (\<lambda>e. oe_oid e = []) s" "\<not> list_ex (\<lambda>e. oe_offset e > 0x7fffffff) s"
    using assms(2,3) by (auto simp: s_def list_ex_iff not_less)
  have "\<forall>off \<in> set (map oe_offset s). off \<le> 0x7fffffff" using assms(3) by (auto simp: s_def)
  note small = raw_offsets_small [OF this]
  have "map (\<lambda>e. to_be 4 (oe_crc e)) s = map (to_be 4) (map oe_crc s)"
    "map (\<lambda>e. to_be 4 (oe_offset e)) s = map (to_be 4) (map oe_offset s)" by simp_all
  then show ?thesis
    unfolding create_idx_v2_data_def s_def [symmetric] Let_def cumulate_fanout idx_image_def small
    using ne by (auto simp del: map_map)
qed


text \<open>Offsets of the entries: increasing, each the end of the object before it.\<close>

lemma entries_of_nth:
  assumes "i < length obs"
  shows "oe_oid (entries_of X off obs ! i) = object_sha X (obs ! i)"
    "oe_offset (entries_of X off obs ! i) =
       off + length (concat (map (\<lambda>ob. frame_bytes X (frame_of ob)) (take i obs)))"
  using assms
proof (induction obs arbitrary: off i)
  case (Cons ob obs)
  {
    case 1
    then show ?case using Cons.IH(1) by (cases i) (auto simp: entry_of_def)
  next
    case 2
    then show ?case using Cons.IH(2) by (cases i) (auto simp: entry_of_def)
  }
qed simp_all

lemma map_oid_entries: "map oe_oid (entries_of X off obs) = map (object_sha X) obs"
  by (induction obs arbitrary: off) (auto simp: entry_of_def)

definition start_of :: "ext \<Rightarrow> git_object_to_pack list \<Rightarrow> nat \<Rightarrow> nat" where
  "start_of X obs i = 12 + length (concat (map (\<lambda>ob. frame_bytes X (frame_of ob)) (take i obs)))"

lemma start_of_Suc:
  "i < length obs \<Longrightarrow> start_of X obs (Suc i) = start_of X obs i + length (frame_bytes X (frame_of (obs ! i)))"
  by (simp add: start_of_def take_Suc_conv_app_nth)

lemma start_of_mono: "i < j \<Longrightarrow> j \<le> length obs \<Longrightarrow> start_of X obs i < start_of X obs j"
proof (induction j)
  case (Suc j)
  have "0 < length (frame_bytes X (frame_of (obs ! j)))" by simp
  then show ?case using Suc start_of_Suc [of j obs X] by (cases "i = j") auto
qed simp

lemma map_offset_entries:
  "map oe_offset (entries_of X 12 obs) = map (start_of X obs) [0..<length obs]"
  by (rule nth_equalityI) (simp_all add: entries_of_nth(2) start_of_def)

lemma len_to_next_start:
  assumes "i < length obs"
  shows "len_to_next (map (start_of X obs) [0..<length obs]) (start_of X obs i) =
     (if Suc i < length obs then Some (length (frame_bytes X (frame_of (obs ! i)))) else None)"
proof -
  let ?offs = "map (start_of X obs) [0..<length obs]"
  have lt: "start_of X obs i < start_of X obs j \<longleftrightarrow> i < j" if "j < length obs" for j
    using start_of_mono [of i j obs X] start_of_mono [of j i obs X] assms that
    by (metis less_imp_le less_irrefl less_not_sym linorder_neqE_nat)
  have later: "set (filter (\<lambda>x. start_of X obs i < x) ?offs) = start_of X obs ` {j. i < j \<and> j < length obs}"
    using lt by auto
  show ?thesis
  proof (cases "Suc i < length obs")
    case True
    have "Min (start_of X obs ` {j. i < j \<and> j < length obs}) = start_of X obs (Suc i)"
    proof (rule Min_eqI)
      show "start_of X obs (Suc i) \<le> y" if "y \<in> start_of X obs ` {j. i < j \<and> j < length obs}" for y
        using that start_of_mono [of "Suc i" _ obs X] by (auto simp: le_less) (metis Suc_lessI less_imp_le)
    qed (use True in auto)
    moreover have "filter (\<lambda>x. start_of X obs i < x) ?offs \<noteq> []"
      using True lt [of "Suc i"] by (auto simp: filter_empty_conv)
    ultimately show ?thesis
      using True later start_of_Suc [OF assms, of X] by (simp add: len_to_next_def Let_def)
  next
    case False
    then have "set (filter (\<lambda>x. start_of X obs i < x) ?offs) = {}" unfolding later by auto
    then show ?thesis using False by (simp add: len_to_next_def Let_def del: set_filter) 
  qed
qed


lemma len_to_next_cong: "set a = set b \<Longrightarrow> len_to_next a off = len_to_next b off"
proof -
  assume "set a = set b"
  then have "set (filter (\<lambda>x. off < x) a) = set (filter (\<lambda>x. off < x) b)" by auto
  then show ?thesis by (simp only: len_to_next_def Let_def flip: set_empty)
qed

lemma start_of_drop:
  assumes "i < length obs"
  shows "\<exists>rest. drop (start_of X obs i) (pack_bytes X (map frame_of obs) sha) = frame_bytes X (frame_of (obs ! i)) @ rest"
proof -
  define pre where "pre = pack_magic @ to_be 4 2 @ to_be 4 (length obs) @ concat (map (\<lambda>ob. frame_bytes X (frame_of ob)) (take i obs))"
  have "obs = take i obs @ obs ! i # drop (Suc i) obs" using assms by (rule id_take_nth_drop)
  then have "concat (map (\<lambda>ob. frame_bytes X (frame_of ob)) obs) =
      concat (map (\<lambda>ob. frame_bytes X (frame_of ob)) (take i obs)) @ frame_bytes X (frame_of (obs ! i))
      @ concat (map (\<lambda>ob. frame_bytes X (frame_of ob)) (drop (Suc i) obs))"
    by (metis concat.simps(2) concat_append list.simps(9) map_append)
  then have "pack_bytes X (map frame_of obs) sha = pre @ frame_bytes X (frame_of (obs ! i))
      @ concat (map (\<lambda>ob. frame_bytes X (frame_of ob)) (drop (Suc i) obs)) @ sha"
    by (simp add: pack_bytes_def pre_def comp_def)
  moreover have "length pre = start_of X obs i" by (simp add: pre_def start_of_def pack_magic_def)
  ultimately show ?thesis by (intro exI) (simp only: append_eq_conv_conj [symmetric] drop_append, simp)
qed

lemma size_bytes_length: "n < 128 ^ k \<Longrightarrow> length (size_bytes n) \<le> k"
proof (induction k arbitrary: n)
  case (Suc k)
  then have "n div 128 < 128 ^ k" by (simp add: less_mult_imp_div_less mult.commute)
  then have "length (size_bytes (n div 128)) \<le> k" by (rule Suc.IH)
  then show ?case by (simp add: size_bytes.simps [of n] Let_def)
qed (simp add: size_bytes.simps)

lemma object_header_length: "n < 2 ^ 64 \<Longrightarrow> length (object_header ty n) \<le> 10"
  using size_bytes_length [of "n div 16" 9] by (simp add: object_header_def Let_def)

lemma entry_facts:
  assumes "hex_laws X" "sha1_laws X" "list_all (object_ok X) obs" "e \<in> set (entries_of X off obs)"
  shows "length (oe_oid e) = 20" "oe_offset e \<le> off + length (concat (map (\<lambda>ob. frame_bytes X (frame_of ob)) obs))"
proof -
  have "length (oe_oid e) = 20 \<and> oe_offset e \<le> off + length (concat (map (\<lambda>ob. frame_bytes X (frame_of ob)) obs))"
    using assms(3,4)
  proof (induction obs arbitrary: off)
    case (Cons ob obs)
    then show ?case using Cons.IH [of "off + length (frame_bytes X (frame_of ob))"]
      by (auto simp: entry_of_def object_sha_def sha1_length [OF assms(2)] add.assoc)
  qed simp
  then show "length (oe_oid e) = 20" "oe_offset e \<le> off + length (concat (map (\<lambda>ob. frame_bytes X (frame_of ob)) obs))"
    by blast+
qed

text \<open>A pack below two gigabytes is written.\<close>

lemma pack_written:
  assumes "hex_laws X" "sha1_laws X" "list_all (object_ok X) obs"
    "12 + length (concat (map (\<lambda>ob. frame_bytes X (frame_of ob)) obs)) \<le> 0x7fffffff"
  shows "\<exists>pack idx sha. create_pack_and_index_bytes X obs = Inr (pack, idx, sha)"
proof -
  obtain sha where c: "create_pack_data X obs = Inr (pack_bytes X (map frame_of obs) sha, entries_of X 12 obs, sha)"
    using create_pack_data_ok [OF assms(1,3)] by blast
  have "\<forall>e \<in> set (entries_of X 12 obs). length (oe_oid e) = 20" using entry_facts(1) [OF assms(1-3)] by blast
  moreover have "\<forall>e \<in> set (entries_of X 12 obs). oe_offset e \<le> 0x7fffffff"
    using entry_facts(2) [OF assms(1-3)] assms(4) by (meson order_trans)
  ultimately obtain idx where "create_idx_v2_data X (entries_of X 12 obs) sha = Inr idx"
    using created_index_image [OF assms(2)] unfolding Let_def by blast
  then show ?thesis by (simp add: create_pack_and_index_bytes_def c)
qed

text \<open>
  C8: the index written beside a pack leads to every object of it: parsed back, it finds each id
  at an offset where the pack has that object's header and compressed data. The length it gives is
  the exact length of this frame for every object but the last one of the pack, for which the index
  has no end and the lookup answers with an estimate of 64 KiB, right or not (C21 shows what
  follows when it is too short).
\<close>

theorem written_index_finds_objects:
  assumes "sha1_laws X" "hex_laws X" "list_all (object_ok X) obs" "length obs < 2 ^ 31"
    "distinct (map (object_sha X) obs)" "\<forall>i < length obs. start_of X obs i \<le> 0x7fffffff"
  shows "\<exists>pack idx hex pi. create_pack_and_index_bytes X obs = Inr (pack, idx, hex) \<and>
    idx_parse name idx = Inr pi \<and>
    (\<forall>i < length obs. \<exists>off rest.
       find_offset pi (object_sha X (obs ! i)) =
         Some (off, if Suc i < length obs then length (frame_bytes X (frame_of (obs ! i))) else 65536) \<and>
       drop off pack = frame_bytes X (frame_of (obs ! i)) @ rest)"
proof -
  define es where "es = entries_of X 12 obs"
  define s where "s = sort_key oe_oid es"
  obtain sha d where c: "create_pack_data X obs = Inr (pack_bytes X (map frame_of obs) sha, es, sha)"
    and sha: "sha = x_sha1 X d"
    using create_pack_data_ok [OF assms(2,3)] es_def by blast
  have set_es: "set s = set es" and ls: "length s = length obs" by (simp_all add: s_def es_def)
  have oids: "map oe_oid es = map (object_sha X) obs" by (simp add: es_def map_oid_entries)
  have offs: "map oe_offset es = map (start_of X obs) [0..<length obs]" by (simp add: es_def map_offset_entries)
  have l20: "length (object_sha X ob) = 20" for ob using assms(1) by (simp add: object_sha_def)
  have e20: "\<forall>e \<in> set es. length (oe_oid e) = 20"
  proof
    fix e assume "e \<in> set es"
    then have "oe_oid e \<in> set (map (object_sha X) obs)" unfolding oids [symmetric] by simp
    then show "length (oe_oid e) = 20" using l20 by auto
  qed
  have esmall: "\<forall>e \<in> set es. oe_offset e \<le> 0x7fffffff"
  proof
    fix e assume "e \<in> set es"
    then have "oe_offset e \<in> set (map (start_of X obs) [0..<length obs])" unfolding offs [symmetric] by simp
    then show "oe_offset e \<le> 0x7fffffff" using assms(6) by auto
  qed
  obtain d' where idx: "create_idx_v2_data X es sha =
      Inr (idx_image (map oe_oid s) (map oe_crc s) (map oe_offset s) sha (x_sha1 X d'))"
    using created_index_image [OF assms(1) e20 esmall] by (auto simp: s_def Let_def)
  have "list_all (\<lambda>off. off < 2 ^ 64) (map oe_offset s)" using esmall set_es by (fastforce simp: list_all_iff)
  then have iok: "idx_image_ok (map oe_oid s) (map oe_crc s) (map oe_offset s) sha (x_sha1 X d')"
    using assms(1,4) e20 set_es ls by (auto simp: idx_image_ok_def list_all_iff sha)
  have sorted: "sorted (map oe_oid s)" by (simp add: s_def)
  have "distinct (map oe_oid es)" unfolding oids by (rule assms(5))
  then have dist: "distinct (map oe_oid s)" by (simp add: s_def distinct_map)
  have "\<exists>off rest. find_offset (index_of name (map oe_oid s) (map oe_offset s) sha) (object_sha X (obs ! i)) =
         Some (off, if Suc i < length obs then length (frame_bytes X (frame_of (obs ! i))) else 65536) \<and>
       drop off (pack_bytes X (map frame_of obs) sha) = frame_bytes X (frame_of (obs ! i)) @ rest"
    if i: "i < length obs" for i
  proof -
    have ei: "es ! i \<in> set s" using i set_es by (simp add: es_def)
    then obtain k where k: "k < length s" "s ! k = es ! i" by (auto simp: in_set_conv_nth)
    have ok: "oe_oid (s ! k) = object_sha X (obs ! i)" "oe_offset (s ! k) = start_of X obs i"
      using k(2) i entries_of_nth [OF i, of X 12] by (simp_all add: es_def start_of_def)
    have "set (map oe_offset s) = set (map oe_offset es)" using set_es by simp
    then have "len_to_next (map oe_offset s) (start_of X obs i) = len_to_next (map oe_offset es) (start_of X obs i)"
      by (rule len_to_next_cong)
    then have len: "len_to_next (map oe_offset s) (start_of X obs i) =
        (if Suc i < length obs then Some (length (frame_bytes X (frame_of (obs ! i)))) else None)"
      unfolding offs len_to_next_start [OF i] .
    have "k < length (map oe_oid s)" using k by simp
    from index_finds [OF iok sorted dist this, of name] len k(1)
    have "find_offset (index_of name (map oe_oid s) (map oe_offset s) sha) (object_sha X (obs ! i)) =
         Some (start_of X obs i, if Suc i < length obs then length (frame_bytes X (frame_of (obs ! i))) else 65536)"
      by (simp add: ok split: if_splits)
    then show ?thesis using start_of_drop [OF i, of X sha] by blast
  qed
  then show ?thesis
    using c idx idx_parse_image [OF iok, of name] by (simp add: create_pack_and_index_bytes_def)
qed


definition demo_other :: git_object_to_pack where
  "demo_other = \<lparr>gp_oid = compute_git_sha1 demo_ext Blob_Type [7], gp_type = Blob_Type, gp_data = [7]\<rparr>"

lemma demo_pair:
  "list_all (object_ok demo_ext) [demo_object, demo_other]" "length [demo_object, demo_other] < 2 ^ 31"
  "distinct (map (object_sha demo_ext) [demo_object, demo_other])"
  "\<forall>i < length [demo_object, demo_other]. start_of demo_ext [demo_object, demo_other] i \<le> 0x7fffffff"
proof -
  have "length (frame_bytes demo_ext (frame_of demo_object)) \<le> 100"
  proof -
    have "length (object_header Blob_Type (length [104, 105 :: 8 word])) \<le> 10" by (rule object_header_length) simp
    then show ?thesis by (simp add: frame_of_def demo_object_def demo_ext_def demo_deflate_def)
  qed
  then show "\<forall>i < length [demo_object, demo_other]. start_of demo_ext [demo_object, demo_other] i \<le> 0x7fffffff"
    by (auto simp: start_of_def less_Suc_eq)
qed (auto simp: object_ok_def demo_object_def demo_other_def isize_max_def object_sha_def demo_ext_def demo_sha1_def)

text \<open>Two objects: the length of the first one is exact, the last one gets the estimate.\<close>

theorem written_index_finds_objects_witness:
  "\<exists>pack idx hex pi off off' rest rest'.
     create_pack_and_index_bytes demo_ext [demo_object, demo_other] = Inr (pack, idx, hex) \<and> idx_parse ''p'' idx = Inr pi \<and>
     find_offset pi (object_sha demo_ext demo_object) = Some (off, length (frame_bytes demo_ext (frame_of demo_object))) \<and>
     drop off pack = frame_bytes demo_ext (frame_of demo_object) @ rest \<and>
     find_offset pi (object_sha demo_ext demo_other) = Some (off', 65536) \<and>
     drop off' pack = frame_bytes demo_ext (frame_of demo_other) @ rest'"
proof -
  obtain pack idx hex pi where r: "create_pack_and_index_bytes demo_ext [demo_object, demo_other] = Inr (pack, idx, hex)"
    "idx_parse ''p'' idx = Inr pi"
    and all: "\<forall>i < length [demo_object, demo_other]. \<exists>off rest. find_offset pi (object_sha demo_ext ([demo_object, demo_other] ! i)) =
         Some (off, if Suc i < length [demo_object, demo_other]
           then length (frame_bytes demo_ext (frame_of ([demo_object, demo_other] ! i))) else 65536) \<and>
       drop off pack = frame_bytes demo_ext (frame_of ([demo_object, demo_other] ! i)) @ rest"
    using written_index_finds_objects [OF demo_sha1_laws demo_hex_laws demo_pair(1,2,3,4), of "''p''"] by blast
  from all [rule_format, of 0] all [rule_format, of 1] show ?thesis using r by simp
qed

end
