(* ===== verification/Tree_Builder.thy ===== *)
theory Tree_Builder
  imports Vfs_Spec Staging Pack_Writer
begin

text \<open>
  Commit building: \<^verbatim>\<open>src/src/git/builder.rs\<close>. The shared state is the inode table and the
  table \<open>new_objects\<close>. The recursion over directories carries fuel, and \<open>rebuild_git_objects\<close>
  gives it one unit per dirty directory, which is shown to suffice; the walk
  from a changed node to the root has no such bound (the inode table can hold a cycle), so its
  result is an option, None for a walk that does not end.
\<close>

section \<open>The order of tree entries\<close>

datatype ordering = Less | Equal | Greater

definition compare_bytes :: "string \<Rightarrow> string \<Rightarrow> ordering" where
  "compare_bytes a b = (if a < b then Less else if a = b then Equal else Greater)"

definition entry_key :: "string \<Rightarrow> bool \<Rightarrow> string" where
  "entry_key name is_dir = (if is_dir then name @ ''/'' else name)"

definition compare_tree_entries :: "string \<Rightarrow> bool \<Rightarrow> string \<Rightarrow> bool \<Rightarrow> ordering" where
  "compare_tree_entries name_a is_dir_a name_b is_dir_b =
     compare_bytes (entry_key name_a is_dir_a) (entry_key name_b is_dir_b)"

text \<open>The stable sort of the standard library, given its comparison.\<close>

fun insert_by :: "('a \<Rightarrow> 'a \<Rightarrow> ordering) \<Rightarrow> 'a \<Rightarrow> 'a list \<Rightarrow> 'a list" where
  "insert_by cmp x [] = [x]"
| "insert_by cmp x (y # ys) = (if cmp x y = Greater then y # insert_by cmp x ys else x # y # ys)"

definition sort_by :: "('a \<Rightarrow> 'a \<Rightarrow> ordering) \<Rightarrow> 'a list \<Rightarrow> 'a list" where
  "sort_by cmp xs = foldr (insert_by cmp) xs []"

definition compare_nodes :: "vfs_node \<Rightarrow> vfs_node \<Rightarrow> ordering" where
  "compare_nodes a b = compare_tree_entries (vn_name a) (vn_is_dir a) (vn_name b) (vn_is_dir b)"

definition node_key :: "vfs_node \<Rightarrow> string" where
  "node_key n = entry_key (vn_name n) (vn_is_dir n)"

lemma sort_by_key: "sort_by compare_nodes ns = sort_key node_key ns"
proof -
  have "insert_by compare_nodes n ms = insort_key node_key n ms" for n ms
    by (induction ms)
      (auto simp: compare_nodes_def compare_tree_entries_def compare_bytes_def node_key_def not_le not_less)
  then show ?thesis by (induction ns) (simp_all add: sort_by_def)
qed

section \<open>Objects\<close>

type_synonym objects = "(string, git_object_to_pack) hmap"

definition new_object :: "ext \<Rightarrow> object_type \<Rightarrow> bytes \<Rightarrow> git_object_to_pack" where
  "new_object X ty data = \<lparr>gp_oid = compute_git_sha1 X ty data, gp_type = ty, gp_data = data\<rparr>"

definition insert_object :: "git_object_to_pack \<Rightarrow> objects \<Rightarrow> objects" where
  "insert_object ob objs = hm_put (gp_oid ob) ob objs"

text \<open>Staged files become blobs, and their nodes get the new object ids.\<close>

fun stage_blobs :: "ext \<Rightarrow> io \<Rightarrow> staging \<Rightarrow> nat list \<Rightarrow> vfs \<times> objects \<Rightarrow> (vfs \<times> objects) \<times> unit result" where
  "stage_blobs X io s [] (v, objs) = ((v, objs), Inr ())"
| "stage_blobs X io s (i # ids) (v, objs) =
     (case get_node v i of
        None \<Rightarrow> stage_blobs X io s ids (v, objs)
      | Some node \<Rightarrow>
          (if is_apple_metadata (vn_name node) then stage_blobs X io s ids (v, objs)
           else (case get_staged_content io i s of
                   Inl e \<Rightarrow> ((v, objs), Inl e)
                 | Inr None \<Rightarrow> stage_blobs X io s ids (v, objs)
                 | Inr (Some content) \<Rightarrow>
                     (let ob = new_object X Blob_Type content in
                      stage_blobs X io s ids
                        (node_update i (vn_oid_update (\<lambda>_. gp_oid ob)) v, insert_object ob objs)))))"

section \<open>Dirty directories\<close>

text \<open>The loop from one changed node towards the root.\<close>

partial_function (option) dirty_walk :: "vfs \<Rightarrow> nat \<Rightarrow> nat list \<Rightarrow> nat list option" where
  "dirty_walk v cur dirty =
     (case get_node v cur of
        None \<Rightarrow> Some dirty
      | Some node \<Rightarrow>
          (let dirty1 = (if vn_is_dir node then List.insert (vn_id node) dirty else dirty);
               dirty2 = List.insert (vn_parent node) dirty1
           in if vn_parent node = root_inode \<or> vn_parent node = cur then Some dirty2
              else dirty_walk v (vn_parent node) dirty2))"

fun dirty_loop :: "vfs \<Rightarrow> nat list \<Rightarrow> nat list \<Rightarrow> nat list option" where
  "dirty_loop v [] dirty = Some dirty"
| "dirty_loop v (i # ids) dirty = Option.bind (dirty_walk v i dirty) (dirty_loop v ids)"

definition dirty_dirs :: "vfs \<Rightarrow> staging \<Rightarrow> nat list option" where
  "dirty_dirs v s = dirty_loop v (list_staged_nodes s @ list_deleted_nodes s) [root_inode]"

section \<open>Rebuilding the trees\<close>

definition valid_children :: "staging \<Rightarrow> vfs_node list \<Rightarrow> vfs_node list" where
  "valid_children s ns =
     sort_by compare_nodes (filter (\<lambda>c. \<not> is_apple_metadata (vn_name c) \<and> \<not> is_deleted s (vn_id c)) ns)"

text \<open>The loop over the children, given the rebuilding of a subdirectory.\<close>

fun child_loop ::
  "ext \<Rightarrow> (nat \<Rightarrow> vfs \<times> objects \<Rightarrow> ((vfs \<times> objects) \<times> string result) option) \<Rightarrow> nat list \<Rightarrow> vfs_node list \<Rightarrow>
   bytes \<Rightarrow> vfs \<times> objects \<Rightarrow> ((vfs \<times> objects) \<times> bytes result) option" where
  "child_loop X rebuild dirty [] raw st = Some (st, Inr raw)"
| "child_loop X rebuild dirty (c # cs) raw st =
     Option.bind (if vn_is_dir c \<and> vn_id c \<in> set dirty then rebuild (vn_id c) st else Some (st, Inr (vn_oid c)))
       (\<lambda>(st, r). case r of
          Inl e \<Rightarrow> Some (st, Inl e)
        | Inr child_oid \<Rightarrow>
            (if child_oid = [] then child_loop X rebuild dirty cs raw st
             else (case tree_entry_bytes X (vn_mode c) (vn_name c) child_oid of
                     Inl e \<Rightarrow> Some (st, Inl e)
                   | Inr bs \<Rightarrow> child_loop X rebuild dirty cs (raw @ bs) st)))"

fun rebuild_tree_recursive ::
  "ext \<Rightarrow> repo_view \<Rightarrow> staging \<Rightarrow> nat list \<Rightarrow> nat \<Rightarrow> nat \<Rightarrow> vfs \<times> objects \<Rightarrow>
   ((vfs \<times> objects) \<times> string result) option" where
  "rebuild_tree_recursive X rv s dirty 0 dir_id st = None"
| "rebuild_tree_recursive X rv s dirty (Suc fuel) dir_id (v, objs) =
     (case list_dir rv dir_id v of
        (v, Inl e) \<Rightarrow> Some ((v, objs), Inl e)
      | (v, Inr children) \<Rightarrow>
          Option.bind (child_loop X (rebuild_tree_recursive X rv s dirty fuel) dirty (valid_children s children) [] (v, objs))
            (\<lambda>((v, objs), r). case r of
               Inl e \<Rightarrow> Some ((v, objs), Inl e)
             | Inr raw_tree \<Rightarrow>
                 (let ob = new_object X Tree_Type raw_tree in
                  Some ((v, if rv_tree rv (gp_oid ob) = None then insert_object ob objs else objs),
                        Inr (gp_oid ob)))))"

section \<open>The commit\<close>

text \<open>The paths of the changed nodes that have one, when no path was recorded.\<close>

fun node_paths :: "vfs \<Rightarrow> nat list \<Rightarrow> string list option" where
  "node_paths v [] = Some []"
| "node_paths v (i # ids) =
     Option.bind (get_path v i) (\<lambda>r.
       map_option (\<lambda>ps. case r of Inl _ \<Rightarrow> ps | Inr p \<Rightarrow> p # ps) (node_paths v ids))"

definition effective_message :: "vfs \<Rightarrow> staging \<Rightarrow> string \<Rightarrow> string option" where
  "effective_message v s commit_message =
     (if trim commit_message \<noteq> [] then Some commit_message
      else if list_changed_paths s \<noteq> [] then Some (generate_commit_message (list_changed_paths s))
      else map_option generate_commit_message (node_paths v (list_staged_nodes s @ list_deleted_nodes s)))"

abbreviation newline :: string where "newline \<equiv> [CHR 0x0A]"

definition commit_content :: "string \<Rightarrow> string \<Rightarrow> string \<Rightarrow> nat \<Rightarrow> string \<Rightarrow> string" where
  "commit_content tree parent author timestamp message =
     ''tree '' @ tree @ newline @ ''parent '' @ parent @ newline
     @ ''author '' @ author @ '' '' @ to_radix 10 timestamp @ '' +0000'' @ newline
     @ ''committer '' @ author @ '' '' @ to_radix 10 timestamp @ '' +0000'' @ newline
     @ newline @ message @ newline"

definition rebuild_git_objects ::
  "ext \<Rightarrow> repo_view \<Rightarrow> io \<Rightarrow> nat \<Rightarrow> staging \<Rightarrow> string \<Rightarrow> string \<Rightarrow> string \<Rightarrow> vfs \<Rightarrow>
   (vfs \<times> (string \<times> string \<times> git_object_to_pack list) result) option" where
  "rebuild_git_objects X rv io timestamp s base_commit_oid author commit_message v =
     (case stage_blobs X io s (list_staged_nodes s) (v, []) of
        ((v, objs), Inl e) \<Rightarrow> Some (v, Inl e)
      | ((v, objs), Inr _) \<Rightarrow>
          Option.bind (dirty_dirs v s) (\<lambda>dirty.
          Option.bind (rebuild_tree_recursive X rv s dirty (length dirty) root_inode (v, objs)) (\<lambda>((v, objs), r).
            case r of
              Inl e \<Rightarrow> Some (v, Inl e)
            | Inr root \<Rightarrow>
                map_option (\<lambda>message.
                  let commit = new_object X Commit_Type
                        (str_bytes (commit_content root base_commit_oid author timestamp message))
                  in (v, Inr (gp_oid commit, root, map snd (insert_object commit objs))))
                  (effective_message v s commit_message))))"

section \<open>Listing only adds to the inode table\<close>

definition grows :: "vfs \<Rightarrow> vfs \<Rightarrow> bool" where
  "grows v v' \<longleftrightarrow>
     (\<forall>i n. hm_get (vs_nodes v) i = Some n \<longrightarrow> hm_get (vs_nodes v') i = Some n) \<and>
     (\<forall>d ids. hm_get (vs_dirs v) d = Some ids \<longrightarrow> hm_get (vs_dirs v') d = Some ids)"

lemma grows_refl [simp]: "grows v v"
  by (simp add: grows_def)

lemma grows_trans [trans]: "grows u v \<Longrightarrow> grows v w \<Longrightarrow> grows u w"
  by (simp add: grows_def)

lemma ensure_grows:
  assumes "vfs_wf v"
  shows "grows v (fst (ensure_dir_populated rv d v))"
proof (cases rule: ensure_cases [of rv d v])
  case (fresh n)
  obtain v' where v': "ensure_dir_populated rv d v = (v', Inr ())"
    "vs_dirs v' = hm_put d [vs_next v..<vs_next v + length (case rv_tree rv (vn_oid n) of Some t \<Rightarrow> tree_entries t | None \<Rightarrow> [])] (vs_dirs v)"
    "\<forall>i. hm_get (vs_nodes v') i =
      (if vs_next v \<le> i \<and> i < vs_next v + length (case rv_tree rv (vn_oid n) of Some t \<Rightarrow> tree_entries t | None \<Rightarrow> [])
       then Some (entry_node rv d i ((case rv_tree rv (vn_oid n) of Some t \<Rightarrow> tree_entries t | None \<Rightarrow> []) ! (i - vs_next v)))
       else hm_get (vs_nodes v) i)"
    using populated [OF assms fresh refl] by blast
  have "hm_get (vs_nodes v') i = Some m" if "hm_get (vs_nodes v) i = Some m" for i m
    using that wf_node [OF assms that] v'(3) by auto
  then show ?thesis using v'(1,2) fresh(1) by (auto simp: grows_def)
qed simp_all

lemma list_dir_result:
  assumes "list_dir rv d v = (v', Inr ns)"
  shows "v' = fst (ensure_dir_populated rv d v)"
    "\<exists>ids. hm_get (vs_dirs v') d = Some ids \<and> ns = live_nodes v' ids"
  using assms ensure_populates [of rv d v]
  by (cases "ensure_dir_populated rv d v"; cases "snd (ensure_dir_populated rv d v)";
      fastforce simp: list_dir_def)+

lemma list_dir_keeps:
  assumes "vfs_wf v" "list_dir rv d v = (v', r)"
  shows "vfs_wf v' \<and> grows v v'"
proof -
  have "v' = fst (ensure_dir_populated rv d v)"
    using assms(2) by (cases "ensure_dir_populated rv d v"; cases "snd (ensure_dir_populated rv d v)")
      (auto simp: list_dir_def)
  then show ?thesis using ensure_grows [OF assms(1)] ensure_wf [OF assms(1)] by simp
qed

section \<open>What a rebuilt tree holds\<close>

definition tree_oid :: "ext \<Rightarrow> git_tree_entry list \<Rightarrow> string" where
  "tree_oid X es = compute_git_sha1 X Tree_Type (concat (map (entry_bytes X) es))"

definition recursed :: "nat list \<Rightarrow> vfs_node \<Rightarrow> bool" where
  "recursed dirty c \<longleftrightarrow> vn_is_dir c \<and> vn_id c \<in> set dirty"

definition kept_children :: "staging \<Rightarrow> nat list \<Rightarrow> vfs_node list \<Rightarrow> vfs_node list" where
  "kept_children s dirty ns = filter (\<lambda>c. recursed dirty c \<or> vn_oid c \<noteq> []) (valid_children s ns)"

text \<open>
  \<open>tree_of X s dirty K v d es\<close>: the entries of directory \<open>d\<close> are \<open>es\<close>, one for each child
  that is kept, in git's order; a dirty subdirectory stands with the id of its own rebuilt
  entries, any other child with the id it has. Every id of a rebuilt tree is in \<open>K\<close>.
\<close>

inductive tree_of :: "ext \<Rightarrow> staging \<Rightarrow> nat list \<Rightarrow> string set \<Rightarrow> vfs \<Rightarrow> nat \<Rightarrow> git_tree_entry list \<Rightarrow> bool"
  for X s dirty K v where
  tree: "hm_get (vs_dirs v) d = Some ids \<Longrightarrow>
    list_all2 (\<lambda>c e. te_mode e = vn_mode c \<and> te_name e = vn_name c \<and>
        (recursed dirty c \<longrightarrow> (\<exists>es'. tree_of X s dirty K v (vn_id c) es' \<and> te_oid e = tree_oid X es')) \<and>
        (\<not> recursed dirty c \<longrightarrow> te_oid e = vn_oid c))
      (kept_children s dirty (live_nodes v ids)) es \<Longrightarrow>
    tree_oid X es \<in> K \<Longrightarrow> tree_of X s dirty K v d es"

lemma live_nodes_grows:
  assumes "vfs_wf v" "grows v v'" "hm_get (vs_dirs v) d = Some ids"
  shows "live_nodes v' ids = live_nodes v ids"
proof -
  have "hm_get (vs_nodes v') i = hm_get (vs_nodes v) i" if "i \<in> set ids" for i
    using wf_dir(3) [OF assms(1,3) that] assms(2) by (auto simp: grows_def)
  then show ?thesis by (simp add: live_nodes_def cong: map_cong)
qed

lemma tree_of_grows:
  assumes "tree_of X s dirty K v d es" "vfs_wf v" "grows v v'" "K \<subseteq> K'"
  shows "tree_of X s dirty K' v' d es"
  using assms(1)
proof (induction rule: tree_of.induct)
  case (tree d ids es)
  have "live_nodes v' ids = live_nodes v ids" by (rule live_nodes_grows) fact+
  moreover have "hm_get (vs_dirs v') d = Some ids" using tree(1) assms(3) by (simp add: grows_def)
  moreover have "list_all2 (\<lambda>c e. te_mode e = vn_mode c \<and> te_name e = vn_name c \<and>
      (recursed dirty c \<longrightarrow> (\<exists>es'. tree_of X s dirty K' v' (vn_id c) es' \<and> te_oid e = tree_oid X es')) \<and>
      (\<not> recursed dirty c \<longrightarrow> te_oid e = vn_oid c)) (kept_children s dirty (live_nodes v ids)) es"
    by (rule list_all2_mono [OF tree.IH]) blast
  ultimately show ?case using tree.hyps(2) assms(4) by (intro tree_of.tree) auto
qed

section \<open>Every object is filed under its own id\<close>

definition objects_ok :: "ext \<Rightarrow> objects \<Rightarrow> bool" where
  "objects_ok X objs \<longleftrightarrow>
     (\<forall>(oid, ob) \<in> set objs. gp_oid ob = oid \<and> oid = compute_git_sha1 X (gp_type ob) (gp_data ob))"

lemma set_update_subset: "set (hm_put k x m) \<subseteq> insert (k, x) (set m)"
  by (induction m) auto

lemma insert_object_ok: "objects_ok X objs \<Longrightarrow> objects_ok X (insert_object (new_object X ty data) objs)"
  using set_update_subset [of "compute_git_sha1 X ty data" "new_object X ty data" objs]
  by (fastforce simp: objects_ok_def insert_object_def new_object_def)

lemma insert_object_keys: "fst ` set (insert_object ob objs) = insert (gp_oid ob) (fst ` set objs)"
  by (simp add: insert_object_def)

definition known :: "repo_view \<Rightarrow> objects \<Rightarrow> string set" where
  "known rv objs = {oid. rv_tree rv oid \<noteq> None \<or> oid \<in> fst ` set objs}"

abbreviation child_entry ::
  "ext \<Rightarrow> staging \<Rightarrow> nat list \<Rightarrow> string set \<Rightarrow> vfs \<Rightarrow> vfs_node \<Rightarrow> git_tree_entry \<Rightarrow> bool" where
  "child_entry X s dirty K v c e \<equiv> te_mode e = vn_mode c \<and> te_name e = vn_name c \<and>
     (recursed dirty c \<longrightarrow> (\<exists>es'. tree_of X s dirty K v (vn_id c) es' \<and> te_oid e = tree_oid X es')) \<and>
     (\<not> recursed dirty c \<longrightarrow> te_oid e = vn_oid c)"

definition step_ok :: "ext \<Rightarrow> vfs \<Rightarrow> objects \<Rightarrow> vfs \<Rightarrow> objects \<Rightarrow> bool" where
  "step_ok X v objs v' objs' \<longleftrightarrow>
     vfs_wf v' \<and> grows v v' \<and> objects_ok X objs' \<and> fst ` set objs \<subseteq> fst ` set objs'"

lemma step_ok_trans: "step_ok X u a v b \<Longrightarrow> step_ok X v b w c \<Longrightarrow> step_ok X u a w c"
  by (auto simp: step_ok_def intro: grows_trans)

lemma known_mono: "step_ok X v objs v' objs' \<Longrightarrow> known rv objs \<subseteq> known rv objs'"
  by (auto simp: step_ok_def known_def)

lemma child_entry_step:
  assumes "child_entry X s dirty (known rv objs) v c e" "vfs_wf v" "step_ok X v objs v' objs'"
  shows "child_entry X s dirty (known rv objs') v' c e"
proof -
  have g: "grows v v'" using assms(3) by (simp add: step_ok_def)
  have "tree_of X s dirty (known rv objs) v i es \<Longrightarrow> tree_of X s dirty (known rv objs') v' i es" for i es
    by (rule tree_of_grows [OF _ assms(2) g known_mono [OF assms(3)]])
  then show ?thesis using assms(1) by blast
qed

lemma tree_oid_nonempty: "hex_laws X \<Longrightarrow> sha1_laws X \<Longrightarrow> tree_oid X es \<noteq> []"
proof -
  assume X: "hex_laws X" "sha1_laws X"
  have "length (x_sha1 X bs) = 20" for bs using X(2) by simp
  then have "x_sha1 X bs \<noteq> []" for bs by (metis list.size(3) zero_neq_numeral)
  then show ?thesis using hex_encode_nonempty [OF X(1)] by (simp add: tree_oid_def compute_git_sha1_def Let_def)
qed

text \<open>One directory rebuilt: what the recursion promises to the loop over the children.\<close>

definition rebuilt ::
  "ext \<Rightarrow> repo_view \<Rightarrow> staging \<Rightarrow> nat list \<Rightarrow> vfs \<Rightarrow> objects \<Rightarrow> nat \<Rightarrow> vfs \<Rightarrow> objects \<Rightarrow> string result \<Rightarrow> bool" where
  "rebuilt X rv s dirty v objs d v' objs' r \<longleftrightarrow> step_ok X v objs v' objs' \<and>
     (\<forall>oid. r = Inr oid \<longrightarrow> (\<exists>es. tree_of X s dirty (known rv objs') v' d es \<and> oid = tree_oid X es))"

lemma entry_bytes_eq:
  "tree_entry_bytes X m nm oid = Inr bs \<Longrightarrow> entry_bytes X \<lparr>te_mode = m, te_name = nm, te_oid = oid\<rparr> = bs"
  by (simp add: entry_bytes_def)

lemma child_loop_sound:
  assumes X: "hex_laws X" "sha1_laws X"
    and rb: "\<And>i v objs v' objs' r. vfs_wf v \<Longrightarrow> objects_ok X objs \<Longrightarrow> rb i (v, objs) = Some ((v', objs'), r) \<Longrightarrow>
      rebuilt X rv s dirty v objs i v' objs' r"
  shows "vfs_wf v \<Longrightarrow> objects_ok X objs \<Longrightarrow> child_loop X rb dirty cs raw (v, objs) = Some ((v', objs'), r) \<Longrightarrow>
    step_ok X v objs v' objs' \<and>
    (\<forall>raw'. r = Inr raw' \<longrightarrow>
      (\<exists>es. list_all2 (child_entry X s dirty (known rv objs') v')
              (filter (\<lambda>c. recursed dirty c \<or> vn_oid c \<noteq> []) cs) es \<and>
            raw' = raw @ concat (map (entry_bytes X) es)))"
proof (induction cs arbitrary: raw v objs)
  case Nil
  then show ?case by (auto simp: step_ok_def)
next
  case (Cons c cs)
  define st where "st = (if recursed dirty c then rb (vn_id c) (v, objs) else Some ((v, objs), Inr (vn_oid c)))"
  have run: "Option.bind st (\<lambda>(st, r). case r of Inl e \<Rightarrow> Some (st, Inl e)
        | Inr child_oid \<Rightarrow> if child_oid = [] then child_loop X rb dirty cs raw st
             else (case tree_entry_bytes X (vn_mode c) (vn_name c) child_oid of
                     Inl e \<Rightarrow> Some (st, Inl e) | Inr bs \<Rightarrow> child_loop X rb dirty cs (raw @ bs) st))
      = Some ((v', objs'), r)"
    using Cons.prems(3) by (simp add: st_def recursed_def)
  then obtain v1 objs1 r1 where st: "st = Some ((v1, objs1), r1)" by (auto simp: bind_eq_Some_conv)
  have ok1: "step_ok X v objs v1 objs1"
    using st rb [OF Cons.prems(1,2)] Cons.prems(1,2)
    by (auto simp: st_def rebuilt_def step_ok_def split: if_splits)
  then have w1: "vfs_wf v1" "objects_ok X objs1" by (simp_all add: step_ok_def)
  show ?case
  proof (cases r1)
    case (Inl e)
    then have "v' = v1 \<and> objs' = objs1 \<and> r = Inl e" using run st by auto
    then show ?thesis using ok1 by simp
  next
    case (Inr oid)
    have ent: "recursed dirty c \<Longrightarrow> \<exists>es'. tree_of X s dirty (known rv objs1) v1 (vn_id c) es' \<and> oid = tree_oid X es'"
      "\<not> recursed dirty c \<Longrightarrow> oid = vn_oid c"
      using st Inr rb [OF Cons.prems(1,2), of "vn_id c"] by (auto simp: st_def rebuilt_def)
    show ?thesis
    proof (cases "oid = []")
      case True
      then have "\<not> (recursed dirty c \<or> vn_oid c \<noteq> [])" using ent tree_oid_nonempty [OF X] by metis
      moreover have "child_loop X rb dirty cs raw (v1, objs1) = Some ((v', objs'), r)"
        using run st Inr True by simp
      ultimately show ?thesis using Cons.IH [OF w1] ok1 by (auto intro: step_ok_trans)
    next
      case False
      then have keep: "recursed dirty c \<or> vn_oid c \<noteq> []" using ent by metis
      define e where "e = \<lparr>te_mode = vn_mode c, te_name = vn_name c, te_oid = oid\<rparr>"
      have e: "child_entry X s dirty (known rv objs1) v1 c e" using ent by (auto simp: e_def)
      show ?thesis
      proof (cases "tree_entry_bytes X (vn_mode c) (vn_name c) oid")
        case (Inl err)
        then show ?thesis using run st Inr False ok1 by auto
      next
        case bs: (Inr bs)
        have loop: "child_loop X rb dirty cs (raw @ bs) (v1, objs1) = Some ((v', objs'), r)"
          using run st Inr False bs by simp
        note ih = Cons.IH [OF w1 loop]
        have "child_entry X s dirty (known rv objs') v' c e"
          using child_entry_step [OF e w1(1)] ih by blast
        moreover have "entry_bytes X e = bs" using entry_bytes_eq [OF bs] by (simp add: e_def)
        ultimately have "\<exists>es. list_all2 (child_entry X s dirty (known rv objs') v')
              (filter (\<lambda>c. recursed dirty c \<or> vn_oid c \<noteq> []) (c # cs)) es \<and>
            raw' = raw @ concat (map (entry_bytes X) es)" if r: "r = Inr raw'" for raw'
        proof -
          obtain es where es: "list_all2 (child_entry X s dirty (known rv objs') v')
              (filter (\<lambda>c. recursed dirty c \<or> vn_oid c \<noteq> []) cs) es" "raw' = (raw @ bs) @ concat (map (entry_bytes X) es)"
            using ih r by blast
          then show ?thesis using \<open>child_entry X s dirty (known rv objs') v' c e\<close> \<open>entry_bytes X e = bs\<close> keep
            by (intro exI [of _ "e # es"]) simp
        qed
        then show ?thesis using ih step_ok_trans [OF ok1] by blast
      qed
    qed
  qed
qed

lemma rebuild_sound:
  assumes X: "hex_laws X" "sha1_laws X"
  shows "vfs_wf v \<Longrightarrow> objects_ok X objs \<Longrightarrow>
    rebuild_tree_recursive X rv s dirty fuel d (v, objs) = Some ((v', objs'), r) \<Longrightarrow>
    rebuilt X rv s dirty v objs d v' objs' r"
proof (induction fuel arbitrary: d v objs v' objs' r)
  case 0
  then show ?case by simp
next
  case (Suc fuel)
  obtain v1 r1 where l: "list_dir rv d v = (v1, r1)" by (cases "list_dir rv d v")
  have w1: "vfs_wf v1" "grows v v1" using list_dir_keeps [OF Suc.prems(1) l] by simp_all
  have ok1: "step_ok X v objs v1 objs" using w1 Suc.prems(2) by (simp add: step_ok_def)
  show ?case
  proof (cases r1)
    case (Inl e)
    then show ?thesis using Suc.prems(3) l ok1 by (auto simp: rebuilt_def)
  next
    case (Inr ns)
    obtain ids where ids: "hm_get (vs_dirs v1) d = Some ids" "ns = live_nodes v1 ids"
      using list_dir_result(2) [OF l [unfolded Inr]] by blast
    obtain v2 objs2 r2 where c: "child_loop X (rebuild_tree_recursive X rv s dirty fuel) dirty (valid_children s ns) [] (v1, objs)
        = Some ((v2, objs2), r2)"
      using Suc.prems(3) l Inr by (auto simp: bind_eq_Some_conv)
    have cl: "step_ok X v1 objs v2 objs2 \<and>
      (\<forall>raw'. r2 = Inr raw' \<longrightarrow>
        (\<exists>es. list_all2 (child_entry X s dirty (known rv objs2) v2) (kept_children s dirty ns) es \<and>
              raw' = concat (map (entry_bytes X) es)))"
      unfolding kept_children_def using child_loop_sound [OF X _ w1(1) Suc.prems(2) c] Suc.IH
      unfolding append_Nil by blast
    have ok2: "step_ok X v objs v2 objs2" using step_ok_trans [OF ok1] cl by blast
    show ?thesis
    proof (cases r2)
      case (Inl e)
      then show ?thesis using Suc.prems(3) l \<open>r1 = Inr ns\<close> c ok2 by (auto simp: rebuilt_def)
    next
      case raw: (Inr raw)
      obtain es where es: "list_all2 (child_entry X s dirty (known rv objs2) v2) (kept_children s dirty ns) es"
        "raw = concat (map (entry_bytes X) es)"
        using conjunct2 [OF cl, rule_format, OF raw] by (elim exE conjE)
      define ob where "ob = new_object X Tree_Type raw"
      have oid: "gp_oid ob = tree_oid X es" by (simp add: ob_def new_object_def tree_oid_def es(2))
      have res: "v' = v2" "objs' = (if rv_tree rv (gp_oid ob) = None then insert_object ob objs2 else objs2)" "r = Inr (gp_oid ob)"
        using Suc.prems(3) l \<open>r1 = Inr ns\<close> c raw by (auto simp: Let_def ob_def)
      have ok3: "step_ok X v2 objs2 v2 objs'"
        using ok2 insert_object_ok [of X objs2] unfolding res(2)
        by (auto simp: step_ok_def ob_def insert_object_keys)
      have w2: "vfs_wf v2" using ok2 by (simp add: step_ok_def)
      have g2: "grows v1 v2" using cl by (simp add: step_ok_def)
      have "list_all2 (child_entry X s dirty (known rv objs') v2) (kept_children s dirty (live_nodes v2 ids)) es"
        unfolding live_nodes_grows [OF w1(1) g2 ids(1)]
        by (rule list_all2_mono [OF es(1) [unfolded ids(2)]], rule child_entry_step [OF _ w2 ok3])
      moreover have "hm_get (vs_dirs v2) d = Some ids" using ids(1) g2 by (simp add: grows_def)
      moreover have "tree_oid X es \<in> known rv objs'"
        unfolding oid [symmetric] res(2) by (simp add: known_def insert_object_keys)
      ultimately have "tree_of X s dirty (known rv objs') v2 d es" by (intro tree_of.tree)
      then show ?thesis using step_ok_trans [OF ok2 ok3] res(1,3) oid by (auto simp: rebuilt_def)
    qed
  qed
qed

section \<open>The recursion ends\<close>

text \<open>The nodes from an inode up to the root.\<close>

inductive up_chain :: "vfs \<Rightarrow> nat \<Rightarrow> nat list \<Rightarrow> bool" for v where
  root: "up_chain v root_inode [root_inode]"
| up: "up_chain v d ps \<Longrightarrow> hm_get (vs_nodes v) i = Some n \<Longrightarrow> vn_parent n = d \<Longrightarrow> i \<noteq> root_inode \<Longrightarrow>
    up_chain v i (i # ps)"

inductive_cases up_chain_elim: "up_chain v i ps"

lemma up_chain_unique: "up_chain v i ps \<Longrightarrow> up_chain v i qs \<Longrightarrow> ps = qs"
proof (induction arbitrary: qs rule: up_chain.induct)
  case root
  then show ?case by (auto elim: up_chain_elim)
next
  case (up d ps i n)
  obtain d' ps' n' where "qs = i # ps'" "up_chain v d' ps'" "hm_get (vs_nodes v) i = Some n'" "vn_parent n' = d'"
    using up.prems up.hyps(4) by (cases rule: up_chain.cases) auto
  then show ?case using up.IH [of ps'] up.hyps(2,3) by simp
qed

lemma up_chain_suffix: "up_chain v i ps \<Longrightarrow> j \<in> set ps \<Longrightarrow> \<exists>qs rs. ps = qs @ rs \<and> up_chain v j rs"
proof (induction rule: up_chain.induct)
  case root
  then have "j = root_inode" by simp
  then show ?case using up_chain.root by (intro exI [of _ "[]"] exI [of _ "[root_inode]"]) simp
next
  case (up d ps i n)
  show ?case
  proof (cases "j = i")
    case True
    then show ?thesis using up_chain.up [OF up.hyps] by (intro exI [of _ "[]"] exI [of _ "i # ps"]) simp
  next
    case False
    then obtain qs rs where "ps = qs @ rs" "up_chain v j rs" using up.IH up.prems by auto
    then show ?thesis by (intro exI [of _ "i # qs"] exI [of _ rs]) simp
  qed
qed

lemma up_chain_distinct: "up_chain v i ps \<Longrightarrow> distinct ps"
proof (induction rule: up_chain.induct)
  case (up d ps i n)
  have "i \<notin> set ps"
  proof
    assume "i \<in> set ps"
    then obtain qs rs where "ps = qs @ rs" "up_chain v i rs" using up_chain_suffix [OF up.hyps(1)] by blast
    moreover have "rs = i # ps" using up_chain_unique [OF \<open>up_chain v i rs\<close> up_chain.up [OF up.hyps]] .
    ultimately show False by (metis append_assoc append_self_conv2 append_Cons list.distinct(1) append_same_eq append_self_conv)
  qed
  then show ?case using up.IH by simp
qed simp

lemma up_chain_grows: "up_chain v i ps \<Longrightarrow> grows v v' \<Longrightarrow> up_chain v' i ps"
proof (induction rule: up_chain.induct)
  case (up d ps i n)
  then show ?case unfolding grows_def by (intro up_chain.up [of v' d ps i n]) auto
qed (rule up_chain.root)

lemma child_loop_returns:
  assumes rb: "\<And>i v objs. vfs_wf v \<Longrightarrow> objects_ok X objs \<Longrightarrow> up_chain v d ps \<Longrightarrow> up_chain v i (i # ps) \<Longrightarrow> i \<in> set dirty \<Longrightarrow>
      rb i (v, objs) \<noteq> None"
    and sound: "\<And>i v objs v' objs' r. vfs_wf v \<Longrightarrow> objects_ok X objs \<Longrightarrow> rb i (v, objs) = Some ((v', objs'), r) \<Longrightarrow>
      step_ok X v objs v' objs'"
  shows "vfs_wf v \<Longrightarrow> objects_ok X objs \<Longrightarrow> up_chain v d ps \<Longrightarrow> \<forall>c \<in> set cs. up_chain v (vn_id c) (vn_id c # ps) \<Longrightarrow>
    child_loop X rb dirty cs raw (v, objs) \<noteq> None"
proof (induction cs arbitrary: raw v objs)
  case (Cons c cs)
  define st where "st = (if vn_is_dir c \<and> vn_id c \<in> set dirty then rb (vn_id c) (v, objs) else Some ((v, objs), Inr (vn_oid c)))"
  have "st \<noteq> None" using rb [OF Cons.prems(1,2,3)] Cons.prems(4) by (simp add: st_def)
  then obtain v1 objs1 r1 where st: "st = Some ((v1, objs1), r1)" by auto
  have "step_ok X v objs v1 objs1"
    using st sound [OF Cons.prems(1,2)] Cons.prems(1,2) by (auto simp: st_def step_ok_def split: if_splits)
  then have ok: "vfs_wf v1" "objects_ok X objs1" and g: "grows v v1" by (simp_all add: step_ok_def)
  have "up_chain v1 d ps" "\<forall>c \<in> set cs. up_chain v1 (vn_id c) (vn_id c # ps)"
    using Cons.prems(3,4) up_chain_grows [OF _ g] by auto
  note ih = Cons.IH [OF ok this]
  have "child_loop X rb dirty (c # cs) raw (v, objs) = Option.bind st (\<lambda>(st, r). case r of Inl e \<Rightarrow> Some (st, Inl e)
        | Inr child_oid \<Rightarrow> if child_oid = [] then child_loop X rb dirty cs raw st
             else (case tree_entry_bytes X (vn_mode c) (vn_name c) child_oid of
                     Inl e \<Rightarrow> Some (st, Inl e) | Inr bs \<Rightarrow> child_loop X rb dirty cs (raw @ bs) st))"
    by (simp add: st_def)
  then show ?case using ih st by (simp split: sum.split)
qed simp

lemma valid_children_set: "set (valid_children s ns) \<subseteq> set ns"
  by (auto simp: valid_children_def sort_by_key)

lemma rebuild_returns:
  assumes X: "hex_laws X" "sha1_laws X"
  shows "vfs_wf v \<Longrightarrow> objects_ok X objs \<Longrightarrow> up_chain v d ps \<Longrightarrow> set ps \<subseteq> set dirty \<Longrightarrow>
    length dirty < length ps + fuel \<Longrightarrow> rebuild_tree_recursive X rv s dirty fuel d (v, objs) \<noteq> None"
proof (induction fuel arbitrary: d ps v objs)
  case 0
  have "length ps = card (set ps)" using up_chain_distinct [OF 0(3)] by (simp add: distinct_card)
  also have "\<dots> \<le> card (set dirty)" using 0(4) by (simp add: card_mono)
  also have "\<dots> \<le> length dirty" by (rule card_length)
  finally show ?case using 0(5) by simp
next
  case (Suc fuel)
  obtain v1 r1 where l: "list_dir rv d v = (v1, r1)" by (cases "list_dir rv d v")
  have w1: "vfs_wf v1" "grows v v1" using list_dir_keeps [OF Suc.prems(1) l] by simp_all
  show ?case
  proof (cases r1)
    case (Inr ns)
    obtain ids where ids: "hm_get (vs_dirs v1) d = Some ids" "ns = live_nodes v1 ids"
      using list_dir_result(2) [OF l [unfolded Inr]] by blast
    have ch: "up_chain v1 d ps" by (rule up_chain_grows [OF Suc.prems(3) w1(2)])
    have children: "up_chain v1 (vn_id c) (vn_id c # ps)" if c: "c \<in> set (valid_children s ns)" for c
    proof -
      obtain i where i: "i \<in> set ids" "hm_get (vs_nodes v1) i = Some c"
        using subsetD [OF valid_children_set c] unfolding ids(2) live_nodes_set by auto
      then show ?thesis
        using wf_dir(3) [OF w1(1) ids(1) i(1)] wf_node [OF w1(1) i(2)] ch by (auto intro: up_chain.up)
    qed
    have returns: "rebuild_tree_recursive X rv s dirty fuel i (v, objs) \<noteq> None"
      if "vfs_wf v" "objects_ok X objs" "up_chain v d ps" "up_chain v i (i # ps)" "i \<in> set dirty" for i v objs
      using Suc.IH [OF that(1,2,4)] that(5) Suc.prems(4,5) by simp
    have "child_loop X (rebuild_tree_recursive X rv s dirty fuel) dirty (valid_children s ns) [] (v1, objs) \<noteq> None"
    proof (rule child_loop_returns [OF _ _ w1(1) Suc.prems(2) ch])
      show "step_ok X v objs v' objs'" if "vfs_wf v" "objects_ok X objs"
        "rebuild_tree_recursive X rv s dirty fuel i (v, objs) = Some ((v', objs'), r)" for i v objs v' objs' r
        using rebuild_sound [OF X that] by (simp add: rebuilt_def)
    qed (use children returns in blast)+
    then show ?thesis using l Inr by (auto simp: Let_def split: sum.split)
  qed (use l in simp)
qed

section \<open>Staged files and dirty directories\<close>

text \<open>Inode tables that differ in object ids only.\<close>

definition same_shape :: "vfs \<Rightarrow> vfs \<Rightarrow> bool" where
  "same_shape v v' \<longleftrightarrow> vs_child v' = vs_child v \<and> vs_dirs v' = vs_dirs v \<and>
     (\<forall>i. map_option (vn_oid_update (\<lambda>_. [])) (hm_get (vs_nodes v') i) =
          map_option (vn_oid_update (\<lambda>_. [])) (hm_get (vs_nodes v) i))"

lemma same_shape_refl [simp]: "same_shape v v"
  by (simp add: same_shape_def)

lemma same_shape_trans: "same_shape u v \<Longrightarrow> same_shape v w \<Longrightarrow> same_shape u w"
  by (simp add: same_shape_def)

lemma same_shape_oid: "same_shape v (node_update i (vn_oid_update f) v)"
  by (auto simp: same_shape_def get_node_update option.map_comp comp_def)

lemma same_shape_node:
  assumes "same_shape v v'" "hm_get (vs_nodes v) i = Some n"
  obtains oid where "hm_get (vs_nodes v') i = Some (n\<lparr>vn_oid := oid\<rparr>)"
proof -
  have "map_option (vn_oid_update (\<lambda>_. [])) (hm_get (vs_nodes v') i) = Some (n\<lparr>vn_oid := []\<rparr>)"
    using assms by (simp add: same_shape_def)
  then obtain m where m: "hm_get (vs_nodes v') i = Some m" "m\<lparr>vn_oid := []\<rparr> = n\<lparr>vn_oid := []\<rparr>" by auto
  then have "m = n\<lparr>vn_oid := vn_oid m\<rparr>" by (cases m, cases n) simp
  then show thesis using m(1) that by metis
qed

lemma same_shape_sym: "same_shape v v' \<Longrightarrow> same_shape v' v"
  by (simp add: same_shape_def)

lemma same_shape_chain: "up_chain v i ps \<Longrightarrow> same_shape v v' \<Longrightarrow> up_chain v' i ps"
proof (induction rule: up_chain.induct)
  case (up d ps i n)
  obtain oid where "hm_get (vs_nodes v') i = Some (n\<lparr>vn_oid := oid\<rparr>)"
    by (rule same_shape_node [OF up.prems up.hyps(2)])
  then show ?case using up by (intro up_chain.up [of v' d ps i "n\<lparr>vn_oid := oid\<rparr>"]) auto
qed (rule up_chain.root)

lemma same_shape_live: "same_shape v v' \<Longrightarrow> get_node v i \<noteq> None \<longleftrightarrow> get_node v' i \<noteq> None"
proof -
  have "get_node v' i \<noteq> None" if ss: "same_shape v v'" and lv: "get_node v i \<noteq> None" for v v'
  proof -
    obtain n where n: "hm_get (vs_nodes v) i = Some n" "\<not> vn_deleted n"
      using lv by (auto simp: get_node_def split: option.splits if_splits)
    obtain oid where "hm_get (vs_nodes v') i = Some (n\<lparr>vn_oid := oid\<rparr>)" by (rule same_shape_node [OF ss n(1)])
    then show ?thesis using n by (simp add: get_node_def)
  qed
  then show "same_shape v v' \<Longrightarrow> get_node v i \<noteq> None \<longleftrightarrow> get_node v' i \<noteq> None" using same_shape_sym by blast
qed

lemma same_shape_dir_map: "same_shape v v' \<Longrightarrow> dir_map v' = dir_map v"
proof
  fix k :: "nat \<times> string" assume s: "same_shape v v'"
  obtain d nm where k: "k = (d, nm)" by (cases k)
  have c: "vs_child v' = vs_child v" using s by (simp add: same_shape_def)
  have g: "live_child u d nm = (case hm_get (vs_child u) (d, nm) of None \<Rightarrow> None
      | Some i \<Rightarrow> if get_node u i = None then None else Some i)" for u
    by (auto simp: live_child_def get_node_def split: option.splits)
  have "get_node v' i = None \<longleftrightarrow> get_node v i = None" for i using same_shape_live [OF s, of i] by blast
  then show "dir_map v' k = dir_map v k" by (simp add: dir_map_def k g c split: option.split)
qed

lemma walk_same: "same_shape v v' \<Longrightarrow> walk v' d nms = walk v d nms"
  by (induction nms arbitrary: d) (simp_all add: same_shape_dir_map split: option.split)

text \<open>What processing the staged files does.\<close>

definition blob_oid :: "ext \<Rightarrow> bytes \<Rightarrow> string" where
  "blob_oid X content = compute_git_sha1 X Blob_Type content"

definition committable :: "io \<Rightarrow> staging \<Rightarrow> vfs \<Rightarrow> nat \<Rightarrow> bytes \<Rightarrow> bool" where
  "committable io s v i content \<longleftrightarrow>
     (\<exists>n. get_node v i = Some n \<and> \<not> is_apple_metadata (vn_name n)) \<and> get_staged_content io i s = Inr (Some content)"

lemma committable_same: "same_shape v v' \<Longrightarrow> committable io s v i content \<Longrightarrow> committable io s v' i content"
proof -
  assume s: "same_shape v v'" and c: "committable io s v i content"
  obtain n where n: "hm_get (vs_nodes v) i = Some n" "\<not> vn_deleted n" "\<not> is_apple_metadata (vn_name n)"
    using c by (auto simp: committable_def get_node_def split: option.splits if_splits)
  obtain oid where "hm_get (vs_nodes v') i = Some (n\<lparr>vn_oid := oid\<rparr>)" by (rule same_shape_node [OF s n(1)])
  then show ?thesis using n c by (simp add: committable_def get_node_def)
qed

lemma oid_update_wf: "vfs_wf v \<Longrightarrow> vfs_wf (node_update i (vn_oid_update f) v)"
  using update_keeps [of v i "vn_oid_update f"] by simp

text \<open>The node of an inode has the id of its staged content.\<close>

definition oid_staged :: "ext \<Rightarrow> vfs \<Rightarrow> objects \<Rightarrow> nat \<Rightarrow> bytes \<Rightarrow> bool" where
  "oid_staged X v objs i content \<longleftrightarrow>
     (\<exists>n. hm_get (vs_nodes v) i = Some n \<and> vn_oid n = blob_oid X content) \<and> blob_oid X content \<in> fst ` set objs"

lemma stage_blobs_ok:
  assumes "stage_blobs X io s ids (v, objs) = ((v', objs'), r)" "vfs_wf v" "objects_ok X objs"
  shows "vfs_wf v' \<and> objects_ok X objs' \<and> same_shape v v' \<and> fst ` set objs \<subseteq> fst ` set objs'"
  using assms
proof (induction ids arbitrary: v objs)
  case (Cons i ids)
  have skip: ?case if "stage_blobs X io s ids (v, objs) = ((v', objs'), r)"
    using Cons.IH [OF that] Cons.prems by simp
  show ?case
  proof (cases "\<exists>c. committable io s v i c")
    case True
    then obtain n c where n: "get_node v i = Some n" "\<not> is_apple_metadata (vn_name n)" "get_staged_content io i s = Inr (Some c)"
      by (auto simp: committable_def)
    define ob where "ob = new_object X Blob_Type c"
    have run: "stage_blobs X io s ids (node_update i (vn_oid_update (\<lambda>_. gp_oid ob)) v, insert_object ob objs) = ((v', objs'), r)"
      using Cons.prems(1) n by (simp add: ob_def Let_def)
    have "objects_ok X (insert_object ob objs)" unfolding ob_def by (rule insert_object_ok) fact
    from Cons.IH [OF run oid_update_wf [OF Cons.prems(2)] this] show ?thesis
      using same_shape_trans [OF same_shape_oid] by (auto simp: insert_object_keys)
  next
    case False
    then have "stage_blobs X io s ids (v, objs) = ((v', objs'), r) \<or> (v', objs') = (v, objs)"
      using Cons.prems(1) by (auto simp: committable_def split: option.splits if_splits sum.splits)
    then show ?thesis using skip Cons.prems by auto
  qed
qed simp

lemma stage_blobs_oids:
  assumes "stage_blobs X io s ids (v, objs) = ((v', objs'), Inr ())" "vfs_wf v" "objects_ok X objs"
    "committable io s v j c" "oid_staged X v objs j c \<or> j \<in> set ids"
  shows "oid_staged X v' objs' j c"
  using assms
proof (induction ids arbitrary: v objs)
  case (Cons i ids)
  show ?case
  proof (cases "\<exists>c. committable io s v i c")
    case True
    then obtain n d where n: "get_node v i = Some n" "\<not> is_apple_metadata (vn_name n)" "get_staged_content io i s = Inr (Some d)"
      by (auto simp: committable_def)
    define ob where "ob = new_object X Blob_Type d"
    define u where "u = node_update i (vn_oid_update (\<lambda>_. gp_oid ob)) v"
    have run: "stage_blobs X io s ids (u, insert_object ob objs) = ((v', objs'), Inr ())"
      using Cons.prems(1) n by (simp add: ob_def u_def Let_def)
    have g: "gp_oid ob = blob_oid X d" by (simp add: ob_def new_object_def blob_oid_def)
    have "oid_staged X u (insert_object ob objs) j c \<or> j \<in> set ids"
    proof (cases "j = i")
      case True
      then have "d = c" using Cons.prems(4) n by (simp add: committable_def)
      moreover obtain m where "hm_get (vs_nodes v) i = Some m" using n(1) by (auto simp: get_node_def split: option.splits)
      ultimately show ?thesis using True g by (simp add: oid_staged_def u_def get_node_update insert_object_keys)
    next
      case False
      then show ?thesis using Cons.prems(5) by (auto simp: oid_staged_def u_def get_node_update insert_object_keys)
    qed
    moreover have "committable io s u j c"
      unfolding u_def using Cons.prems(4) by (rule committable_same [OF same_shape_oid])
    moreover have "vfs_wf u" unfolding u_def using Cons.prems(2) by (rule oid_update_wf)
    moreover have "objects_ok X (insert_object ob objs)" unfolding ob_def using Cons.prems(3) by (rule insert_object_ok)
    ultimately show ?thesis using Cons.IH [OF run] by blast
  next
    case False
    then have "stage_blobs X io s ids (v, objs) = ((v', objs'), Inr ())"
      using Cons.prems(1) by (auto simp: committable_def split: option.splits if_splits sum.splits)
    moreover have "j \<noteq> i" using False Cons.prems(4) by blast
    ultimately show ?thesis using Cons.IH [of v objs] Cons.prems by simp
  qed
qed simp

lemma dirty_walk_mono:
  assumes "dirty_walk v i dirty = Some dirty'"
  shows "set dirty \<subseteq> set dirty'"
proof (rule dirty_walk.raw_induct [where P = "\<lambda>v i dirty dirty'. set dirty \<subseteq> set dirty'", OF _ assms])
  fix loop v i and dirty dirty' :: "nat list"
  assume ih: "\<And>v i dirty dirty'. loop v i dirty = Some dirty' \<Longrightarrow> set dirty \<subseteq> set dirty'"
    and body: "(case get_node v i of None \<Rightarrow> Some dirty
      | Some node \<Rightarrow> let dirty1 = if vn_is_dir node then List.insert (vn_id node) dirty else dirty;
            dirty2 = List.insert (vn_parent node) dirty1
         in if vn_parent node = root_inode \<or> vn_parent node = i then Some dirty2
            else loop v (vn_parent node) dirty2) = Some dirty'"
  show "set dirty \<subseteq> set dirty'"
    using body ih [of v _ _ dirty'] by (auto simp: Let_def split: option.splits if_splits) fastforce+
qed

lemma dirty_loop_mono: "dirty_loop v ids dirty = Some dirty' \<Longrightarrow> set dirty \<subseteq> set dirty'"
  by (induction ids arbitrary: dirty) (auto simp: bind_eq_Some_conv dest: dirty_walk_mono)

lemma dirty_walk_chain:
  assumes "vfs_wf v" "up_chain v i ps"
  shows "\<exists>dirty'. dirty_walk v i dirty = Some dirty' \<and>
    (i \<noteq> root_inode \<longrightarrow> (\<forall>j \<in> set ps. get_node v j \<noteq> None) \<longrightarrow> set (drop 1 ps) \<subseteq> set dirty')"
  using assms(2)
proof (induction arbitrary: dirty rule: up_chain.induct)
  case root
  obtain n where "hm_get (vs_nodes v) root_inode = Some n" "\<not> vn_deleted n" "vn_parent n = root_inode"
    using assms(1) unfolding vfs_wf_def nodes_wf_def by blast
  then show ?case by (subst dirty_walk.simps) (simp add: get_node_def)
next
  case (up d ps i n)
  show ?case
  proof (cases "vn_deleted n")
    case True
    then have "get_node v i = None" using up.hyps(2) by (simp add: get_node_def)
    then show ?thesis by (subst dirty_walk.simps) simp
  next
    case False
    then have n: "get_node v i = Some n" using up.hyps(2) by (simp add: get_node_def)
    define dirty2 where "dirty2 = List.insert d (if vn_is_dir n then List.insert (vn_id n) dirty else dirty)"
    have run: "dirty_walk v i dirty = (if d = root_inode \<or> d = i then Some dirty2 else dirty_walk v d dirty2)"
      using n up.hyps(3) by (subst dirty_walk.simps) (simp add: dirty2_def)
    have d2: "d \<in> set dirty2" by (simp add: dirty2_def)
    obtain qs where ps: "ps = d # qs" using up.hyps(1) by (auto elim: up_chain_elim)
    have "d \<noteq> i" using up_chain_distinct [OF up_chain.up [OF up.hyps]] ps by auto
    show ?thesis
    proof (cases "d = root_inode")
      case True
      then have "ps = [root_inode]" using up_chain_unique [OF up.hyps(1)] up_chain.root by blast
      then show ?thesis using run True d2 by simp
    next
      case False
      obtain dirty' where ih: "dirty_walk v d dirty2 = Some dirty'"
        "(\<forall>j \<in> set ps. get_node v j \<noteq> None) \<longrightarrow> set (drop 1 ps) \<subseteq> set dirty'"
        using up.IH [of dirty2] False by blast
      moreover have "d \<in> set dirty'" using dirty_walk_mono [OF ih(1)] d2 by blast
      ultimately show ?thesis using run False \<open>d \<noteq> i\<close> ps by simp
    qed
  qed
qed

lemma dirty_loop_chain:
  assumes "vfs_wf v" "dirty_loop v ids dirty = Some dirty'" "i \<in> set ids" "up_chain v i ps" "i \<noteq> root_inode"
    "\<forall>j \<in> set ps. get_node v j \<noteq> None"
  shows "set (drop 1 ps) \<subseteq> set dirty'"
  using assms(2,3)
proof (induction ids arbitrary: dirty)
  case (Cons k ids)
  obtain d1 where d1: "dirty_walk v k dirty = Some d1" "dirty_loop v ids d1 = Some dirty'"
    using Cons.prems(1) by (auto simp: bind_eq_Some_conv)
  show ?case
  proof (cases "k = i")
    case True
    then have "set (drop 1 ps) \<subseteq> set d1" using dirty_walk_chain [OF assms(1,4), of dirty] d1(1) assms(5,6) by auto
    then show ?thesis using dirty_loop_mono [OF d1(2)] by blast
  qed (use Cons d1 in auto)
qed simp

lemma dirty_loop_returns:
  assumes "vfs_wf v" "\<forall>i \<in> set ids. hm_get (vs_nodes v) i \<noteq> None \<longrightarrow> (\<exists>ps. up_chain v i ps)"
  shows "dirty_loop v ids dirty \<noteq> None"
  using assms(2)
proof (induction ids arbitrary: dirty)
  case (Cons k ids)
  have "dirty_walk v k dirty \<noteq> None"
  proof (cases "hm_get (vs_nodes v) k")
    case None
    then show ?thesis by (subst dirty_walk.simps) (simp add: get_node_def)
  next
    case (Some n)
    then show ?thesis using Cons.prems dirty_walk_chain [OF assms(1)] by fastforce
  qed
  then show ?case using Cons by auto
qed simp

end
