(* ===== verification/Commit_Spec.thy ===== *)
theory Commit_Spec
  imports Tree_Builder
begin

text \<open>
  What a commit promises, over Tree_Builder: the committed root leads, name by name through trees
  given by their hashes (\<open>merkle_path\<close>), to the blobs of the staged bytes; building it always
  returns; and the case where it loses a change.
\<close>

section \<open>Paths through hashed trees\<close>

text \<open>
  \<open>merkle_path X root names oid\<close>: the tree with id \<open>root\<close> leads, along the names, to the
  object with id \<open>oid\<close>; a tree is given by the entries that hash to its id.
\<close>

inductive merkle_path :: "ext \<Rightarrow> string \<Rightarrow> string list \<Rightarrow> string \<Rightarrow> bool" for X where
  here: "merkle_path X oid [] oid"
| down: "e \<in> set es \<Longrightarrow> te_name e = nm \<Longrightarrow> merkle_path X (te_oid e) nms oid \<Longrightarrow>
    merkle_path X (tree_oid X es) (nm # nms) oid"

text \<open>The directories a walk goes through.\<close>

fun walk_dirs :: "vfs \<Rightarrow> nat \<Rightarrow> string list \<Rightarrow> nat list" where
  "walk_dirs v d [] = []"
| "walk_dirs v d (nm # nms) = d # (case dir_map v (d, nm) of None \<Rightarrow> [] | Some c \<Rightarrow> walk_dirs v c nms)"

lemma walk_chain:
  assumes "vfs_wf v"
  shows "walk v d nms = Some i \<Longrightarrow> up_chain v d (d # qs) \<Longrightarrow> up_chain v i (i # rev (walk_dirs v d nms) @ qs)"
proof (induction nms arbitrary: d qs)
  case (Cons nm nms)
  then obtain c where c: "dir_map v (d, nm) = Some c" "walk v c nms = Some i" by (auto split: option.splits)
  obtain n where "hm_get (vs_nodes v) c = Some n" "vn_parent n = d" "c \<noteq> root_inode"
    using dir_map_node [OF assms c(1)] by blast
  then have "up_chain v c (c # d # qs)" by (intro up_chain.up [OF Cons.prems(2)])
  from Cons.IH [OF c(2) this] show ?case using c(1) by simp
qed simp

lemma dir_map_live: "dir_map v (d, nm) = Some i \<Longrightarrow> get_node v i \<noteq> None"
  by (auto simp: dir_map_def live_child_def get_node_def split: option.splits if_splits)

lemma walk_live:
  "walk v d nms = Some i \<Longrightarrow> get_node v d \<noteq> None \<Longrightarrow> \<forall>j \<in> insert i (set (walk_dirs v d nms)). get_node v j \<noteq> None"
  by (induction nms arbitrary: d) (auto split: option.splits dest: dir_map_live)

lemma root_live: "vfs_wf v \<Longrightarrow> get_node v root_inode \<noteq> None"
  by (auto simp: vfs_wf_def nodes_wf_def get_node_def)

text \<open>A child found by name stands in the listing, in any table the listings have led to.\<close>

lemma listed_child:
  assumes "vfs_wf v" "grows v v'" "dir_map v (d, nm) = Some c" "hm_get (vs_dirs v') d = Some ids"
  obtains n where "n \<in> set (live_nodes v' ids)" "hm_get (vs_nodes v) c = Some n" "vn_id n = c" "vn_name n = nm"
proof -
  have "hm_get (vs_child v) (d, nm) = Some c"
    using assms(3) by (auto simp: dir_map_def live_child_def split: option.splits if_splits)
  then obtain n ids0 where n: "hm_get (vs_nodes v) c = Some n" "vn_name n = nm" "hm_get (vs_dirs v) d = Some ids0" "c \<in> set ids0"
    using wf_child [OF assms(1)] by metis
  have "ids0 = ids" using n(3) assms(2,4) by (auto simp: grows_def)
  moreover have "hm_get (vs_nodes v') c = Some n" using n(1) assms(2) by (simp add: grows_def)
  moreover have "\<not> vn_deleted n" using dir_map_live [OF assms(3)] n(1) by (auto simp: get_node_def split: if_splits)
  ultimately have "n \<in> set (live_nodes v' ids)" using n(4) unfolding live_nodes_set by blast
  then show thesis using that n(1,2) wf_node [OF assms(1) n(1)] by simp
qed

lemma list_all2_pick: "list_all2 R xs ys \<Longrightarrow> x \<in> set xs \<Longrightarrow> \<exists>y \<in> set ys. R x y"
  by (induction rule: list_all2_induct) auto

text \<open>The tree of a directory leads along a walk to the id of the node at its end.\<close>

lemma tree_of_walk:
  assumes "vfs_wf v" "grows v v'"
  shows "tree_of X s dirty K v' d es \<Longrightarrow> walk v d nms = Some i \<Longrightarrow> nms \<noteq> [] \<Longrightarrow>
    set (walk_dirs v d nms) \<subseteq> set dirty \<Longrightarrow> (\<forall>nm \<in> set nms. \<not> is_apple_metadata nm) \<Longrightarrow>
    (\<forall>j. is_deleted s j \<longrightarrow> get_node v j = None) \<Longrightarrow>
    hm_get (vs_nodes v) i = Some n \<Longrightarrow> \<not> vn_is_dir n \<Longrightarrow> vn_oid n \<noteq> [] \<Longrightarrow>
    merkle_path X (tree_oid X es) nms (vn_oid n)"
proof (induction nms arbitrary: d es)
  case (Cons nm nms)
  obtain c where c: "dir_map v (d, nm) = Some c" "walk v c nms = Some i"
    using Cons.prems(2) by (auto split: option.splits)
  from Cons.prems(1) obtain ids where ids: "hm_get (vs_dirs v') d = Some ids"
    "list_all2 (child_entry X s dirty K v') (kept_children s dirty (live_nodes v' ids)) es"
    by (auto elim: tree_of.cases)
  obtain m where m: "m \<in> set (live_nodes v' ids)" "hm_get (vs_nodes v) c = Some m" "vn_id m = c" "vn_name m = nm"
    using listed_child [OF assms c(1) ids(1)] by blast
  have del: "\<not> is_deleted s c" using Cons.prems(6) dir_map_live [OF c(1)] by metis
  have valid: "m \<in> set (valid_children s (live_nodes v' ids))"
    using m del Cons.prems(5) by (simp add: valid_children_def sort_by_key)
  show ?case
  proof (cases nms)
    case Nil
    then have "c = i" "m = n" using c(2) m(2) Cons.prems(7) by auto
    then have "m \<in> set (kept_children s dirty (live_nodes v' ids))" "\<not> recursed dirty m"
      using valid Cons.prems(8,9) by (auto simp: kept_children_def recursed_def)
    then obtain e where "e \<in> set es" "te_name e = nm" "te_oid e = vn_oid n"
      using list_all2_pick [OF ids(2)] m(4) \<open>m = n\<close> by blast
    then show ?thesis using Nil merkle_path.down [of e es nm X "[]" "vn_oid n"] merkle_path.here [of X "vn_oid n"] by simp
  next
    case nms: (Cons nm' nms')
    then have "set (walk_dirs v c nms) \<subseteq> set dirty" "c \<in> set dirty" using Cons.prems(4) c(1) by auto
    moreover obtain c' where "dir_map v (c, nm') = Some c'" using c(2) nms by (auto split: option.splits)
    then have "hm_get (vs_child v) (c, nm') = Some c'"
      by (auto simp: dir_map_def live_child_def split: option.splits if_splits)
    then obtain ids' where "hm_get (vs_dirs v) c = Some ids'" using wf_child [OF assms(1)] by metis
    then have "vn_is_dir m" using wf_dir(2) [OF assms(1)] m(2) by fastforce
    ultimately have r: "recursed dirty m" using m(3) by (simp add: recursed_def)
    then have "m \<in> set (kept_children s dirty (live_nodes v' ids))" using valid by (simp add: kept_children_def)
    then obtain e es' where e: "e \<in> set es" "te_name e = nm" "tree_of X s dirty K v' c es'" "te_oid e = tree_oid X es'"
      using list_all2_pick [OF ids(2)] r m(3,4) by blast
    have "merkle_path X (tree_oid X es') nms (vn_oid n)"
      using Cons.IH [OF e(3) c(2)] nms Cons.prems(5-9) \<open>set (walk_dirs v c nms) \<subseteq> set dirty\<close> by simp
    then show ?thesis using merkle_path.down [OF e(1,2), of X nms] e(4) by simp
  qed
qed simp

section \<open>Correctness of a commit\<close>

text \<open>What a run that succeeds goes through.\<close>

lemma rebuild_parts:
  assumes "rebuild_git_objects X rv io ts s base author msg v = Some (v', Inr (commit, root, obs))"
    "vfs_wf v" "hex_laws X" "sha1_laws X"
  obtains v1 objs1 dirty objs2 es message where
    "stage_blobs X io s (list_staged_nodes s) (v, []) = ((v1, objs1), Inr ())" "vfs_wf v1" "same_shape v v1"
    "dirty_dirs v1 s = Some dirty" "step_ok X v1 objs1 v' objs2"
    "tree_of X s dirty (known rv objs2) v' root_inode es" "root = tree_oid X es"
    "effective_message v' s msg = Some message"
    "commit = compute_git_sha1 X Commit_Type (str_bytes (commit_content root base author ts message))"
    "obs = map snd (insert_object (new_object X Commit_Type (str_bytes (commit_content root base author ts message))) objs2)"
proof -
  obtain v1 objs1 r1 where sb: "stage_blobs X io s (list_staged_nodes s) (v, []) = ((v1, objs1), r1)"
    by (metis surj_pair)
  have r1: "r1 = Inr ()" using assms(1) sb by (cases r1) (auto simp: rebuild_git_objects_def)
  have ok1: "vfs_wf v1" "objects_ok X objs1" "same_shape v v1"
    using stage_blobs_ok [OF sb assms(2)] by (auto simp: objects_ok_def)
  obtain dirty v2 objs2 r2 where d: "dirty_dirs v1 s = Some dirty"
    "rebuild_tree_recursive X rv s dirty (length dirty) root_inode (v1, objs1) = Some ((v2, objs2), r2)"
    using assms(1) sb r1 by (auto simp: rebuild_git_objects_def bind_eq_Some_conv)
  have run: "(case r2 of Inl e \<Rightarrow> Some (v2, Inl e)
     | Inr root \<Rightarrow> map_option (\<lambda>message.
          let commit = new_object X Commit_Type (str_bytes (commit_content root base author ts message))
          in (v2, Inr (gp_oid commit, root, map snd (insert_object commit objs2)))) (effective_message v2 s msg))
     = Some (v', Inr (commit, root, obs))"
    using assms(1) sb r1 d by (simp add: rebuild_git_objects_def)
  then obtain rt message where m: "r2 = Inr rt" "effective_message v2 s msg = Some message" by (cases r2) auto
  note rb = rebuild_sound [OF assms(3,4) ok1(1,2) d(2)]
  show thesis
    using that [OF sb [unfolded r1] ok1(1,3) d(1), of objs2] rb run m
    unfolding rebuilt_def by (auto simp: Let_def new_object_def)
qed

lemma objects_ok_values: "objects_ok X objs \<Longrightarrow> gp_oid ` set (map snd objs) = fst ` set objs"
  by (force simp: objects_ok_def image_iff)

lemma staged_key: "get_staged_content io i s = Inr (Some c) \<Longrightarrow> i \<in> set (list_staged_nodes s)"
  by (auto simp: get_staged_content_def is_staged_def list_staged_nodes_def hm_get_None_iff split: if_splits)

lemma walk_last: "vfs_wf v \<Longrightarrow> walk v d nms = Some i \<Longrightarrow> nms \<noteq> [] \<Longrightarrow>
    \<exists>n. hm_get (vs_nodes v) i = Some n \<and> vn_name n = last nms"
proof (induction nms arbitrary: d)
  case (Cons nm nms)
  then obtain c where c: "dir_map v (d, nm) = Some c" "walk v c nms = Some i" by (auto split: option.splits)
  show ?case
  proof (cases "nms = []")
    case True
    then show ?thesis using c dir_map_node [OF Cons.prems(1) c(1)] by auto
  qed (use Cons.IH [OF Cons.prems(1) c(2)] in simp)
qed simp

lemma staged_in_tree:
  assumes "hex_laws X" "sha1_laws X" "vfs_wf v"
    and run: "rebuild_git_objects X rv io ts s base author msg v = Some (v', Inr (commit, root, obs))"
    and path: "walk v root_inode nms = Some i" "nms \<noteq> []" "\<forall>nm \<in> set nms. \<not> is_apple_metadata nm"
    and fl: "get_node v i = Some n" "\<not> vn_is_dir n" "get_staged_content io i s = Inr (Some content)"
    and del: "\<forall>j. is_deleted s j \<longrightarrow> get_node v j = None"
  shows "merkle_path X root nms (compute_git_sha1 X Blob_Type content) \<and>
    compute_git_sha1 X Blob_Type content \<in> gp_oid ` set obs \<and>
    (\<exists>message. \<lparr>gp_oid = commit, gp_type = Commit_Type,
        gp_data = str_bytes (commit_content root base author ts message)\<rparr> \<in> set obs) \<and>
    (\<forall>ob \<in> set obs. gp_oid ob = compute_git_sha1 X (gp_type ob) (gp_data ob))"
proof -
  obtain v1 objs1 dirty objs2 es message where
    p: "stage_blobs X io s (list_staged_nodes s) (v, []) = ((v1, objs1), Inr ())" "vfs_wf v1" "same_shape v v1"
      "dirty_dirs v1 s = Some dirty" "step_ok X v1 objs1 v' objs2"
      "tree_of X s dirty (known rv objs2) v' root_inode es" "root = tree_oid X es"
      "effective_message v' s msg = Some message"
      "commit = compute_git_sha1 X Commit_Type (str_bytes (commit_content root base author ts message))"
    and obs: "obs = map snd (insert_object (new_object X Commit_Type (str_bytes (commit_content root base author ts message))) objs2)"
    using rebuild_parts [OF run assms(3,1,2)] by metis
  define ob where "ob = new_object X Commit_Type (str_bytes (commit_content root base author ts message))"
  have nd: "hm_get (vs_nodes v) i = Some n" "\<not> vn_deleted n" using fl(1) by (auto simp: get_node_def split: option.splits if_splits)
  then have "vn_name n = last nms" using walk_last [OF assms(3) path(1,2)] by auto
  then have "committable io s v i content" using fl path(2,3) by (simp add: committable_def)
  then have st: "oid_staged X v1 objs1 i content"
    using stage_blobs_oids [OF p(1) assms(3) _ _ disjI2 [OF staged_key [OF fl(3)]]] by (simp add: objects_ok_def)
  obtain oid where n1: "hm_get (vs_nodes v1) i = Some (n\<lparr>vn_oid := oid\<rparr>)" by (rule same_shape_node [OF p(3) nd(1)])
  have oid: "oid = blob_oid X content" using st n1 by (auto simp: oid_staged_def)
  have ne: "oid \<noteq> []" unfolding oid blob_oid_def compute_git_sha1_def Let_def
    using hex_encode_nonempty [OF assms(1)] sha1_length [OF assms(2)] by (metis list.size(3) zero_neq_numeral)
  have w: "walk v1 root_inode nms = Some i" using path(1) walk_same [OF p(3)] by simp
  note live = walk_live [OF w root_live [OF p(2)]]
  have ch: "up_chain v1 i (i # rev (walk_dirs v1 root_inode nms))"
    using walk_chain [OF p(2) w up_chain.root] by simp
  have "i \<noteq> root_inode"
    using up_chain_unique [OF ch] up_chain.root path(2) by (cases nms) fastforce+
  then have "set (walk_dirs v1 root_inode nms) \<subseteq> set dirty"
    using dirty_loop_chain [OF p(2) p(4) [unfolded dirty_dirs_def] _ ch] live staged_key [OF fl(3)] by simp
  moreover have "\<forall>j. is_deleted s j \<longrightarrow> get_node v1 j = None" using del same_shape_live [OF p(3)] by blast
  ultimately have "merkle_path X root nms oid"
    using tree_of_walk [OF p(2) _ p(6) w path(2) _ path(3) _ n1] p(5,7) fl(2) ne by (simp add: step_ok_def)
  moreover have ok: "objects_ok X (insert_object ob objs2)"
    unfolding ob_def using insert_object_ok p(5) by (simp add: step_ok_def)
  moreover have "blob_oid X content \<in> gp_oid ` set obs"
    unfolding obs ob_def [symmetric] objects_ok_values [OF ok]
    using st p(5) by (auto simp: oid_staged_def step_ok_def insert_object_keys)
  moreover have "hm_get (insert_object ob objs2) (gp_oid ob) = Some ob" by (simp add: insert_object_def)
  then have "ob \<in> set obs" unfolding obs ob_def [symmetric] by (force dest: hm_get_Some_in)
  moreover have "ob = \<lparr>gp_oid = commit, gp_type = Commit_Type,
      gp_data = str_bytes (commit_content root base author ts message)\<rparr>"
    by (simp add: ob_def new_object_def p(9))
  moreover have "\<forall>ob \<in> set obs. gp_oid ob = compute_git_sha1 X (gp_type ob) (gp_data ob)"
    using ok unfolding obs ob_def [symmetric] by (auto simp: objects_ok_def)
  ultimately show ?thesis using oid by (auto simp: blob_oid_def)
qed

text \<open>
  C3: what was staged is what is committed: for every staged file that a path of live directories
  leads to, with no Apple metadata name on it (a commit leaves those out), following the names of the path through the committed root tree ends at the id of
  the blob with exactly the staged bytes; this blob and the commit object naming the root tree
  are among the new objects, and every new object is filed under the hash of its own content.
\<close>

theorem staged_file_committed:
  assumes "hex_laws X" "sha1_laws X" "vfs_wf v"
    and run: "rebuild_git_objects X rv io ts s base author msg v = Some (v', Inr (commit, root, obs))"
    and path: "walk v root_inode nms = Some i" "nms \<noteq> []" "\<forall>nm \<in> set nms. \<not> is_apple_metadata nm"
    and fl: "get_node v i = Some n" "\<not> vn_is_dir n" "get_staged_content io i s = Inr (Some content)"
    and del: "\<forall>j. is_deleted s j \<longrightarrow> get_node v j = None"
  shows "merkle_path X root nms (compute_git_sha1 X Blob_Type content) \<and>
    compute_git_sha1 X Blob_Type content \<in> gp_oid ` set obs \<and>
    (\<exists>message. \<lparr>gp_oid = commit, gp_type = Commit_Type,
        gp_data = str_bytes (commit_content root base author ts message)\<rparr> \<in> set obs) \<and>
    (\<forall>ob \<in> set obs. gp_oid ob = compute_git_sha1 X (gp_type ob) (gp_data ob))"
  by (rule staged_in_tree [OF assms])

lemma path_loop_chain: "up_chain v i ps \<Longrightarrow> path_loop v i acc \<noteq> None"
proof (induction arbitrary: acc rule: up_chain.induct)
  case root
  then show ?case by (subst path_loop.simps) simp
next
  case (up d ps i n)
  then show ?case by (subst path_loop.simps) simp
qed

lemma node_paths_returns: "\<forall>i \<in> set ids. \<exists>ps. up_chain v i ps \<Longrightarrow> node_paths v ids \<noteq> None"
proof (induction ids)
  case (Cons i ids)
  then obtain ps where "up_chain v i ps" by auto
  then have "get_path v i \<noteq> None" using path_loop_chain [of v i ps "[]"] by (auto simp: get_path_def)
  then show ?case using Cons by auto
qed simp

text \<open>
  C18: building a commit always returns, a commit or an error, when every changed node hangs under
  the root, also a deleted one: the fuel of one unit per dirty directory is enough, and the walks
  to the root end.
\<close>

theorem rebuild_enough_fuel:
  assumes "hex_laws X" "sha1_laws X" "vfs_wf v"
    and hang: "\<forall>i \<in> set (list_staged_nodes s) \<union> set (list_deleted_nodes s). \<exists>ps. up_chain v i ps"
  shows "rebuild_git_objects X rv io ts s base author msg v \<noteq> None"
proof -
  obtain v1 objs1 r1 where sb: "stage_blobs X io s (list_staged_nodes s) (v, []) = ((v1, objs1), r1)"
    by (metis surj_pair)
  have ok1: "vfs_wf v1" "objects_ok X objs1" "same_shape v v1"
    using stage_blobs_ok [OF sb assms(3)] by (auto simp: objects_ok_def)
  have hang1: "\<forall>i \<in> set (list_staged_nodes s @ list_deleted_nodes s). \<exists>ps. up_chain v1 i ps"
    using hang same_shape_chain [OF _ ok1(3)] by fastforce
  then obtain dirty where d: "dirty_dirs v1 s = Some dirty"
    using dirty_loop_returns [OF ok1(1), of "list_staged_nodes s @ list_deleted_nodes s" "[root_inode]"]
    by (auto simp: dirty_dirs_def)
  have "root_inode \<in> set dirty" using dirty_loop_mono [OF d [unfolded dirty_dirs_def]] by simp
  then have "rebuild_tree_recursive X rv s dirty (length dirty) root_inode (v1, objs1) \<noteq> None"
    using rebuild_returns [OF assms(1,2) ok1(1,2) up_chain.root] by simp
  then obtain v2 objs2 r2 where t: "rebuild_tree_recursive X rv s dirty (length dirty) root_inode (v1, objs1) = Some ((v2, objs2), r2)"
    by auto
  have "grows v1 v2" using rebuild_sound [OF assms(1,2) ok1(1,2) t] by (simp add: rebuilt_def step_ok_def)
  then have "\<forall>i \<in> set (list_staged_nodes s @ list_deleted_nodes s). \<exists>ps. up_chain v2 i ps"
    using hang1 up_chain_grows by blast
  then have "effective_message v2 s msg \<noteq> None"
    using node_paths_returns [of "list_staged_nodes s @ list_deleted_nodes s" v2] by (simp add: effective_message_def)
  then show ?thesis using sb d t by (cases r1; cases r2) (auto simp: rebuild_git_objects_def)
qed

text \<open>
  C37: deletions below the root are lost when nothing else changed: a deleted node cannot be seen
  any more by the walk that marks dirty directories, so every directory under the root is
  committed with the id it had, whatever was removed inside it.
\<close>

theorem deletions_below_root_lost:
  assumes "hex_laws X" "sha1_laws X" "vfs_wf v"
    and run: "rebuild_git_objects X rv io ts s base author msg v = Some (v', Inr (commit, root, obs))"
    and only: "list_staged_nodes s = []" "\<forall>i \<in> set (list_deleted_nodes s). get_node v i = None"
  shows "\<exists>ids es. hm_get (vs_dirs v') root_inode = Some ids \<and> root = tree_oid X es \<and>
    list_all2 (\<lambda>c e. te_name e = vn_name c \<and> te_mode e = vn_mode c \<and> te_oid e = vn_oid c)
      (filter (\<lambda>c. vn_oid c \<noteq> []) (valid_children s (live_nodes v' ids))) es"
proof -
  obtain v1 objs1 dirty objs2 es where
    p: "stage_blobs X io s (list_staged_nodes s) (v, []) = ((v1, objs1), Inr ())" "vfs_wf v1"
      "dirty_dirs v1 s = Some dirty" "step_ok X v1 objs1 v' objs2"
      "tree_of X s dirty (known rv objs2) v' root_inode es" "root = tree_oid X es"
    using rebuild_parts [OF run assms(3,1,2)] by metis
  have "v1 = v" using p(1) only(1) by simp
  have "dirty_loop v ids dirty = Some dirty" if "\<forall>i \<in> set ids. get_node v i = None" for ids dirty
    using that by (induction ids) (simp_all add: dirty_walk.simps)
  then have dirty: "dirty = [root_inode]" using p(3) only \<open>v1 = v\<close> by (simp add: dirty_dirs_def)
  have w': "vfs_wf v'" using p(4) by (simp add: step_ok_def)
  from p(5) obtain ids where ids: "hm_get (vs_dirs v') root_inode = Some ids"
    "list_all2 (child_entry X s dirty (known rv objs2) v') (kept_children s dirty (live_nodes v' ids)) es"
    by (auto elim: tree_of.cases)
  have "\<not> recursed dirty c" if c: "c \<in> set (live_nodes v' ids)" for c
  proof -
    obtain i where "i \<in> set ids" "hm_get (vs_nodes v') i = Some c" using c unfolding live_nodes_set by blast
    then have "vn_id c \<noteq> root_inode" using wf_dir(3) [OF w' ids(1)] wf_node [OF w'] by metis
    then show ?thesis by (simp add: recursed_def dirty)
  qed
  then have nr: "\<forall>c \<in> set (valid_children s (live_nodes v' ids)). \<not> recursed dirty c" using valid_children_set by blast
  then have "kept_children s dirty (live_nodes v' ids) = filter (\<lambda>c. vn_oid c \<noteq> []) (valid_children s (live_nodes v' ids))"
    unfolding kept_children_def by (intro filter_cong) auto
  moreover have "list_all2 (\<lambda>c e. te_name e = vn_name c \<and> te_mode e = vn_mode c \<and> te_oid e = vn_oid c)
      (kept_children s dirty (live_nodes v' ids)) es"
    by (rule list.rel_mono_strong [OF ids(2)]) (use nr in \<open>auto simp: kept_children_def\<close>)
  ultimately show ?thesis using ids(1) p(6) by auto
qed

section \<open>Witnesses\<close>

lemma sha_decodes: "hex_laws X \<Longrightarrow> x_hex_decode X (compute_git_sha1 X ty data) =
    Some (x_sha1 X (str_bytes (type_str ty @ '' '' @ to_radix 10 (length data) @ [CHR 0x00]) @ data))"
  by (simp add: compute_git_sha1_def Let_def)

lemma sha_nonempty: "hex_laws X \<Longrightarrow> sha1_laws X \<Longrightarrow> compute_git_sha1 X ty data \<noteq> []"
  using hex_encode_nonempty [of X] sha1_length [of X] unfolding compute_git_sha1_def Let_def
  by (metis list.size(3) zero_neq_numeral)

definition demo_changes :: "bytes \<Rightarrow> staging" where
  "demo_changes c = \<lparr>sg_files = [(2, c)], sg_staged = [(2, length c)], sg_deleted = [], sg_changed = [''a'']\<rparr>"

definition demo_table :: "nat \<Rightarrow> string \<Rightarrow> vfs" where
  "demo_table n oid = demo_vfs\<lparr>vs_nodes := [(1, \<lparr>vn_id = 1, vn_parent = 1, vn_name = ''/'', vn_oid = [],
       vn_mode = Directory, vn_is_dir = True, vn_size = 4096, vn_deleted = False\<rparr>), (2, demo_node\<lparr>vn_oid := oid, vn_size := n\<rparr>)]\<rparr>"

lemma demo_table: "demo_vfs = demo_table 0 []"
  by (simp add: demo_vfs_def demo_node_def vfs_eval Let_def demo_table_def)

lemma demo_table_parts:
  "get_node (demo_table n oid) 2 = Some (demo_node\<lparr>vn_oid := oid, vn_size := n\<rparr>)"
  "node_update 2 (vn_oid_update (\<lambda>_. o')) (demo_table n oid) = demo_table n o'"
  "list_dir rv 1 (demo_table n oid) = (demo_table n oid, Inr [demo_node\<lparr>vn_oid := oid, vn_size := n\<rparr>])"
  "vn_name demo_node = ''a''" "vn_is_dir demo_node = False" "vn_parent demo_node = 1" "vn_id demo_node = 2"
  "vn_mode demo_node = RegularFile"
  by (simp_all add: demo_table_def demo_vfs_def vfs_eval Let_def demo_node_def get_node_def list_dir_def live_nodes_def)

lemma demo_name: "\<not> is_apple_metadata ''a''"
  by (simp add: is_apple_metadata_def starts_with_def)

lemma demo_trim: "trim ''msg'' \<noteq> []"
  by code_simp

text \<open>The objects of its commit: the blob, the root tree and the commit.\<close>

definition demo_entry_bytes :: "bytes \<Rightarrow> bytes" where
  "demo_entry_bytes c = str_bytes (''100644 a'' @ [CHR 0x00]) @ the (x_hex_decode demo_ext (compute_git_sha1 demo_ext Blob_Type c))"

lemma demo_run:
  assumes "\<And>oid. rv_tree rv oid = None" "trim msg \<noteq> []"
  shows "rebuild_git_objects demo_ext rv all_ok ts (demo_changes c) base author msg (demo_table n []) =
    (let oid = compute_git_sha1 demo_ext Blob_Type c; tree = new_object demo_ext Tree_Type (demo_entry_bytes c);
         commit = new_object demo_ext Commit_Type (str_bytes (commit_content (gp_oid tree) base author ts msg))
     in Some (demo_table n oid, Inr (gp_oid commit, gp_oid tree,
          map snd (insert_object commit (insert_object tree (insert_object (new_object demo_ext Blob_Type c) []))))))"
proof -
  define oid where "oid = compute_git_sha1 demo_ext Blob_Type c"
  define blob where "blob = insert_object (new_object demo_ext Blob_Type c) []"
  define tree where "tree = new_object demo_ext Tree_Type (demo_entry_bytes c)"
  obtain sha where sha: "x_hex_decode demo_ext oid = Some sha" using sha_decodes [OF demo_hex_laws] by (simp add: oid_def)
  have ne: "oid \<noteq> []" unfolding oid_def by (rule sha_nonempty) simp_all
  have sb: "stage_blobs demo_ext all_ok (demo_changes c) (list_staged_nodes (demo_changes c)) (demo_table n [], []) =
      ((demo_table n oid, blob), Inr ())"
    by (simp add: demo_table_parts demo_changes_def get_staged_content_def is_staged_def new_object_def blob_def
       list_staged_nodes_def demo_name Let_def oid_def)
  have dirty: "dirty_dirs (demo_table n oid) (demo_changes c) = Some [1]"
    by (simp add: dirty_dirs_def list_staged_nodes_def list_deleted_nodes_def demo_changes_def dirty_walk.simps [of _ 2]
      demo_table_parts root_inode_def)
  have "tree_entry_bytes demo_ext RegularFile ''a'' oid = Inr (demo_entry_bytes c)"
    using sha by (simp add: tree_entry_bytes_def demo_entry_bytes_def oid_def)
  then have t: "rebuild_tree_recursive demo_ext rv (demo_changes c) [1] (Suc 0) 1 (demo_table n oid, blob) =
      Some ((demo_table n oid, insert_object tree blob), Inr (gp_oid tree))"
    by (simp add: demo_table_parts valid_children_def sort_by_key demo_name is_deleted_def Let_def demo_changes_def ne
        demo_table_parts(3) [unfolded One_nat_def] assms(1) tree_def)
  show ?thesis
    using sb dirty t assms(2)
    by (simp add: rebuild_git_objects_def root_inode_def effective_message_def Let_def oid_def [symmetric] blob_def [symmetric]
        tree_def [symmetric])
qed

theorem staged_file_committed_witness:
  "\<exists>v' commit root obs. rebuild_git_objects demo_ext demo_view all_ok 7 (demo_changes [104, 105]) ''b'' ''me'' ''msg'' demo_vfs =
     Some (v', Inr (commit, root, obs)) \<and>
     merkle_path demo_ext root [''a''] (compute_git_sha1 demo_ext Blob_Type [104, 105])"
proof -
  obtain v' commit root obs where r: "rebuild_git_objects demo_ext demo_view all_ok 7 (demo_changes [104, 105]) ''b'' ''me'' ''msg'' demo_vfs =
     Some (v', Inr (commit, root, obs))"
    using demo_run [of demo_view "''msg''" 7 "[104, 105]" "''b''" "''me''" 0] demo_trim that
    by (simp add: demo_view_def demo_table Let_def)
  have "walk demo_vfs root_inode [''a''] = Some 2" using demo_dir_map by (simp add: root_inode_def)
  moreover have "get_node demo_vfs 2 = Some demo_node" using demo_table_parts(1) [of 0 "[]"] by (simp add: demo_table demo_node_def)
  moreover have "get_staged_content all_ok 2 (demo_changes [104, 105]) = Inr (Some [104, 105])"
    by (simp add: get_staged_content_def is_staged_def demo_changes_def)
  moreover have "\<forall>j. is_deleted (demo_changes [104, 105]) j \<longrightarrow> get_node demo_vfs j = None"
    by (simp add: is_deleted_def demo_changes_def)
  ultimately show ?thesis
    using staged_file_committed [OF demo_hex_laws demo_sha1_laws demo_vfs_wf(1) r] r demo_name demo_table_parts(5) by auto
qed

theorem rebuild_enough_fuel_witness:
  "rebuild_git_objects demo_ext demo_view all_ok 7 (demo_changes [104, 105]) ''b'' ''me'' [] demo_vfs \<noteq> None"
proof -
  have "up_chain demo_vfs 2 [2, 1]"
    using walk_chain [OF demo_vfs_wf(1), of root_inode "[''a'']" 2 "[]"] up_chain.root demo_dir_map
    by (simp add: root_inode_def)
  then have "\<forall>i \<in> set (list_staged_nodes (demo_changes [104, 105])) \<union> set (list_deleted_nodes (demo_changes [104, 105])). \<exists>ps. up_chain demo_vfs i ps"
    by (auto simp: list_staged_nodes_def list_deleted_nodes_def demo_changes_def)
  then show ?thesis by (rule rebuild_enough_fuel [OF demo_hex_laws demo_sha1_laws demo_vfs_wf(1)])
qed

text \<open>A directory \<open>d\<close> with an object id, whose only file has been removed.\<close>

definition demo_removed :: vfs where
  "demo_removed = fst (vfs_remove demo_view 2 ''f'' (fst (vfs_create_file demo_view 2 ''f'' RegularFile
     (node_update 2 (vn_oid_update (\<lambda>_. compute_git_sha1 demo_ext Tree_Type [7]))
       (fst (vfs_mkdir demo_view 1 ''d'' (vfs_new [])))))))"

definition demo_deletion :: staging where
  "demo_deletion = \<lparr>sg_files = [], sg_staged = [], sg_deleted = [3], sg_changed = [''d/f'']\<rparr>"

definition demo_dir :: vfs_node where
  "demo_dir = \<lparr>vn_id = 2, vn_parent = 1, vn_name = ''d'', vn_oid = compute_git_sha1 demo_ext Tree_Type [7],
     vn_mode = Directory, vn_is_dir = True, vn_size = 4096, vn_deleted = False\<rparr>"

lemma demo_removed_parts:
  "hm_get (vs_dirs demo_removed) 1 = Some [2]" "live_nodes demo_removed [2] = [demo_dir]" "get_node demo_removed 3 = None"
  by (simp_all add: demo_removed_def vfs_eval Let_def get_node_def live_nodes_def demo_dir_def)

lemma demo_removed_list: "list_dir demo_view 1 demo_removed = (demo_removed, Inr [demo_dir])"
  using demo_removed_parts by (simp add: list_dir_def ensure_present)

lemma demo_dir_name: "\<not> is_apple_metadata ''d''"
  by (simp add: is_apple_metadata_def starts_with_def)

lemma demo_valid: "valid_children demo_deletion [demo_dir] = [demo_dir]"
  by (simp add: valid_children_def sort_by_key demo_dir_def demo_dir_name is_deleted_def demo_deletion_def)

lemma demo_removed_wf: "vfs_wf demo_removed"
proof -
  have "vfs_wf (fst (vfs_mkdir demo_view 1 ''d'' (vfs_new [])))" using mkdir_wf [OF vfs_new_wf(1)] by simp
  from create_file_wf [OF oid_update_wf [OF this]] show ?thesis
    unfolding demo_removed_def by (intro remove_wf [THEN conjunct1]) simp
qed

lemma demo_removed_run: "\<exists>c r obs. rebuild_git_objects demo_ext demo_view all_ok 7 demo_deletion ''b'' ''me'' ''msg'' demo_removed =
   Some (demo_removed, Inr (c, r, obs))"
proof -
  have "stage_blobs demo_ext all_ok demo_deletion (list_staged_nodes demo_deletion) (demo_removed, []) = ((demo_removed, []), Inr ())"
    by (simp add: list_staged_nodes_def demo_deletion_def)
  moreover have "dirty_dirs demo_removed demo_deletion = Some [1]"
    by (simp add: dirty_dirs_def list_staged_nodes_def list_deleted_nodes_def demo_deletion_def dirty_walk.simps [of _ 3]
      demo_removed_parts root_inode_def)
  moreover have "effective_message demo_removed demo_deletion ''msg'' \<noteq> None"
    by (simp add: effective_message_def list_changed_paths_def demo_deletion_def)
  moreover have "\<exists>objs' r. rebuild_tree_recursive demo_ext demo_view demo_deletion [1] (Suc 0) 1 (demo_removed, []) =
      Some ((demo_removed, objs'), Inr r)"
    using sha_decodes [OF demo_hex_laws, of Tree_Type "[7]"] sha_nonempty [OF demo_hex_laws demo_sha1_laws, of Tree_Type "[7]"]
    by (simp add: demo_removed_list [unfolded One_nat_def] demo_valid tree_entry_bytes_def Let_def) (simp add: demo_dir_def)
  ultimately show ?thesis by (auto simp: rebuild_git_objects_def root_inode_def Let_def)
qed

theorem deletions_below_root_lost_witness:
  "\<exists>commit root obs e. rebuild_git_objects demo_ext demo_view all_ok 7 demo_deletion ''b'' ''me'' ''msg'' demo_removed =
     Some (demo_removed, Inr (commit, root, obs)) \<and> get_node demo_removed 3 = None \<and>
     root = tree_oid demo_ext [e] \<and> te_name e = ''d'' \<and> te_oid e = compute_git_sha1 demo_ext Tree_Type [7]"
proof -
  obtain commit root obs where r: "rebuild_git_objects demo_ext demo_view all_ok 7 demo_deletion ''b'' ''me'' ''msg'' demo_removed =
     Some (demo_removed, Inr (commit, root, obs))" using demo_removed_run by blast
  have "list_staged_nodes demo_deletion = []" "\<forall>i \<in> set (list_deleted_nodes demo_deletion). get_node demo_removed i = None"
    using demo_removed_parts by (simp_all add: list_staged_nodes_def list_deleted_nodes_def demo_deletion_def)
  from deletions_below_root_lost [OF demo_hex_laws demo_sha1_laws demo_removed_wf r this]
  obtain es where es: "root = tree_oid demo_ext es"
    "list_all2 (\<lambda>c e. te_name e = vn_name c \<and> te_mode e = vn_mode c \<and> te_oid e = vn_oid c)
      (filter (\<lambda>c. vn_oid c \<noteq> []) (valid_children demo_deletion (live_nodes demo_removed [2]))) es"
    using demo_removed_parts(1) by (auto simp: root_inode_def)
  have "vn_oid demo_dir \<noteq> []" using sha_nonempty [OF demo_hex_laws demo_sha1_laws] by (simp add: demo_dir_def)
  then obtain e where "es = [e]" "te_name e = vn_name demo_dir" "te_oid e = vn_oid demo_dir"
    using es(2) by (auto simp: demo_removed_parts demo_valid list_all2_Cons1)
  then show ?thesis using r es(1) demo_removed_parts(3) by (auto simp: demo_dir_def)
qed

end
