(* ===== verification/File_System.thy ===== *)
theory File_System
  imports Prelude
begin

text \<open>
  The calls of \<open>std::fs\<close> that the caches and the log backend make, on a directory tree given
  by its regular files: a map from paths (lists of components) to contents. The operating system is
  the record \<open>os\<close>: which calls succeed, how many bytes a failing write leaves in the file, how many
  bytes a positional read of a file returns when it is short, and the lengths that \<open>metadata\<close> gives
  for the directories there are. \<open>create_dir_all\<close> has no state of its own here; it only may fail.
\<close>

type_synonym path = "string list"
type_synonym files = "(path, bytes) hmap"

datatype fs_call =
  Fs_Create path | Fs_Write path | Fs_Open path | Fs_Append path | Fs_Sync path | Fs_Read path
| Fs_Stat path | Fs_Chmod path | Fs_Mkdir path | Fs_Read_Dir path | Fs_Entry path | Fs_Rename path path

record os =
  os_ok :: "fs_call \<Rightarrow> bool"
  os_torn :: "path \<Rightarrow> nat"
  os_short :: "path \<Rightarrow> nat option"
  os_dirs :: "path \<Rightarrow> nat option"

definition os_fine :: os where
  "os_fine = \<lparr>os_ok = (\<lambda>_. True), os_torn = (\<lambda>_. 0), os_short = (\<lambda>_. None), os_dirs = (\<lambda>_. None)\<rparr>"

text \<open>\<open>fs::write\<close>: create or truncate, then write everything; the flag is \<open>is_ok()\<close>.\<close>

definition fs_write :: "os \<Rightarrow> path \<Rightarrow> bytes \<Rightarrow> files \<Rightarrow> files \<times> bool" where
  "fs_write os p data fs =
     (if \<not> os_ok os (Fs_Create p) then (fs, False)
      else if os_ok os (Fs_Write p) then (hm_put p data fs, True)
      else (hm_put p (take (os_torn os p) data) fs, False))"

definition fs_read :: "os \<Rightarrow> path \<Rightarrow> files \<Rightarrow> bytes option" where
  "fs_read os p fs = (if os_ok os (Fs_Read p) then hm_get fs p else None)"

text \<open>\<open>Path::is_file\<close> and \<open>Path::exists\<close>: a file that cannot be examined is taken not to be there.\<close>

definition fs_is_file :: "os \<Rightarrow> path \<Rightarrow> files \<Rightarrow> bool" where
  "fs_is_file os p fs \<longleftrightarrow> os_ok os (Fs_Stat p) \<and> hm_get fs p \<noteq> None"

text \<open>\<open>read_at\<close>: the bytes at an offset, or fewer of them.\<close>

definition fs_read_at :: "os \<Rightarrow> path \<Rightarrow> nat \<Rightarrow> nat \<Rightarrow> bytes \<Rightarrow> bytes" where
  "fs_read_at os p offset n c =
     (let d = slice offset (offset + n) c
      in case os_short os p of None \<Rightarrow> d | Some k \<Rightarrow> take k d)"

definition full_reads :: "os \<Rightarrow> bool" where
  "full_reads os \<longleftrightarrow> (\<forall>p. os_short os p = None)"

text \<open>\<open>fs::metadata(path).ok().map(len)\<close>, which also answers for a directory.\<close>

definition fs_len :: "os \<Rightarrow> path \<Rightarrow> files \<Rightarrow> nat option" where
  "fs_len os p fs = (if \<not> os_ok os (Fs_Stat p) then None
      else case hm_get fs p of Some c \<Rightarrow> Some (length c) | None \<Rightarrow> os_dirs os p)"

definition fs_rename :: "os \<Rightarrow> path \<Rightarrow> path \<Rightarrow> files \<Rightarrow> files" where
  "fs_rename os p q fs =
     (case hm_get fs p of
        None \<Rightarrow> fs
      | Some c \<Rightarrow> if os_ok os (Fs_Rename p q) then hm_put q c (hm_del p fs) else fs)"

text \<open>Appending through an open handle; a failing append may leave a part of the data.\<close>

definition fs_append :: "os \<Rightarrow> path \<Rightarrow> bytes \<Rightarrow> files \<Rightarrow> files \<times> bool" where
  "fs_append os p data fs =
     (let old = (case hm_get fs p of Some c \<Rightarrow> c | None \<Rightarrow> [])
      in if os_ok os (Fs_Append p) then (hm_put p (old @ data) fs, True)
         else (hm_put p (old @ take (os_torn os p) data) fs, False))"

lemma full_reads_fine [simp]: "full_reads os_fine"
  by (simp add: full_reads_def os_fine_def)

lemma fs_write_other: "q \<noteq> p \<Longrightarrow> hm_get (fst (fs_write os p data fs)) q = hm_get fs q"
  by (simp add: fs_write_def)

lemma fs_write_ok: "fs_write os p data fs = (fs', True) \<Longrightarrow> fs' = hm_put p data fs"
  by (auto simp: fs_write_def split: if_splits)

lemma fs_write_cases:
  obtains "fst (fs_write os p data fs) = fs" "\<not> snd (fs_write os p data fs)"
  | k where "fst (fs_write os p data fs) = hm_put p (take k data) fs"
      "snd (fs_write os p data fs) \<longrightarrow> take k data = data"
proof (cases "os_ok os (Fs_Create p)")
  case True
  then show thesis using that(2) [of "length data"] that(2) [of "os_torn os p"]
    by (cases "os_ok os (Fs_Write p)") (simp_all add: fs_write_def)
qed (use that(1) in \<open>simp add: fs_write_def\<close>)

lemma fs_read_Some: "fs_read os p fs = Some c \<Longrightarrow> hm_get fs p = Some c"
  by (auto simp: fs_read_def split: if_splits)

end
