(* ===== verification/Caches.thy ===== *)
theory Caches
  imports File_System External
begin

text \<open>
  The memory cache \<^verbatim>\<open>src/src/cache/memory.rs\<close> and the disk cache
  \<^verbatim>\<open>src/src/cache/disk.rs\<close>. The crate \<open>lru\<close> is the record \<open>lru\<close> over a cache of its
  own type, its documented behaviour \<open>lru_laws\<close>: a lookup returns what was put last under
  the key or nothing, a put holds its key and may evict others, and the capacity is respected.
  Object ids are hexadecimal, so cutting them after two and four bytes is at character boundaries.
\<close>

section \<open>The LRU crate\<close>

record ('c, 'k, 'v) lru =
  lc_new :: "nat \<Rightarrow> 'c"
  lc_get :: "'k \<Rightarrow> 'c \<Rightarrow> 'c \<times> 'v option"
  lc_put :: "'k \<Rightarrow> 'v \<Rightarrow> 'c \<Rightarrow> 'c"
  lc_contains :: "'k \<Rightarrow> 'c \<Rightarrow> bool"
  lc_clear :: "'c \<Rightarrow> 'c"
  lc_view :: "'c \<Rightarrow> ('k, 'v) hmap"
  lc_cap :: "'c \<Rightarrow> nat"

definition lru_laws :: "('c, 'k, 'v) lru \<Rightarrow> bool" where
  "lru_laws L \<longleftrightarrow>
     (\<forall>n. hm_get (lc_view L (lc_new L n)) = (\<lambda>_. None) \<and> lc_cap L (lc_new L n) = n) \<and>
     (\<forall>k c. snd (lc_get L k c) = hm_get (lc_view L c) k \<and>
        hm_get (lc_view L (fst (lc_get L k c))) = hm_get (lc_view L c) \<and>
        lc_cap L (fst (lc_get L k c)) = lc_cap L c) \<and>
     (\<forall>k v c. hm_get (lc_view L (lc_put L k v c)) \<subseteq>\<^sub>m (hm_get (lc_view L c))(k \<mapsto> v) \<and>
        (0 < lc_cap L c \<longrightarrow> hm_get (lc_view L (lc_put L k v c)) k = Some v) \<and>
        lc_cap L (lc_put L k v c) = lc_cap L c) \<and>
     (\<forall>k c. lc_contains L k c \<longleftrightarrow> hm_get (lc_view L c) k \<noteq> None) \<and>
     (\<forall>c. hm_get (lc_view L (lc_clear L c)) = (\<lambda>_. None) \<and> lc_cap L (lc_clear L c) = lc_cap L c) \<and>
     (\<forall>c. 0 < lc_cap L c \<longrightarrow> card (dom (hm_get (lc_view L c))) \<le> lc_cap L c)"

abbreviation lru_at :: "('c, 'k, 'v) lru \<Rightarrow> 'c \<Rightarrow> 'k \<Rightarrow> 'v option" where
  "lru_at L c \<equiv> hm_get (lc_view L c)"

lemma lru_get: "lru_laws L \<Longrightarrow> snd (lc_get L k c) = lru_at L c k"
  "lru_laws L \<Longrightarrow> lru_at L (fst (lc_get L k c)) = lru_at L c"
  by (simp_all add: lru_laws_def)

lemma lru_put: "lru_laws L \<Longrightarrow> lru_at L (lc_put L k v c) \<subseteq>\<^sub>m (lru_at L c)(k \<mapsto> v)"
  "lru_laws L \<Longrightarrow> 0 < lc_cap L c \<Longrightarrow> lru_at L (lc_put L k v c) k = Some v"
  by (simp_all add: lru_laws_def)

lemma lru_caps [simp]: "lru_laws L \<Longrightarrow> lc_cap L (lc_put L k v c) = lc_cap L c"
  "lru_laws L \<Longrightarrow> lc_cap L (fst (lc_get L k c)) = lc_cap L c" "lru_laws L \<Longrightarrow> lc_cap L (lc_new L n) = n"
  by (simp_all add: lru_laws_def)

lemma hm_le_Some: "f \<subseteq>\<^sub>m g \<Longrightarrow> f k = Some v \<Longrightarrow> g k = Some v"
  by (auto simp: map_le_def dom_def)

lemma lru_put_at:
  assumes "lru_laws L" "lru_at L (lc_put L k v c) k' = Some x"
  shows "(k' = k \<and> x = v) \<or> lru_at L c k' = Some x"
proof -
  have "((lru_at L c)(k \<mapsto> v)) k' = Some x"
    by (rule hm_le_Some [OF lru_put(1) [OF assms(1), of k v c] assms(2)])
  then show ?thesis by (auto split: if_splits)
qed

section \<open>The memory cache\<close>

record 'c memory_cache =
  mc_cache :: 'c
  mc_hits :: nat
  mc_misses :: nat

type_synonym ('c) lru_blobs = "('c, string, bytes) lru"

definition memory_cache_new :: "'c lru_blobs \<Rightarrow> nat \<Rightarrow> 'c memory_cache" where
  "memory_cache_new L capacity = \<lparr>mc_cache = lc_new L (max capacity 1), mc_hits = 0, mc_misses = 0\<rparr>"

definition memory_get :: "'c lru_blobs \<Rightarrow> string \<Rightarrow> 'c memory_cache \<Rightarrow> 'c memory_cache \<times> bytes option" where
  "memory_get L oid m =
     (case lc_get L oid (mc_cache m) of
        (c, Some data) \<Rightarrow> (m\<lparr>mc_cache := c, mc_hits := mc_hits m + 1\<rparr>, Some data)
      | (c, None) \<Rightarrow> (m\<lparr>mc_cache := c, mc_misses := mc_misses m + 1\<rparr>, None))"

definition memory_put :: "'c lru_blobs \<Rightarrow> string \<Rightarrow> bytes \<Rightarrow> 'c memory_cache \<Rightarrow> 'c memory_cache" where
  "memory_put L oid data m = m\<lparr>mc_cache := lc_put L oid data (mc_cache m)\<rparr>"

fun memory_put_many :: "'c lru_blobs \<Rightarrow> (string \<times> bytes) list \<Rightarrow> 'c memory_cache \<Rightarrow> 'c memory_cache" where
  "memory_put_many L [] m = m"
| "memory_put_many L ((oid, data) # items) m = memory_put_many L items (memory_put L oid data m)"

definition memory_clear :: "'c lru_blobs \<Rightarrow> 'c memory_cache \<Rightarrow> 'c memory_cache" where
  "memory_clear L m = m\<lparr>mc_cache := lc_clear L (mc_cache m)\<rparr>"

section \<open>The disk cache\<close>

record disk_cache =
  dc_files :: files
  dc_hits :: nat
  dc_misses :: nat

text \<open>Paths relative to the base directory.\<close>

definition blob_path :: "string \<Rightarrow> path" where
  "blob_path oid =
     (if length oid \<ge> 4 then [''blobs'', take 2 oid, slice 2 4 oid, drop 4 oid] else [''blobs'', oid])"

definition tree_pack_path :: "string \<Rightarrow> path" where
  "tree_pack_path commit_oid = [''trees'', commit_oid @ ''.pack'']"

definition disk_cache_new :: "os \<Rightarrow> files \<Rightarrow> disk_cache result" where
  "disk_cache_new os fs =
     (if os_ok os (Fs_Mkdir []) then Inr \<lparr>dc_files = fs, dc_hits = 0, dc_misses = 0\<rparr> else Inl (E_Repo Repo_Cache))"

definition disk_has_blob :: "os \<Rightarrow> disk_cache \<Rightarrow> string \<Rightarrow> bool" where
  "disk_has_blob os d oid \<longleftrightarrow> fs_is_file os (blob_path oid) (dc_files d)"

text \<open>The size on disk; the empty id names the directory of the blobs, which has a length too.\<close>

definition disk_blob_size :: "os \<Rightarrow> disk_cache \<Rightarrow> string \<Rightarrow> nat option" where
  "disk_blob_size os d oid = fs_len os (blob_path oid) (dc_files d)"

definition disk_get_blob :: "os \<Rightarrow> string \<Rightarrow> disk_cache \<Rightarrow> disk_cache \<times> bytes option" where
  "disk_get_blob os oid d =
     (case fs_read os (blob_path oid) (dc_files d) of
        Some data \<Rightarrow> (d\<lparr>dc_hits := dc_hits d + 1\<rparr>, Some data)
      | None \<Rightarrow> (d\<lparr>dc_misses := dc_misses d + 1\<rparr>, None))"

definition disk_write :: "os \<Rightarrow> path \<Rightarrow> bytes \<Rightarrow> disk_cache \<Rightarrow> disk_cache \<times> unit result" where
  "disk_write os p data d =
     (if \<not> os_ok os (Fs_Mkdir (butlast p)) then (d, Inl (E_Repo Repo_Cache))
      else (case fs_write os p data (dc_files d) of
              (fs, ok) \<Rightarrow> (d\<lparr>dc_files := fs\<rparr>, if ok then Inr () else Inl (E_Repo Repo_Cache))))"

definition disk_put_blob :: "os \<Rightarrow> string \<Rightarrow> bytes \<Rightarrow> disk_cache \<Rightarrow> disk_cache \<times> unit result" where
  "disk_put_blob os oid data d = disk_write os (blob_path oid) data d"

definition disk_get_tree_pack :: "os \<Rightarrow> disk_cache \<Rightarrow> string \<Rightarrow> bytes option" where
  "disk_get_tree_pack os d commit_oid = fs_read os (tree_pack_path commit_oid) (dc_files d)"

definition disk_put_tree_pack :: "os \<Rightarrow> string \<Rightarrow> bytes \<Rightarrow> disk_cache \<Rightarrow> disk_cache \<times> unit result" where
  "disk_put_tree_pack os commit_oid data d = disk_write os (tree_pack_path commit_oid) data d"

lemma blob_path_inject: "blob_path a = blob_path b \<longleftrightarrow> a = b"
proof
  assume eq: "blob_path a = blob_path b"
  have cut: "s = take 2 s @ slice 2 4 s @ drop 4 s" if "length s \<ge> 4" for s :: string
    using that by (simp add: slice_def) (metis append_take_drop_id drop_drop take_add numeral_Bit0 append.assoc)
  show "a = b"
  proof (cases "length a \<ge> 4 \<and> length b \<ge> 4")
    case True
    then have "take 2 a = take 2 b" "slice 2 4 a = slice 2 4 b" "drop 4 a = drop 4 b"
      using eq by (simp_all add: blob_path_def)
    then show ?thesis using cut [of a] cut [of b] True by metis
  qed (use eq in \<open>auto simp: blob_path_def split: if_splits\<close>)
qed simp

lemma tree_pack_not_blob [simp]: "tree_pack_path c \<noteq> blob_path oid" "blob_path oid \<noteq> tree_pack_path c"
  by (auto simp: tree_pack_path_def blob_path_def)

section \<open>An instance of the LRU crate, for the witnesses\<close>

text \<open>The capacity and the entries, the most recently used one first.\<close>

type_synonym ('k, 'v) demo_cache = "nat \<times> ('k \<times> 'v) list"

definition demo_view_of :: "('k, 'v) demo_cache \<Rightarrow> ('k, 'v) hmap" where
  "demo_view_of c = take (fst c) (snd c)"

definition demo_get :: "'k \<Rightarrow> ('k, 'v) demo_cache \<Rightarrow> ('k, 'v) demo_cache \<times> 'v option" where
  "demo_get k c =
     (case map_of (demo_view_of c) k of
        None \<Rightarrow> (c, None)
      | Some v \<Rightarrow> ((fst c, (k, v) # AList.delete k (demo_view_of c)), Some v))"

definition demo_lru :: "(('k, 'v) demo_cache, 'k, 'v) lru" where
  "demo_lru = \<lparr>lc_new = (\<lambda>n. (n, [])), lc_get = demo_get,
     lc_put = (\<lambda>k v c. (fst c, take (fst c) ((k, v) # AList.delete k (demo_view_of c)))),
     lc_contains = (\<lambda>k c. map_of (demo_view_of c) k \<noteq> None),
     lc_clear = (\<lambda>c. (fst c, [])), lc_view = demo_view_of, lc_cap = fst\<rparr>"

lemma length_delete_less: "map_of xs k = Some v \<Longrightarrow> length (AList.delete k xs) < length xs"
  unfolding AList.delete_eq by (intro length_filter_less [of "(k, v)"]) (auto dest: map_of_SomeD)

lemma take_map_le: "map_of (take n xs) \<subseteq>\<^sub>m map_of xs"
proof (unfold map_le_def, intro ballI)
  fix k assume "k \<in> dom (map_of (take n xs))"
  then obtain v where v: "map_of (take n xs) k = Some v" by blast
  then have "map_of (take n xs @ drop n xs) k = Some v" by (simp only: map_of_append map_add_Some_iff) simp
  then show "map_of (take n xs) k = map_of xs k" using v by simp
qed

lemma demo_lru_laws [simp]: "lru_laws (demo_lru :: (('k, 'v) demo_cache, 'k, 'v) lru)"
proof -
  have get: "snd (demo_get k c) = map_of (demo_view_of c) k \<and>
      map_of (demo_view_of (fst (demo_get k c))) = map_of (demo_view_of c) \<and> fst (fst (demo_get k c)) = fst c"
    for k and c :: "('k, 'v) demo_cache"
  proof (cases "map_of (demo_view_of c) k")
    case (Some v)
    have "length (AList.delete k (demo_view_of c)) < fst c"
      using length_delete_less [OF Some] by (simp add: demo_view_of_def)
    then have "demo_view_of (fst (demo_get k c)) = (k, v) # AList.delete k (demo_view_of c)"
      using Some by (simp add: demo_get_def demo_view_of_def [of "(_, _)"])
    then show ?thesis using Some by (auto simp: demo_get_def delete_conv')
  qed (simp add: demo_get_def)
  have put: "map_of (take n (take n ((k, v) # AList.delete k xs))) \<subseteq>\<^sub>m (map_of xs)(k \<mapsto> v)" for n k and v :: 'v and xs :: "('k \<times> 'v) list"
  proof -
    have "map_of (take n ((k, v) # AList.delete k xs)) \<subseteq>\<^sub>m map_of ((k, v) # AList.delete k xs)" by (rule take_map_le)
    moreover have "map_of ((k, v) # AList.delete k xs) = (map_of xs)(k \<mapsto> v)" by (auto simp: delete_conv')
    ultimately show ?thesis by (metis min.idem take_take)
  qed
  have card: "card (dom (map_of (demo_view_of c))) \<le> fst c" for c :: "('k, 'v) demo_cache"
  proof -
    have "dom (map_of (demo_view_of c)) = set (map fst (demo_view_of c))" by (simp add: dom_map_of_conv_image_fst)
    then have "card (dom (map_of (demo_view_of c))) \<le> length (demo_view_of c)"
      using card_length [of "map fst (demo_view_of c)"] by simp
    then show ?thesis by (simp add: demo_view_of_def)
  qed
  show ?thesis
    unfolding lru_laws_def demo_lru_def
    using put by (simp add: get card) (auto simp: demo_view_of_def [of "(_, _)"] gr0_conv_Suc)
qed

end
