(* ===== verification/Block_Cache.thy ===== *)
theory Block_Cache
  imports Caches
begin

text \<open>
  The block cache of packfiles, \<^verbatim>\<open>src/src/cache/block.rs\<close>: blocks in an LRU cache and in files,
  fetched by the parameter \<open>fetch_block\<close>. The table of downloads in flight concerns concurrent
  callers and is the subject of Singleflight; here a call runs alone. Positions in a pack are natural
  numbers (a pack is shorter than \<open>2^63\<close> bytes).
\<close>

section \<open>State and paths\<close>

definition default_block_size :: nat where
  "default_block_size = 10 * 1024 * 1024"

record 'c block_cache =
  bc_size :: nat
  bc_mem :: 'c
  bc_files :: files
  bc_hits :: nat
  bc_misses :: nat
  bc_tmp :: nat

type_synonym 'c lru_blocks = "('c, string \<times> nat, bytes) lru"

definition block_cache_new :: "'c lru_blocks \<Rightarrow> nat \<Rightarrow> files \<Rightarrow> 'c block_cache" where
  "block_cache_new L block_size fs =
     \<lparr>bc_size = (if block_size = 0 then default_block_size else block_size), bc_mem = lc_new L 32,
      bc_files = fs, bc_hits = 0, bc_misses = 0, bc_tmp = 0\<rparr>"

definition extract_filename :: "string \<Rightarrow> string" where
  "extract_filename pack_name = last_part (CHR ''/'') pack_name"

definition full_pack_path :: "string \<Rightarrow> path" where
  "full_pack_path pack_name = [''objects'', ''pack'', extract_filename pack_name]"

definition block_path :: "string \<Rightarrow> nat \<Rightarrow> path" where
  "block_path pack_name block_index =
     [''objects'', ''pack'', extract_filename pack_name @ ''.blocks'',
      ''block_'' @ to_radix 10 block_index @ ''.bin'']"

text \<open>The temporary file beside a block, with the process id and a counter as its extension.\<close>

definition tmp_path :: "nat \<Rightarrow> nat \<Rightarrow> string \<Rightarrow> nat \<Rightarrow> path" where
  "tmp_path pid cnt pack_name block_index =
     [''objects'', ''pack'', extract_filename pack_name @ ''.blocks'',
      ''block_'' @ to_radix 10 block_index @ ''.tmp.'' @ to_radix 10 pid @ ''.'' @ to_radix 10 cnt]"

section \<open>Operations\<close>

definition has_block :: "os \<Rightarrow> 'c lru_blocks \<Rightarrow> string \<Rightarrow> nat \<Rightarrow> 'c block_cache \<Rightarrow> bool" where
  "has_block os L pack_name block_index s \<longleftrightarrow>
     lc_contains L (extract_filename pack_name, block_index) (bc_mem s) \<or>
     fs_is_file os (block_path pack_name block_index) (bc_files s) \<or>
     fs_is_file os (full_pack_path pack_name) (bc_files s)"

text \<open>The designated fetcher: a block goes to disk through a temporary file, then to memory.\<close>

definition fetch_and_store ::
  "os \<Rightarrow> 'c lru_blocks \<Rightarrow> nat \<Rightarrow> string \<Rightarrow> nat \<Rightarrow> (nat \<Rightarrow> nat \<Rightarrow> bytes result) \<Rightarrow> 'c block_cache \<Rightarrow>
   'c block_cache \<times> bytes result" where
  "fetch_and_store os L pid pack_name block_index fetch_block s =
     (let s1 = s\<lparr>bc_misses := bc_misses s + 1\<rparr> in
      case fetch_block (block_index * bc_size s) (bc_size s) of
        Inl e \<Rightarrow> (s1, Inl e)
      | Inr data \<Rightarrow>
          (let tmp = tmp_path pid (bc_tmp s1) pack_name block_index;
               (fs, ok) = fs_write os tmp data (bc_files s1);
               fs' = (if ok then fs_rename os tmp (block_path pack_name block_index) fs else fs)
           in (s1\<lparr>bc_tmp := bc_tmp s1 + 1, bc_files := fs',
                  bc_mem := lc_put L (extract_filename pack_name, block_index) data (bc_mem s1)\<rparr>, Inr data)))"

definition get_or_fetch_block ::
  "os \<Rightarrow> 'c lru_blocks \<Rightarrow> nat \<Rightarrow> string \<Rightarrow> nat \<Rightarrow> (nat \<Rightarrow> nat \<Rightarrow> bytes result) \<Rightarrow> 'c block_cache \<Rightarrow>
   'c block_cache \<times> bytes result" where
  "get_or_fetch_block os L pid pack_name block_index fetch_block s =
     (let key = (extract_filename pack_name, block_index); path = block_path pack_name block_index in
      case lc_get L key (bc_mem s) of
        (mem, Some data) \<Rightarrow> (s\<lparr>bc_mem := mem, bc_hits := bc_hits s + 1\<rparr>, Inr data)
      | (mem, None) \<Rightarrow>
          (let s1 = s\<lparr>bc_mem := mem\<rparr> in
           case (if fs_is_file os path (bc_files s) then fs_read os path (bc_files s) else None) of
             Some data \<Rightarrow>
               (s1\<lparr>bc_hits := bc_hits s1 + 1, bc_mem := lc_put L key data (bc_mem s1)\<rparr>, Inr data)
           | None \<Rightarrow> fetch_and_store os L pid pack_name block_index fetch_block s1))"

text \<open>The part of one block that belongs to the range; a slice with its ends crossed panics.\<close>

definition block_overlap :: "nat \<Rightarrow> nat \<Rightarrow> nat \<Rightarrow> bytes \<Rightarrow> bytes result" where
  "block_overlap offset len block_start data =
     (let overlap_start = max offset block_start - block_start;
          overlap_end = min (offset + len) (block_start + length data) - block_start
      in if overlap_start < length data then
           (let e = min overlap_end (length data)
            in if e < overlap_start then Inl Panic else Inr (slice overlap_start e data))
         else Inr [])"

fun block_loop ::
  "os \<Rightarrow> 'c lru_blocks \<Rightarrow> nat \<Rightarrow> string \<Rightarrow> nat \<Rightarrow> nat \<Rightarrow> (nat \<Rightarrow> nat \<Rightarrow> bytes result) \<Rightarrow> nat list \<Rightarrow> bytes \<Rightarrow>
   'c block_cache \<Rightarrow> 'c block_cache \<times> bytes result" where
  "block_loop os L pid pack_name offset len fetch_block [] res s = (s, Inr res)"
| "block_loop os L pid pack_name offset len fetch_block (b # bs) res s =
     and_then (get_or_fetch_block os L pid pack_name b fetch_block s) (\<lambda>s block_data.
       case block_overlap offset len (b * bc_size s) block_data of
         Inl e \<Rightarrow> (s, Inl e)
       | Inr part \<Rightarrow>
           (if length block_data < bc_size s then (s, Inr (res @ part))
            else block_loop os L pid pack_name offset len fetch_block bs (res @ part) s))"

definition block_read_range ::
  "os \<Rightarrow> 'c lru_blocks \<Rightarrow> nat \<Rightarrow> string \<Rightarrow> nat \<Rightarrow> nat \<Rightarrow> (nat \<Rightarrow> nat \<Rightarrow> bytes result) \<Rightarrow> 'c block_cache \<Rightarrow>
   'c block_cache \<times> bytes result" where
  "block_read_range os L pid pack_name offset len fetch_block s =
     (if len = 0 then (s, Inr [])
      else if fs_is_file os (full_pack_path pack_name) (bc_files s) then
        (case fs_read os (full_pack_path pack_name) (bc_files s) of
           None \<Rightarrow> (s, Inl (E_Repo Repo_Cache))
         | Some file \<Rightarrow>
             (if offset \<ge> length file then (s, Inr [])
              else (s, Inr (fs_read_at os (full_pack_path pack_name) offset (min len (length file - offset)) file))))
      else
        (let start_block = offset div bc_size s; end_block = (offset + len - 1) div bc_size s
         in block_loop os L pid pack_name offset len fetch_block [start_block..<Suc end_block] [] s))"

section \<open>Coherence\<close>

text \<open>
  \<open>D\<close> gives the remote packs by file name. Whatever the cache holds is a part of them, and
  it answers a fetch with a part of them.
\<close>

definition block_of :: "nat \<Rightarrow> bytes \<Rightarrow> nat \<Rightarrow> bytes" where
  "block_of sz data b = slice (b * sz) (b * sz + sz) data"

definition blocks_coherent :: "'c lru_blocks \<Rightarrow> (string \<Rightarrow> bytes) \<Rightarrow> 'c block_cache \<Rightarrow> bool" where
  "blocks_coherent L D s \<longleftrightarrow> 0 < bc_size s \<and> 0 < lc_cap L (bc_mem s) \<and>
     (\<forall>f b d. lru_at L (bc_mem s) (f, b) = Some d \<longrightarrow> d = block_of (bc_size s) (D f) b) \<and>
     (\<forall>p b d. hm_get (bc_files s) (block_path p b) = Some d \<longrightarrow>
        d = block_of (bc_size s) (D (extract_filename p)) b) \<and>
     (\<forall>p d. hm_get (bc_files s) (full_pack_path p) = Some d \<longrightarrow> d = D (extract_filename p))"

definition honest_fetch :: "(nat \<Rightarrow> nat \<Rightarrow> bytes result) \<Rightarrow> bytes \<Rightarrow> bool" where
  "honest_fetch fetch_block data \<longleftrightarrow>
     (\<forall>off len d. fetch_block off len = Inr d \<longrightarrow> d = slice off (off + len) data)"

lemma block_path_inject: "block_path p a = block_path q b \<longleftrightarrow> extract_filename p = extract_filename q \<and> a = b"
  by (simp only: block_path_def list.inject append_same_eq same_append_eq to_radix_inject simp_thms)

lemma last_to_radix: "last (to_radix 10 n) \<noteq> CHR ''n''"
proof
  assume "last (to_radix 10 n) = CHR ''n''"
  then have "CHR ''n'' \<in> set (to_radix 10 n)" by (metis last_in_set to_radix_nonempty)
  then obtain d where d: "d < 10" "CHR ''n'' = digit_char d" using set_to_radix [of 10 "CHR ''n''" n] by auto
  then have "(of_char (CHR ''n'') :: nat) = of_char (digit_char d)" by simp
  with d(1) show False by (simp add: digit_char_def of_char_of)
qed

lemma tmp_not_block: "tmp_path pid cnt p a \<noteq> block_path q b"
proof
  assume "tmp_path pid cnt p a = block_path q b"
  then have "last (''block_'' @ to_radix 10 a @ ''.tmp.'' @ to_radix 10 pid @ ''.'' @ to_radix 10 cnt)
      = last (''block_'' @ to_radix 10 b @ ''.bin'')"
    unfolding tmp_path_def block_path_def list.inject by presburger
  then show False using last_to_radix [of cnt] by simp
qed

lemma tmp_not_full: "tmp_path pid cnt p a \<noteq> full_pack_path q" "block_path p a \<noteq> full_pack_path q"
  "full_pack_path q \<noteq> block_path p a"
  by (simp_all add: tmp_path_def block_path_def full_pack_path_def)

section \<open>Reading is slicing\<close>

text \<open>An error of a read is one of the service.\<close>

definition fetch_fails :: "(nat \<Rightarrow> nat \<Rightarrow> bytes result) \<Rightarrow> error \<Rightarrow> bool" where
  "fetch_fails fetch_block e \<longleftrightarrow> (\<exists>off len. fetch_block off len = Inl e)"

lemma fetch_keeps:
  assumes L: "lru_laws L" and s: "blocks_coherent L D s"
    and f: "honest_fetch fetch_block (D (extract_filename p))"
    and run: "fetch_and_store os L pid p b fetch_block s = (s', r)"
  shows "blocks_coherent L D s' \<and> bc_size s' = bc_size s \<and>
    (case r of Inr d \<Rightarrow> d = block_of (bc_size s) (D (extract_filename p)) b | Inl e \<Rightarrow> fetch_fails fetch_block e)"
proof (cases "fetch_block (b * bc_size s) (bc_size s)")
  case (Inl e)
  then have "fetch_fails fetch_block e" by (auto simp: fetch_fails_def)
  moreover have "r = Inl e" "s' = s\<lparr>bc_misses := bc_misses s + 1\<rparr>" using run Inl by (auto simp: fetch_and_store_def Let_def)
  ultimately show ?thesis using s by (simp add: blocks_coherent_def)
next
  case (Inr data)
  let ?D = "D (extract_filename p)" and ?tmp = "tmp_path pid (bc_tmp s) p b"
  have d: "data = block_of (bc_size s) ?D b" using f Inr by (auto simp: honest_fetch_def block_of_def)
  obtain fs ok where w: "fs_write os ?tmp data (bc_files s) = (fs, ok)" by (cases "fs_write os ?tmp data (bc_files s)")
  define fs' where "fs' = (if ok then fs_rename os ?tmp (block_path p b) fs else fs)"
  have s': "bc_size s' = bc_size s" "bc_files s' = fs'" "r = Inr data"
    "bc_mem s' = lc_put L (extract_filename p, b) data (bc_mem s)"
    using run Inr w by (auto simp: fetch_and_store_def Let_def fs'_def)
  have old: "hm_get fs q = hm_get (bc_files s) q" if "q \<noteq> ?tmp" for q
    using fs_write_other [OF that, of os data "bc_files s"] w by simp
  have tmp: "hm_get fs ?tmp = Some data" if "ok" using fs_write_ok [of os ?tmp data "bc_files s" fs] w that by simp
  have fl: "hm_get fs' q = hm_get (bc_files s) q \<or> q = block_path p b \<and> hm_get fs' q = Some data"
    if "q \<noteq> ?tmp" for q
    using old [OF that] tmp that by (auto simp: fs'_def fs_rename_def)
  have mem: "c = block_of (bc_size s) (D g) k" if "lru_at L (bc_mem s') (g, k) = Some c" for g k c
    using lru_put_at [OF L, of "(extract_filename p, b)" data "bc_mem s" "(g, k)" c] that s d unfolding s'(4)
    by (auto simp: blocks_coherent_def)
  have blk: "c = block_of (bc_size s) (D (extract_filename q)) k"
    if "hm_get fs' (block_path q k) = Some c" for q k c
    using fl [of "block_path q k"] tmp_not_block [of pid "bc_tmp s" p b q k] that s d
    by (auto simp: blocks_coherent_def block_path_inject)
  have full: "c = D (extract_filename q)" if "hm_get fs' (full_pack_path q) = Some c" for q c
    using fl [of "full_pack_path q", OF tmp_not_full(1) [symmetric]] tmp_not_full(3) that s
    by (auto simp: blocks_coherent_def)
  have "lc_cap L (bc_mem s') = lc_cap L (bc_mem s)" using s'(4) L by simp
  then have "blocks_coherent L D s'"
    using s mem blk full unfolding blocks_coherent_def s'(1,2) by simp
  then show ?thesis using s'(1,3) d by simp
qed

lemma get_or_fetch_keeps:
  assumes L: "lru_laws L" and s: "blocks_coherent L D s"
    and f: "honest_fetch fetch_block (D (extract_filename p))"
    and run: "get_or_fetch_block os L pid p b fetch_block s = (s', r)"
  shows "blocks_coherent L D s' \<and> bc_size s' = bc_size s \<and>
    (case r of Inr d \<Rightarrow> d = block_of (bc_size s) (D (extract_filename p)) b | Inl e \<Rightarrow> fetch_fails fetch_block e)"
proof -
  let ?key = "(extract_filename p, b)"
  obtain mem v where g: "lc_get L ?key (bc_mem s) = (mem, v)" by (cases "lc_get L ?key (bc_mem s)")
  have v: "v = lru_at L (bc_mem s) ?key" "lru_at L mem = lru_at L (bc_mem s)" "lc_cap L mem = lc_cap L (bc_mem s)"
    using lru_get [OF L, of ?key "bc_mem s"] lru_caps(2) [OF L, of ?key "bc_mem s"] g by simp_all
  have mem: "blocks_coherent L D (s\<lparr>bc_mem := mem\<rparr>)" using s v by (simp add: blocks_coherent_def)
  show ?thesis
  proof (cases v)
    case (Some data)
    then show ?thesis using run g s v by (auto simp: get_or_fetch_block_def Let_def blocks_coherent_def)
  next
    case None
    let ?path = "block_path p b"
    show ?thesis
    proof (cases "if fs_is_file os ?path (bc_files s) then fs_read os ?path (bc_files s) else None")
      case None2: None
      then have "fetch_and_store os L pid p b fetch_block (s\<lparr>bc_mem := mem\<rparr>) = (s', r)"
        using run g None by (simp add: get_or_fetch_block_def Let_def)
      from fetch_keeps [OF L mem f this] show ?thesis by (simp split: sum.splits)
    next
      case (Some data)
      then have "hm_get (bc_files s) ?path = Some data" by (auto split: if_splits dest: fs_read_Some)
      then have d: "data = block_of (bc_size s) (D (extract_filename p)) b" using s by (simp add: blocks_coherent_def)
      have s': "s' = s\<lparr>bc_hits := bc_hits s + 1, bc_mem := lc_put L ?key data mem\<rparr>" "r = Inr data"
        using run g None Some by (auto simp: get_or_fetch_block_def Let_def)
      have "c = block_of (bc_size s) (D g) k" if "lru_at L (bc_mem s') (g, k) = Some c" for g k c
        using lru_put_at [OF L, of ?key data mem "(g, k)" c] that s d v(2) unfolding s'(1)
        by (auto simp: blocks_coherent_def)
      moreover have "bc_size s' = bc_size s" "bc_files s' = bc_files s" "lc_cap L (bc_mem s') = lc_cap L (bc_mem s)"
        using s'(1) v(3) L by simp_all
      ultimately show ?thesis using s s'(2) d unfolding blocks_coherent_def by simp
    qed
  qed
qed

text \<open>One block adds its overlap with the range, and never with crossed ends.\<close>

lemma block_overlap_slice:
  assumes "0 < sz" "0 < len" "offset < (b + 1) * sz" "b * sz < offset + len"
  shows "block_overlap offset len (b * sz) (block_of sz data b) =
    Inr (slice (max offset (b * sz)) (min (offset + len) ((b + 1) * sz)) data)"
proof -
  define d where "d = block_of sz data b"
  have ld: "length d = min sz (length data - b * sz)" by (simp add: d_def block_of_def)
  define o1 where "o1 = max offset (b * sz) - b * sz"
  define o2 where "o2 = min (offset + len) (b * sz + length d) - b * sz"
  have o1: "b * sz + o1 = max offset (b * sz)" by (simp add: o1_def)
  show ?thesis
  proof (cases "o1 < length d")
    case True
    have le: "o1 \<le> min o2 (length d)" using True assms by (auto simp: o1_def o2_def)
    have "slice o1 (min o2 (length d)) d = slice (max offset (b * sz)) (min (b * sz + min o2 (length d)) (b * sz + sz)) data"
      unfolding d_def block_of_def slice_slice using o1 by simp
    also have "min (b * sz + min o2 (length d)) (b * sz + sz) = min (offset + len) (b * sz + length d)"
    proof -
      have "b * sz + o2 = min (offset + len) (b * sz + length d)" "length d \<le> sz"
        using assms(4) ld by (simp_all add: o2_def)
      then show ?thesis by linarith
    qed
    also have "slice (max offset (b * sz)) (min (offset + len) (b * sz + length d)) data =
        slice (max offset (b * sz)) (min (offset + len) ((b + 1) * sz)) data"
    proof (cases "length d = sz")
      case True
      then show ?thesis by (simp add: add.commute)
    next
      case False
      then have "length data \<le> b * sz + length d" using ld by linarith
      moreover have "b * sz + length d \<le> (b + 1) * sz" using ld by simp
      ultimately show ?thesis
        using slice_end [of data "offset + len" "(b + 1) * sz"] slice_end [of data "b * sz + length d" "(b + 1) * sz"]
          slice_end [of data "b * sz + length d" "offset + len"]
        by (cases "offset + len \<le> b * sz + length d"; cases "offset + len \<le> (b + 1) * sz") (simp_all add: min_def)
    qed
    finally show ?thesis using True le by (simp add: block_overlap_def Let_def d_def [symmetric] o1_def [symmetric] o2_def [symmetric])
  next
    case False
    have "o1 < sz" using assms(1,3) unfolding o1_def max_def by (cases "offset \<le> b * sz") simp_all
    then have "length data \<le> b * sz + o1" using False ld by linarith
    then have "length data \<le> max offset (b * sz)" using o1 by simp
    then have "slice (max offset (b * sz)) (min (offset + len) ((b + 1) * sz)) data = []" by (simp add: slice_def)
    then show ?thesis using False by (simp add: block_overlap_def Let_def d_def [symmetric] o1_def [symmetric])
  qed
qed

definition range_result :: "(nat \<Rightarrow> nat \<Rightarrow> bytes result) \<Rightarrow> bytes \<Rightarrow> nat \<Rightarrow> nat \<Rightarrow> bytes result \<Rightarrow> bool" where
  "range_result fetch_block data offset len r \<longleftrightarrow>
     (case r of Inr d \<Rightarrow> d = slice offset (offset + len) data | Inl e \<Rightarrow> fetch_fails fetch_block e)"

lemma block_loop_slice:
  assumes L: "lru_laws L" and f: "honest_fetch fetch_block (D (extract_filename p))" and len: "0 < len"
  shows "blocks_coherent L D s \<Longrightarrow> bc_size s = sz \<Longrightarrow> eb = (offset + len - 1) div sz \<Longrightarrow> b \<le> Suc eb \<Longrightarrow>
    offset < (b + 1) * sz \<or> b = Suc eb \<Longrightarrow>
    res = slice offset (min (offset + len) (max offset (b * sz))) (D (extract_filename p)) \<Longrightarrow>
    block_loop os L pid p offset len fetch_block [b..<Suc eb] res s = (s', r) \<Longrightarrow>
    blocks_coherent L D s' \<and> bc_size s' = sz \<and> range_result fetch_block (D (extract_filename p)) offset len r"
proof (induction "Suc eb - b" arbitrary: b res s)
  case 0
  then have b: "b = Suc eb" by simp
  have sz: "0 < sz" using 0(2,3) by (simp add: blocks_coherent_def)
  have "offset + len - 1 < b * sz" unfolding b "0.prems"(3) using sz by (metis dividend_less_div_times mult.commute mult_Suc_right add.commute)
  then have "min (offset + len) (max offset (b * sz)) = offset + len" using len by simp
  then show ?case using 0 b by (auto simp: range_result_def)
next
  case (Suc k)
  let ?D = "D (extract_filename p)"
  have sz: "0 < sz" using Suc.prems(1,2) by (simp add: blocks_coherent_def)
  have b: "b \<le> eb" using Suc.hyps(2) by linarith
  then have rest: "[b..<Suc eb] = b # [Suc b..<Suc eb]" by (simp add: upt_rec [of b])
  have "b * sz \<le> (offset + len - 1) div sz * sz" using b Suc.prems(3) by simp
  also have "\<dots> \<le> offset + len - 1" by (rule div_times_less_eq_dividend)
  finally have start: "b * sz < offset + len" using len by linarith
  have off: "offset < (b + 1) * sz" using Suc.prems(5) b by simp
  obtain s1 r1 where g: "get_or_fetch_block os L pid p b fetch_block s = (s1, r1)"
    by (cases "get_or_fetch_block os L pid p b fetch_block s")
  note keeps = get_or_fetch_keeps [OF L Suc.prems(1) f g]
  show ?case
  proof (cases r1)
    case (Inl e)
    then show ?thesis using Suc.prems(2,7) keeps unfolding rest by (auto simp: g range_result_def simp del: upt_Suc)
  next
  case r1: (Inr data)
  have k: "blocks_coherent L D s1" "bc_size s1 = sz" "data = block_of sz ?D b"
    using keeps r1 Suc.prems(2) by auto
  define part where "part = slice (max offset (b * sz)) (min (offset + len) ((b + 1) * sz)) ?D"
  have ov: "block_overlap offset len (b * sz) data = Inr part"
    unfolding k(3) part_def by (rule block_overlap_slice [OF sz len off start])
  have run: "(if length data < sz then (s1, Inr (res @ part))
      else block_loop os L pid p offset len fetch_block [Suc b..<Suc eb] (res @ part) s1) = (s', r)"
    using Suc.prems(7) unfolding rest by (simp add: g r1 k(2) ov del: upt_Suc)
  have ord: "offset \<le> min (offset + len) (max offset (b * sz))"
    "min (offset + len) (max offset (b * sz)) = max offset (b * sz)"
    "max offset (b * sz) \<le> min (offset + len) ((b + 1) * sz)" using start off len by simp_all
  have res: "res @ part = slice offset (min (offset + len) ((b + 1) * sz)) ?D"
    unfolding Suc.prems(6) part_def ord(2) by (rule slice_append [OF max.cobounded1 ord(3)])
  show ?thesis
  proof (cases "length data < sz")
    case True
    have "length ?D < (b + 1) * sz" using True k(3) by (simp add: block_of_def)
    then have "slice offset (min (offset + len) ((b + 1) * sz)) ?D = slice offset (offset + len) ?D"
      using slice_end [of ?D "(b + 1) * sz" "offset + len"] by (cases "offset + len \<le> (b + 1) * sz") (simp_all add: min_def)
    then show ?thesis using run True res k(1,2) by (auto simp: range_result_def)
  next
    case False
    have "max offset (Suc b * sz) = (b + 1) * sz" using off by simp
    then have "res @ part = slice offset (min (offset + len) (max offset (Suc b * sz))) ?D" using res by simp
    moreover have "offset < (Suc b + 1) * sz \<or> Suc b = Suc eb" using off by simp
    moreover have "block_loop os L pid p offset len fetch_block [Suc b..<Suc eb] (res @ part) s1 = (s', r)"
      using run False by simp
    ultimately show ?thesis using Suc.hyps(1) [of "Suc b" s1 "res @ part"] Suc.hyps(2) k(1,2) Suc.prems(3) b by simp
  qed
  qed
qed

lemma block_range:
  assumes "lru_laws L" "blocks_coherent L D s" "honest_fetch fetch_block (D (extract_filename p))"
    and "block_read_range os L pid p offset len fetch_block s = (s', r)"
  shows "blocks_coherent L D s' \<and> bc_size s' = bc_size s \<and>
    (range_result fetch_block (D (extract_filename p)) offset len r \<or>
     r = Inl (E_Repo Repo_Cache) \<and> \<not> os_ok os (Fs_Read (full_pack_path p)) \<or>
     (\<exists>k. os_short os (full_pack_path p) = Some k \<and> r = Inr (take k (slice offset (offset + len) (D (extract_filename p))))))"
proof -
  let ?D = "D (extract_filename p)"
  consider "len = 0" | "0 < len" "fs_is_file os (full_pack_path p) (bc_files s)"
    | "0 < len" "\<not> fs_is_file os (full_pack_path p) (bc_files s)" by blast
  then show ?thesis
  proof cases
    case 1
    then show ?thesis using assms by (auto simp: block_read_range_def range_result_def)
  next
    case 2
    then obtain c where c: "hm_get (bc_files s) (full_pack_path p) = Some c" by (auto simp: fs_is_file_def)
    have D: "c = ?D" using c assms(2) by (simp add: blocks_coherent_def)
    let ?d = "slice offset (offset + len) c"
    have "slice offset (offset + min len (length c - offset)) c = ?d" "length c \<le> offset \<Longrightarrow> ?d = []"
      by (simp_all add: slice_def min_def)
    then have "s' = s \<and> (r = Inr ?d \<or> r = Inl (E_Repo Repo_Cache) \<and> \<not> os_ok os (Fs_Read (full_pack_path p)) \<or>
        (\<exists>k. os_short os (full_pack_path p) = Some k \<and> r = Inr (take k ?d)))"
      using 2 c assms(4) by (auto simp: block_read_range_def fs_read_def fs_read_at_def split: if_splits option.splits)
    then show ?thesis using assms(2) unfolding D by (auto simp: range_result_def)
  next
    case 3
    let ?b = "offset div bc_size s"
    have sz: "0 < bc_size s" using assms(2) by (simp add: blocks_coherent_def)
    have off: "offset < (?b + 1) * bc_size s" using sz by (metis dividend_less_div_times add.commute mult.commute mult_Suc_right Suc_eq_plus1)
    have "?b * bc_size s \<le> offset" by (rule div_times_less_eq_dividend)
    then have nil: "[] = slice offset (min (offset + len) (max offset (?b * bc_size s))) ?D"
      by (simp add: max_absorb1)
    have "offset \<le> offset + len - 1" using 3(1) by linarith
    then have le: "?b \<le> Suc ((offset + len - 1) div bc_size s)" by (intro le_SucI div_le_mono)
    have run: "block_loop os L pid p offset len fetch_block [?b..<Suc ((offset + len - 1) div bc_size s)] [] s = (s', r)"
      using 3 assms(4) by (simp add: block_read_range_def Let_def)
    show ?thesis
      using block_loop_slice [OF assms(1,3) 3(1) assms(2) refl refl le disjI1 [OF off] nil run] by blast
  qed
qed


text \<open>A pack of six bytes in blocks of four, read across the two blocks.\<close>

definition demo_pack :: bytes where
  "demo_pack = [1, 2, 3, 4, 5, 6]"

definition demo_fetch :: "nat \<Rightarrow> nat \<Rightarrow> bytes result" where
  "demo_fetch off len = Inr (slice off (off + len) demo_pack)"

definition demo_blocks :: "(string \<times> nat, bytes) demo_cache block_cache" where
  "demo_blocks = block_cache_new demo_lru 4 []"

lemma demo_blocks_coherent: "blocks_coherent demo_lru (\<lambda>_. demo_pack) demo_blocks"
  by (simp add: blocks_coherent_def demo_blocks_def block_cache_new_def demo_lru_def demo_view_of_def)

lemma demo_honest: "honest_fetch demo_fetch demo_pack"
  by (simp add: honest_fetch_def demo_fetch_def)


end
