(* ===== verification/Gcs_Service.thy ===== *)
theory Gcs_Service
  imports Prelude
begin

text \<open>
  The client of the crate \<open>google_cloud_storage\<close>, a parameter of the model: the record
  \<open>gcs\<close> over a state \<open>'g\<close> of the bucket and the handles \<open>'w\<close> of appendable objects. A read
  stands for the request and the loop over its chunks; a listing for its first page. The fields
  \<open>g_object\<close>, \<open>g_name\<close> and \<open>g_pending\<close> are the specification: the content of an object, the
  object of a handle and the bytes handed to it so far. \<open>gcs_read_laws\<close> and \<open>gcs_write_laws\<close>
  state the documented behaviour: a successful read returns content of the object, and after a
  successful flush or finalize the object holds exactly the bytes appended; no call touches
  another object. Any call may fail.
\<close>

record ('g, 'w) gcs =
  g_read :: "string \<Rightarrow> 'g \<Rightarrow> bytes result"
  g_range :: "string \<Rightarrow> nat \<Rightarrow> nat \<Rightarrow> 'g \<Rightarrow> bytes result"
  g_list :: "string \<Rightarrow> 'g \<Rightarrow> string list result"
  g_generation :: "string \<Rightarrow> 'g \<Rightarrow> nat result"
  g_open :: "string \<Rightarrow> 'g \<Rightarrow> 'g \<times> 'w result"
  g_reopen :: "string \<Rightarrow> nat \<Rightarrow> 'g \<Rightarrow> 'g \<times> 'w result"
  g_append :: "'w \<Rightarrow> bytes \<Rightarrow> 'g \<Rightarrow> 'g \<times> unit result"
  g_flush :: "'w \<Rightarrow> 'g \<Rightarrow> 'g \<times> unit result"
  g_finalize :: "'w \<Rightarrow> 'g \<Rightarrow> 'g \<times> unit result"
  g_object :: "'g \<Rightarrow> string \<Rightarrow> bytes option"
  g_name :: "'w \<Rightarrow> string"
  g_pending :: "'g \<Rightarrow> 'w \<Rightarrow> bytes"

definition gcs_read_laws :: "('g, 'w) gcs \<Rightarrow> bool" where
  "gcs_read_laws G \<longleftrightarrow>
     (\<forall>n g d. g_read G n g = Inr d \<longrightarrow> g_object G g n = Some d) \<and>
     (\<forall>n off len g d. g_range G n off len g = Inr d \<longrightarrow>
        (\<exists>c. g_object G g n = Some c \<and> d = slice off (off + len) c))"

text \<open>A call leaves the objects other than \<open>n\<close> alone.\<close>

definition only_object :: "('g, 'w) gcs \<Rightarrow> string \<Rightarrow> 'g \<Rightarrow> 'g \<Rightarrow> bool" where
  "only_object G n g g' \<longleftrightarrow> (\<forall>m. m \<noteq> n \<longrightarrow> g_object G g' m = g_object G g m)"

definition gcs_write_laws :: "('g, 'w) gcs \<Rightarrow> bool" where
  "gcs_write_laws G \<longleftrightarrow>
     (\<forall>n g g' r. g_open G n g = (g', r) \<longrightarrow> only_object G n g g' \<and>
        (\<forall>w. r = Inr w \<longrightarrow> g_name G w = n \<and> g_pending G g' w = [])) \<and>
     (\<forall>w d g g' r. g_append G w d g = (g', r) \<longrightarrow> only_object G (g_name G w) g g' \<and>
        (r = Inr () \<longrightarrow> g_pending G g' w = g_pending G g w @ d)) \<and>
     (\<forall>w g g' r. g_flush G w g = (g', r) \<longrightarrow> only_object G (g_name G w) g g' \<and>
        (r = Inr () \<longrightarrow> g_pending G g' w = g_pending G g w \<and>
           g_object G g' (g_name G w) = Some (g_pending G g w))) \<and>
     (\<forall>w g g' r. g_finalize G w g = (g', r) \<longrightarrow> only_object G (g_name G w) g g' \<and>
        (r = Inr () \<longrightarrow> g_object G g' (g_name G w) = Some (g_pending G g w)))"

text \<open>
  Reopening changes no object and continues after the content; a finalize that fails leaves the
  object as it was or complete; metadata exists for existing objects only.
\<close>

definition gcs_reopen_laws :: "('g, 'w) gcs \<Rightarrow> bool" where
  "gcs_reopen_laws G \<longleftrightarrow>
     (\<forall>n k g g' r. g_reopen G n k g = (g', r) \<longrightarrow> g_object G g' = g_object G g \<and>
        (\<forall>w. r = Inr w \<longrightarrow> g_name G w = n \<and> g_object G g n = Some (g_pending G g' w))) \<and>
     (\<forall>w g g' r. g_finalize G w g = (g', r) \<longrightarrow>
        g_object G g' (g_name G w) = g_object G g (g_name G w) \<or>
        g_object G g' (g_name G w) = Some (g_pending G g w)) \<and>
     (\<forall>n g k. g_generation G n g = Inr k \<longrightarrow> g_object G g n \<noteq> None)"

lemma only_object_refl [simp]: "only_object G n g g"
  by (simp add: only_object_def)

lemma only_object_trans: "only_object G n a b \<Longrightarrow> only_object G n b c \<Longrightarrow> only_object G n a c"
  by (simp add: only_object_def)

text \<open>\<open>write_rapid_object\<close> of the repository storage and of the log backend, which are the same code.\<close>

definition write_rapid_object :: "('g, 'w) gcs \<Rightarrow> string \<Rightarrow> bytes \<Rightarrow> 'g \<Rightarrow> 'g \<times> unit result" where
  "write_rapid_object G name data g =
     and_then (g_open G name g) (\<lambda>g w.
     and_then (if data = [] then (g, Inr ())
               else and_then (g_append G w data g) (\<lambda>g _. g_flush G w g)) (\<lambda>g _.
     g_finalize G w g))"

lemma gcs_open:
  assumes "gcs_write_laws G" "g_open G n g = (g', r)"
  shows "only_object G n g g'" "r = Inr w \<Longrightarrow> g_name G w = n" "r = Inr w \<Longrightarrow> g_pending G g' w = []"
  using assms by (simp_all add: gcs_write_laws_def)

lemma gcs_append:
  assumes "gcs_write_laws G" "g_append G w d g = (g', r)"
  shows "only_object G (g_name G w) g g'" "r = Inr () \<Longrightarrow> g_pending G g' w = g_pending G g w @ d"
  using assms by (simp_all add: gcs_write_laws_def)

lemma gcs_flush:
  assumes "gcs_write_laws G" "g_flush G w g = (g', r)"
  shows "only_object G (g_name G w) g g'" "r = Inr () \<Longrightarrow> g_pending G g' w = g_pending G g w"
    "r = Inr () \<Longrightarrow> g_object G g' (g_name G w) = Some (g_pending G g w)"
  using assms by (simp_all add: gcs_write_laws_def)

lemma gcs_finalize:
  assumes "gcs_write_laws G" "g_finalize G w g = (g', r)"
  shows "only_object G (g_name G w) g g'" "r = Inr () \<Longrightarrow> g_object G g' (g_name G w) = Some (g_pending G g w)"
  using assms by (simp_all add: gcs_write_laws_def)

lemma append_flush:
  assumes W: "gcs_write_laws G" and run: "and_then (g_append G w d g) (\<lambda>g _. g_flush G w g) = (g', r)"
  shows "only_object G (g_name G w) g g'" "r = Inr () \<Longrightarrow> g_pending G g' w = g_pending G g w @ d"
proof -
  obtain g1 r1 where a: "g_append G w d g = (g1, r1)" by (cases "g_append G w d g")
  note A = gcs_append [OF W a]
  have "only_object G (g_name G w) g g' \<and> (r = Inr () \<longrightarrow> g_pending G g' w = g_pending G g w @ d)"
  proof (cases r1)
    case (Inl e)
    then show ?thesis using run A(1) by (auto simp: a)
  next
    case (Inr u)
    then have f: "g_flush G w g1 = (g', r)" using run by (simp add: a)
    show ?thesis using gcs_flush(1,2) [OF W f] A Inr by (auto intro: only_object_trans)
  qed
  then show "only_object G (g_name G w) g g'" "r = Inr () \<Longrightarrow> g_pending G g' w = g_pending G g w @ d" by simp_all
qed

lemma write_rapid_object_spec:
  assumes W: "gcs_write_laws G" and run: "write_rapid_object G name data g = (g', r)"
  shows "only_object G name g g'" "r = Inr () \<Longrightarrow> g_object G g' name = Some data"
proof -
  obtain g1 r1 where o: "g_open G name g = (g1, r1)" by (cases "g_open G name g")
  have "only_object G name g g' \<and> (r = Inr () \<longrightarrow> g_object G g' name = Some data)"
  proof (cases r1)
    case (Inl e)
    then show ?thesis using run gcs_open(1) [OF W o] by (auto simp: write_rapid_object_def o)
  next
    case (Inr w)
    note O = gcs_open(1) [OF W o] gcs_open(2,3) [OF W o Inr]
    define mid where "mid = (if data = [] then (g1, Inr ()) else and_then (g_append G w data g1) (\<lambda>g _. g_flush G w g))"
    obtain g2 r2 where m: "mid = (g2, r2)" by (cases mid)
    have A: "only_object G name g1 g2" "r2 = Inr () \<Longrightarrow> g_pending G g2 w = data"
    proof (atomize (full), cases "data = []")
      case True
      then have "g2 = g1" using m by (simp add: mid_def)
      then show "only_object G name g1 g2 \<and> (r2 = Inr () \<longrightarrow> g_pending G g2 w = data)" using True O(3) by simp
    next
      case False
      then have "and_then (g_append G w data g1) (\<lambda>g _. g_flush G w g) = (g2, r2)" using m by (simp add: mid_def)
      from append_flush [OF W this]
      show "only_object G name g1 g2 \<and> (r2 = Inr () \<longrightarrow> g_pending G g2 w = data)" using O(2,3) by simp
    qed
    have run': "and_then (g2, r2) (\<lambda>g _. g_finalize G w g) = (g', r)"
      using run by (simp add: write_rapid_object_def o Inr mid_def [symmetric] m)
    show ?thesis
    proof (cases r2)
      case (Inl e)
      then show ?thesis using run' only_object_trans [OF O(1) A(1)] by auto
    next
      case r2: (Inr u)
      then have f: "g_finalize G w g2 = (g', r)" using run' by simp
      show ?thesis
        using gcs_finalize [OF W f] only_object_trans [OF only_object_trans [OF O(1) A(1)]] A(2) r2 O(2) by simp
    qed
  qed
  then show "only_object G name g g'" "r = Inr () \<Longrightarrow> g_object G g' name = Some data" by simp_all
qed

section \<open>An instance, for the witnesses\<close>

text \<open>The objects in a map, a handle is the name of its object and appends at once.\<close>

type_synonym bucket = "(string, bytes) hmap"

definition bucket_content :: "bucket \<Rightarrow> string \<Rightarrow> bytes" where
  "bucket_content g n = (case hm_get g n of Some c \<Rightarrow> c | None \<Rightarrow> [])"

definition bucket_read :: "string \<Rightarrow> bucket \<Rightarrow> bytes result" where
  "bucket_read n g = (case hm_get g n of Some c \<Rightarrow> Inr c | None \<Rightarrow> Inl (E_Repo Repo_Fetch))"

definition demo_gcs :: "(bucket, string) gcs" where
  "demo_gcs = \<lparr>g_read = bucket_read,
     g_range = (\<lambda>n off len g. res_bind (bucket_read n g) (\<lambda>c. Inr (slice off (off + len) c))),
     g_list = (\<lambda>p g. Inr (sort_key str_bytes (filter (\<lambda>n. take (length p) n = p) (hm_keys g)))),
     g_generation = (\<lambda>n g. res_bind (bucket_read n g) (\<lambda>_. Inr 1)),
     g_open = (\<lambda>n g. (hm_put n [] g, Inr n)),
     g_reopen = (\<lambda>n k g. (g, if hm_get g n = None then Inl (E_Repo Repo_Fetch) else Inr n)),
     g_append = (\<lambda>n d g. (hm_put n (bucket_content g n @ d) g, Inr ())),
     g_flush = (\<lambda>n g. (hm_put n (bucket_content g n) g, Inr ())),
     g_finalize = (\<lambda>n g. (hm_put n (bucket_content g n) g, Inr ())),
     g_object = hm_get, g_name = (\<lambda>n. n), g_pending = bucket_content\<rparr>"

lemma bucket_content_put [simp]:
  "bucket_content (hm_put k v g) n = (if n = k then v else bucket_content g n)"
  by (simp add: bucket_content_def)

lemma demo_gcs_laws [simp]: "gcs_read_laws demo_gcs" "gcs_write_laws demo_gcs"
proof -
  have "bucket_read n g = Inr d \<longleftrightarrow> hm_get g n = Some d" for n d and g :: bucket
    by (simp add: bucket_read_def split: option.split)
  then show "gcs_read_laws demo_gcs"
    by (simp add: gcs_read_laws_def demo_gcs_def res_bind_Inr_iff) blast
  show "gcs_write_laws demo_gcs"
    by (simp add: gcs_write_laws_def demo_gcs_def only_object_def)
qed

lemma demo_gcs_reopen_laws [simp]: "gcs_reopen_laws demo_gcs"
proof -
  have "bucket_read n g = Inr d \<longleftrightarrow> hm_get g n = Some d" for n d and g :: bucket
    by (simp add: bucket_read_def split: option.split)
  then show ?thesis
    by (auto simp: gcs_reopen_laws_def demo_gcs_def res_bind_Inr_iff bucket_content_def)
qed

end
