(* ===== verification/Gcs_Storage.thy ===== *)
theory Gcs_Storage
  imports Block_Cache Pack_Writer Gcs_Service
begin

text \<open>
  The repository in a bucket, \<^verbatim>\<open>src/src/git/gcs_storage.rs\<close>: the resolution of HEAD and of
  packed refs, the pack indexes, the reading of objects out of remote packs through the block cache,
  and the publication of a commit. The recursion of \<open>read_pack_object\<close> through the bases of deltas
  has fuel: \<open>None\<close> is a read that has not returned. A call is one atomic step; the blocks that
  \<open>prefetch_blocks_for_objects\<close> fetches concurrently are fetched in order.
\<close>

section \<open>State\<close>

record ('c, 'g) gcs_storage =
  gs_prefix :: string
  gs_blocks :: "'c block_cache"
  gs_indexes :: "pack_index list"
  gs_objects :: "(string, git_raw_object) hmap"
  gs_remote :: 'g

text \<open>The local files of the storage are those of its block cache.\<close>

abbreviation gs_files :: "('c, 'g) gcs_storage \<Rightarrow> files" where
  "gs_files s \<equiv> bc_files (gs_blocks s)"

definition pack_names :: "('c, 'g) gcs_storage \<Rightarrow> string list" where
  "pack_names s = map pi_name (gs_indexes s)"

fun pack_object_len :: "pack_index list \<Rightarrow> string \<Rightarrow> nat \<Rightarrow> nat option" where
  "pack_object_len [] pack_name offset = None"
| "pack_object_len (idx # idxs) pack_name offset =
     (if pi_name idx = pack_name then object_len_at idx offset else pack_object_len idxs pack_name offset)"

definition get_pack_object_len :: "('c, 'g) gcs_storage \<Rightarrow> string \<Rightarrow> nat \<Rightarrow> nat option" where
  "get_pack_object_len s pack_name offset = pack_object_len (gs_indexes s) pack_name offset"

definition read_full_object :: "('g, 'w) gcs \<Rightarrow> string \<Rightarrow> ('c, 'g) gcs_storage \<Rightarrow> bytes result" where
  "read_full_object G name s = g_read G name (gs_remote s)"

section \<open>References\<close>

fun packed_ref_lines :: "string \<Rightarrow> string list \<Rightarrow> string option" where
  "packed_ref_lines ref_name [] = None"
| "packed_ref_lines ref_name (l # ls) =
     (let line = trim l in
      if starts_with ''#'' line \<or> starts_with ''^'' line then packed_ref_lines ref_name ls
      else (case split_whitespace line of
              sha # name # _ \<Rightarrow> if name = ref_name then Some sha else packed_ref_lines ref_name ls
            | _ \<Rightarrow> packed_ref_lines ref_name ls))"

definition lookup_packed_ref :: "('g, 'w) gcs \<Rightarrow> string \<Rightarrow> ('c, 'g) gcs_storage \<Rightarrow> string option" where
  "lookup_packed_ref G ref_name s =
     (case read_full_object G (gs_prefix s @ ''packed-refs'') s of
        Inr bs \<Rightarrow> packed_ref_lines ref_name (lines (from_utf8_lossy bs))
      | Inl _ \<Rightarrow> None)"

text \<open>A loose reference of 40 bytes, or the packed one.\<close>

definition loose_ref :: "('g, 'w) gcs \<Rightarrow> string \<Rightarrow> ('c, 'g) gcs_storage \<Rightarrow> string option" where
  "loose_ref G path s =
     (case read_full_object G path s of
        Inr bs \<Rightarrow> (let sha = trim (from_utf8_lossy bs) in if length sha = 40 then Some sha else None)
      | Inl _ \<Rightarrow> None)"

definition ref_value :: "('g, 'w) gcs \<Rightarrow> string \<Rightarrow> ('c, 'g) gcs_storage \<Rightarrow> string option" where
  "ref_value G ref_name s =
     (case loose_ref G (gs_prefix s @ ref_name) s of
        Some sha \<Rightarrow> Some sha
      | None \<Rightarrow> lookup_packed_ref G ref_name s)"

text \<open>\<open>s[..n]\<close> panics inside a character.\<close>

definition char_boundary :: "string \<Rightarrow> nat \<Rightarrow> bool" where
  "char_boundary s n \<longleftrightarrow> n = length s \<or> n < length s \<and> \<not> is_cont (byte_of (s ! n))"

definition head_value :: "('g, 'w) gcs \<Rightarrow> ('c, 'g) gcs_storage \<Rightarrow> (string \<times> string) result" where
  "head_value G s =
     res_bind (read_full_object G (gs_prefix s @ ''HEAD'') s) (\<lambda>head_bytes.
       let head_str = trim (from_utf8_lossy head_bytes) in
       if starts_with ''ref: '' head_str then
         (let ref_name = trim (strip_any [''ref: ''] head_str) in
          case ref_value G ref_name s of
            Some sha \<Rightarrow> Inr (sha, ref_name)
          | None \<Rightarrow> Inl (E_Repo Repo_NoRef))
       else if length head_str \<ge> 40 then
         (if char_boundary head_str 40 then Inr (take 40 head_str, ''HEAD'') else Inl Panic)
       else Inl (E_Repo Repo_BadHead))"

definition gcs_resolve_head ::
  "('g, 'w) gcs \<Rightarrow> string option \<Rightarrow> ('c, 'g) gcs_storage \<Rightarrow> (string \<times> string) result" where
  "gcs_resolve_head G branch_override s =
     (case branch_override of
        Some branch \<Rightarrow>
          (case ref_value G (''refs/heads/'' @ branch) s of
             Some sha \<Rightarrow> Inr (sha, branch)
           | None \<Rightarrow> head_value G s)
      | None \<Rightarrow> head_value G s)"

section \<open>Indexes\<close>

text \<open>The loop over the listed objects; the indexes parsed so far are dropped on an error.\<close>

fun load_indexes ::
  "('g, 'w) gcs \<Rightarrow> string list \<Rightarrow> string list \<Rightarrow> pack_index list \<Rightarrow> ('c, 'g) gcs_storage \<Rightarrow>
   pack_index list result" where
  "load_indexes G loaded_names [] new_indexes s = Inr new_indexes"
| "load_indexes G loaded_names (name # names) new_indexes s =
     (case strip_suffix ''.idx'' name of
        Some stem \<Rightarrow>
          (let pack_obj_name = stem @ ''.pack'' in
           if pack_obj_name \<in> set loaded_names then load_indexes G loaded_names names new_indexes s
           else res_bind (read_full_object G name s) (\<lambda>idx_bytes.
                res_bind (idx_parse pack_obj_name idx_bytes) (\<lambda>idx.
                  load_indexes G loaded_names names (new_indexes @ [idx]) s)))
      | None \<Rightarrow> load_indexes G loaded_names names new_indexes s)"

definition refresh_pack_indexes ::
  "('g, 'w) gcs \<Rightarrow> ('c, 'g) gcs_storage \<Rightarrow> ('c, 'g) gcs_storage \<times> unit result" where
  "refresh_pack_indexes G s =
     (case res_bind (g_list G (gs_prefix s @ ''objects/pack/'') (gs_remote s))
             (\<lambda>names. load_indexes G (pack_names s) names [] s) of
        Inl e \<Rightarrow> (s, Inl e)
      | Inr new_indexes \<Rightarrow> (s\<lparr>gs_indexes := gs_indexes s @ new_indexes\<rparr>, Inr ()))"

definition gcs_storage_new ::
  "os \<Rightarrow> 'c lru_blocks \<Rightarrow> ('g, 'w) gcs \<Rightarrow> string \<Rightarrow> files \<Rightarrow> 'g \<Rightarrow> ('c, 'g) gcs_storage result" where
  "gcs_storage_new os L G prefix fs g =
     (if \<not> os_ok os (Fs_Mkdir []) then Inl (E_Repo Repo_Cache)
      else case refresh_pack_indexes G
          \<lparr>gs_prefix = trim_start_char (CHR ''/'') prefix, gs_blocks = block_cache_new L default_block_size fs,
           gs_indexes = [], gs_objects = [], gs_remote = g\<rparr> of
        (s, Inr ()) \<Rightarrow> Inr s
      | (s, Inl e) \<Rightarrow> Inl e)"

text \<open>A file of the local copy; the errors of these writes are ignored.\<close>

definition keep_local :: "os \<Rightarrow> path \<Rightarrow> bytes \<Rightarrow> ('c, 'g) gcs_storage \<Rightarrow> ('c, 'g) gcs_storage" where
  "keep_local os p data s =
     s\<lparr>gs_blocks := (gs_blocks s)\<lparr>bc_files := fst (fs_write os p data (gs_files s))\<rparr>\<rparr>"

definition ensure_pack_cached ::
  "os \<Rightarrow> ('g, 'w) gcs \<Rightarrow> string \<Rightarrow> ('c, 'g) gcs_storage \<Rightarrow> ('c, 'g) gcs_storage \<times> path result" where
  "ensure_pack_cached os G pack_obj_name s =
     (let p = full_pack_path pack_obj_name in
      if fs_is_file os p (gs_files s) then (s, Inr p)
      else if \<not> os_ok os (Fs_Mkdir (butlast p)) then (s, Inl (E_Repo Repo_Cache))
      else (case read_full_object G pack_obj_name s of
              Inl e \<Rightarrow> (s, Inl e)
            | Inr content \<Rightarrow>
                (keep_local os p content s,
                 if snd (fs_write os p content (gs_files s)) then Inr p else Inl (E_Repo Repo_Cache))))"

section \<open>Reading objects\<close>

text \<open>\<open>oid\<close> as 20 bytes.\<close>

definition oid_sha :: "ext \<Rightarrow> string \<Rightarrow> bytes option" where
  "oid_sha X oid =
     (case x_hex_decode X oid of Some b \<Rightarrow> if length b = 20 then Some b else None | None \<Rightarrow> None)"

fun pack_match :: "pack_index list \<Rightarrow> bytes \<Rightarrow> (string \<times> nat \<times> nat) option" where
  "pack_match [] sha = None"
| "pack_match (idx # idxs) sha =
     (case find_offset idx sha of
        Some (offset, len) \<Rightarrow> Some (pi_name idx, offset, len)
      | None \<Rightarrow> pack_match idxs sha)"

definition loose_type :: "string \<Rightarrow> object_type option" where
  "loose_type header =
     (if starts_with ''commit '' header then Some Commit_Type
      else if starts_with ''tree '' header then Some Tree_Type
      else if starts_with ''blob '' header then Some Blob_Type
      else if starts_with ''tag '' header then Some Tag_Type else None)"

definition parse_loose :: "ext \<Rightarrow> bytes \<Rightarrow> git_raw_object result" where
  "parse_loose X compressed =
     (case x_inflate X compressed of
        None \<Rightarrow> Inl (E_Pack Pack_Zlib)
      | Some (decompressed, _) \<Rightarrow>
          (case position (\<lambda>b. b = 0) decompressed of
             None \<Rightarrow> Inl (E_Repo Repo_BadLoose)
           | Some null_pos \<Rightarrow>
               (case loose_type (from_utf8_lossy (take null_pos decompressed)) of
                  None \<Rightarrow> Inl (E_Repo Repo_BadLoose)
                | Some ty \<Rightarrow> Inr \<lparr>ro_type = ty, ro_data = drop (null_pos + 1) decompressed\<rparr>)))"

text \<open>A result with fuel: \<open>None\<close> when the fuel ran out.\<close>

definition fuel_then ::
  "('s \<times> 'a result) option \<Rightarrow> ('s \<Rightarrow> 'a \<Rightarrow> ('s \<times> 'b result) option) \<Rightarrow> ('s \<times> 'b result) option" where
  "fuel_then r f =
     (case r of None \<Rightarrow> None | Some (s, Inl e) \<Rightarrow> Some (s, Inl e) | Some (s, Inr x) \<Rightarrow> f s x)"

lemma fuel_then_simps [simp]:
  "fuel_then None f = None" "fuel_then (Some (s, Inl e)) f = Some (s, Inl e)"
  "fuel_then (Some (s, Inr x)) f = f s x"
  by (simp_all add: fuel_then_def)

text \<open>
  \<open>read_object_with rd\<close> is \<open>read_object_raw\<close> over the reader \<open>rd\<close> of an object in a pack.
\<close>

definition read_object_with ::
  "ext \<Rightarrow> ('g, 'w) gcs \<Rightarrow>
   (string \<Rightarrow> nat \<Rightarrow> nat \<Rightarrow> ('c, 'g) gcs_storage \<Rightarrow> (('c, 'g) gcs_storage \<times> git_raw_object result) option) \<Rightarrow>
   string \<Rightarrow> ('c, 'g) gcs_storage \<Rightarrow> (('c, 'g) gcs_storage \<times> git_raw_object result) option" where
  "read_object_with X G rd oid s =
     (case hm_get (gs_objects s) oid of
        Some obj \<Rightarrow> Some (s, Inr obj)
      | None \<Rightarrow>
          (case oid_sha X oid of
             None \<Rightarrow> Some (s, Inl (E_Repo Repo_BadSha))
           | Some sha \<Rightarrow>
               fuel_then
                 (case pack_match (gs_indexes s) sha of
                    Some (pack_name, offset, len) \<Rightarrow> rd pack_name offset len s
                  | None \<Rightarrow>
                      Some (s, res_bind (read_full_object G
                        (gs_prefix s @ ''objects/'' @ take 2 oid @ ''/'' @ drop 2 oid) s) (parse_loose X)))
                 (\<lambda>s obj. Some (s\<lparr>gs_objects := hm_put oid obj (gs_objects s)\<rparr>, Inr obj))))"

definition range_fetcher :: "('g, 'w) gcs \<Rightarrow> string \<Rightarrow> 'g \<Rightarrow> nat \<Rightarrow> nat \<Rightarrow> bytes result" where
  "range_fetcher G pack_name g block_offset block_len = g_range G pack_name block_offset block_len g"

definition read_pack_slice ::
  "os \<Rightarrow> 'c lru_blocks \<Rightarrow> nat \<Rightarrow> ('g, 'w) gcs \<Rightarrow> string \<Rightarrow> nat \<Rightarrow> nat \<Rightarrow> ('c, 'g) gcs_storage \<Rightarrow>
   ('c, 'g) gcs_storage \<times> bytes result" where
  "read_pack_slice os L pid G pack_name offset read_len s =
     (case block_read_range os L pid pack_name offset read_len (range_fetcher G pack_name (gs_remote s)) (gs_blocks s) of
        (b, r) \<Rightarrow> (s\<lparr>gs_blocks := b\<rparr>, r))"

text \<open>The header of the object at the front of a slice: its type, its size and what follows.\<close>

definition slice_header :: "bytes \<Rightarrow> (object_type \<times> nat \<times> nat) result" where
  "slice_header pack_slice =
     (if pack_slice = [] then Inl (E_Repo Repo_Empty_Read)
      else let c = pack_slice ! 0 in
      res_bind (object_type_from_u8 (unat (drop_bit 4 c AND 7))) (\<lambda>ty.
      res_bind (varint_loop (E_Pack Pack_Eof) pack_slice 1 c (unat (c AND 15)) 4) (\<lambda>(sz, pos).
        Inr (ty, sz, pos))))"

text \<open>\<open>apply_git_delta\<close> on a base object.\<close>

definition resolve_on :: "bytes \<Rightarrow> git_raw_object \<Rightarrow> git_raw_object result" where
  "resolve_on delta_data base_obj =
     res_bind (apply_git_delta (ro_data base_obj) delta_data) (\<lambda>resolved.
       Inr \<lparr>ro_type = ro_type base_obj, ro_data = resolved\<rparr>)"

text \<open>The two kinds of delta: where the base is, and the inflated instructions.\<close>

definition slice_ofs :: "ext \<Rightarrow> bytes \<Rightarrow> nat \<Rightarrow> nat \<Rightarrow> (nat \<times> bytes) result" where
  "slice_ofs X pack_slice pos offset =
     (if pos \<ge> length pack_slice then Inl (E_Pack Pack_Eof)
      else res_bind (ofs_loop pack_slice (pos + 1) (pack_slice ! pos) (unat (pack_slice ! pos AND 0x7f))) (\<lambda>(dist, pos').
        if dist > offset then Inl (E_Pack Pack_NegBase)
        else res_bind (inflate_at X pack_slice pos') (\<lambda>(delta_data, _). Inr (offset - dist, delta_data))))"

definition slice_ref :: "ext \<Rightarrow> bytes \<Rightarrow> nat \<Rightarrow> (string \<times> bytes) result" where
  "slice_ref X pack_slice pos =
     (if pos + 20 > length pack_slice then Inl (E_Pack Pack_Eof)
      else res_bind (inflate_at X pack_slice (pos + 20)) (\<lambda>(delta_data, _).
        Inr (x_hex_encode X (slice pos (pos + 20) pack_slice), delta_data)))"

definition slice_base :: "ext \<Rightarrow> bytes \<Rightarrow> object_type \<Rightarrow> nat \<Rightarrow> nat \<Rightarrow> git_raw_object result" where
  "slice_base X pack_slice ty sz pos =
     (if sz > isize_max then Inl Panic
      else res_bind (inflate_at X pack_slice pos) (\<lambda>(decomp, _). Inr \<lparr>ro_type = ty, ro_data = decomp\<rparr>))"

text \<open>What the slice of a pack at \<open>offset\<close> holds, \<open>rd\<close> the recursive call for a base.\<close>

definition read_from_slice ::
  "ext \<Rightarrow> ('g, 'w) gcs \<Rightarrow>
   (string \<Rightarrow> nat \<Rightarrow> nat \<Rightarrow> ('c, 'g) gcs_storage \<Rightarrow> (('c, 'g) gcs_storage \<times> git_raw_object result) option) \<Rightarrow>
   string \<Rightarrow> nat \<Rightarrow> ('c, 'g) gcs_storage \<Rightarrow> bytes \<Rightarrow> (('c, 'g) gcs_storage \<times> git_raw_object result) option" where
  "read_from_slice X G rd pack_name offset s pack_slice =
     (case slice_header pack_slice of
        Inl e \<Rightarrow> Some (s, Inl e)
      | Inr (Ofs_Delta, sz, pos) \<Rightarrow>
          (case slice_ofs X pack_slice pos offset of
             Inl e \<Rightarrow> Some (s, Inl e)
           | Inr (base_offset, delta_data) \<Rightarrow>
               fuel_then (rd pack_name base_offset
                   (case get_pack_object_len s pack_name base_offset of Some l \<Rightarrow> l | None \<Rightarrow> sz) s)
                 (\<lambda>s base_obj. Some (s, resolve_on delta_data base_obj)))
      | Inr (Ref_Delta, sz, pos) \<Rightarrow>
          (case slice_ref X pack_slice pos of
             Inl e \<Rightarrow> Some (s, Inl e)
           | Inr (base_sha, delta_data) \<Rightarrow>
               fuel_then (read_object_with X G rd base_sha s)
                 (\<lambda>s base_obj. Some (s, resolve_on delta_data base_obj)))
      | Inr (ty, sz, pos) \<Rightarrow> Some (s, slice_base X pack_slice ty sz pos))"

fun read_pack_object ::
  "ext \<Rightarrow> os \<Rightarrow> 'c lru_blocks \<Rightarrow> nat \<Rightarrow> ('g, 'w) gcs \<Rightarrow> nat \<Rightarrow> string \<Rightarrow> nat \<Rightarrow> nat \<Rightarrow>
   ('c, 'g) gcs_storage \<Rightarrow> (('c, 'g) gcs_storage \<times> git_raw_object result) option" where
  "read_pack_object X os L pid G 0 pack_name offset estimated_len s = None"
| "read_pack_object X os L pid G (Suc n) pack_name offset estimated_len s =
     fuel_then (Some (read_pack_slice os L pid G pack_name offset (max (estimated_len + 64) 4096) s))
       (read_from_slice X G (read_pack_object X os L pid G n) pack_name offset)"

definition read_object_raw ::
  "ext \<Rightarrow> os \<Rightarrow> 'c lru_blocks \<Rightarrow> nat \<Rightarrow> ('g, 'w) gcs \<Rightarrow> nat \<Rightarrow> string \<Rightarrow> ('c, 'g) gcs_storage \<Rightarrow>
   (('c, 'g) gcs_storage \<times> git_raw_object result) option" where
  "read_object_raw X os L pid G fuel oid s =
     read_object_with X G (read_pack_object X os L pid G fuel) oid s"

section \<open>Prefetching\<close>

fun needed_blocks ::
  "ext \<Rightarrow> os \<Rightarrow> 'c lru_blocks \<Rightarrow> ('c, 'g) gcs_storage \<Rightarrow> string list \<Rightarrow> (string \<times> nat) list \<Rightarrow> (string \<times> nat) list" where
  "needed_blocks X os L s [] needed = needed"
| "needed_blocks X os L s (oid # oids) needed =
     (case (if hm_get (gs_objects s) oid = None then oid_sha X oid else None) of
        None \<Rightarrow> needed_blocks X os L s oids needed
      | Some sha \<Rightarrow>
          (case pack_match (gs_indexes s) sha of
             None \<Rightarrow> needed_blocks X os L s oids needed
           | Some (pack_name, offset, _) \<Rightarrow>
               (let block_idx = offset div bc_size (gs_blocks s) in
                if has_block os L pack_name block_idx (gs_blocks s) then needed_blocks X os L s oids needed
                else needed_blocks X os L s oids (List.insert (pack_name, block_idx) needed))))"

fun prefetch_loop ::
  "os \<Rightarrow> 'c lru_blocks \<Rightarrow> nat \<Rightarrow> ('g, 'w) gcs \<Rightarrow> (string \<times> nat) list \<Rightarrow> ('c, 'g) gcs_storage \<Rightarrow> ('c, 'g) gcs_storage" where
  "prefetch_loop os L pid G [] s = s"
| "prefetch_loop os L pid G ((pack_name, block_idx) # bs) s =
     prefetch_loop os L pid G bs
       (s\<lparr>gs_blocks := fst (get_or_fetch_block os L pid pack_name block_idx
            (range_fetcher G pack_name (gs_remote s)) (gs_blocks s))\<rparr>)"

definition prefetch_blocks_for_objects ::
  "ext \<Rightarrow> os \<Rightarrow> 'c lru_blocks \<Rightarrow> nat \<Rightarrow> ('g, 'w) gcs \<Rightarrow> string list \<Rightarrow> ('c, 'g) gcs_storage \<Rightarrow> ('c, 'g) gcs_storage" where
  "prefetch_blocks_for_objects X os L pid G oids s = prefetch_loop os L pid G (needed_blocks X os L s oids []) s"

section \<open>Publishing\<close>

definition put_remote :: "('g, 'w) gcs \<Rightarrow> string \<Rightarrow> bytes \<Rightarrow> ('c, 'g) gcs_storage \<Rightarrow> ('c, 'g) gcs_storage \<times> unit result" where
  "put_remote G name data s =
     (case write_rapid_object G (gs_prefix s @ name) data (gs_remote s) of (g, r) \<Rightarrow> (s\<lparr>gs_remote := g\<rparr>, r))"

type_synonym ref_entry = "string \<times> string \<times> string option"

definition info_ref_lines :: "ref_entry \<Rightarrow> string" where
  "info_ref_lines e =
     (case e of (ref_name, sha, peeled) \<Rightarrow>
        sha @ [CHR 0x09] @ ref_name @ [CHR 0x0A]
        @ (case peeled of Some p \<Rightarrow> p @ [CHR 0x09] @ ref_name @ ''^{}'' @ [CHR 0x0A] | None \<Rightarrow> []))"

definition format_info_refs :: "ref_entry list \<Rightarrow> string" where
  "format_info_refs entries = concat (map info_ref_lines (sort_key (\<lambda>e. str_bytes (fst e)) entries))"

definition format_info_packs :: "string list \<Rightarrow> string" where
  "format_info_packs names =
     (let sorted = remdups_adj (sort_key str_bytes
            (filter (ends_with ''.pack'') (map (last_part (CHR ''/'')) names)));
          out = concat (map (\<lambda>name. ''P '' @ name @ [CHR 0x0A]) sorted)
      in if out = [] then out else out @ [CHR 0x0A])"

type_synonym refs_map = "(string, string \<times> string option) hmap"

text \<open>A. packed-refs, with the last reference that a peeled line belongs to.\<close>

fun packed_refs_map :: "string list \<Rightarrow> refs_map \<Rightarrow> string option \<Rightarrow> refs_map" where
  "packed_refs_map [] refs last_ref_name = refs"
| "packed_refs_map (l # ls) refs last_ref_name =
     (let line = trim l in
      if starts_with ''#'' line \<or> line = [] then packed_refs_map ls refs last_ref_name
      else if starts_with ''^'' line then
        (let peeled_sha = trim (trim_start_char (CHR ''^'') line) in
         packed_refs_map ls
           (if length peeled_sha = 40 then
              (case last_ref_name of
                 Some r \<Rightarrow>
                   (case hm_get refs r of Some (sha, _) \<Rightarrow> hm_put r (sha, Some peeled_sha) refs | None \<Rightarrow> refs)
               | None \<Rightarrow> refs)
            else refs) last_ref_name)
      else
        (case split_whitespace line of
           sha # ref_name # _ \<Rightarrow>
             (if length sha = 40 then packed_refs_map ls (hm_put ref_name (sha, None) refs) (Some ref_name)
              else packed_refs_map ls refs last_ref_name)
         | _ \<Rightarrow> packed_refs_map ls refs last_ref_name))"

text \<open>B. the loose references, which override.\<close>

fun loose_refs_map :: "('g, 'w) gcs \<Rightarrow> ('c, 'g) gcs_storage \<Rightarrow> string list \<Rightarrow> refs_map \<Rightarrow> refs_map" where
  "loose_refs_map G s [] refs = refs"
| "loose_refs_map G s (name # names) refs =
     loose_refs_map G s names
       (case strip_prefix (gs_prefix s) name of
          Some ref_name \<Rightarrow>
            (case loose_ref G name s of
               Some sha \<Rightarrow>
                 hm_put ref_name (sha, case hm_get refs ref_name of Some (_, p) \<Rightarrow> p | None \<Rightarrow> None) refs
             | None \<Rightarrow> refs)
        | None \<Rightarrow> refs)"

text \<open>The map of references, the published branch last.\<close>

definition collected_refs :: "('g, 'w) gcs \<Rightarrow> string \<Rightarrow> string \<Rightarrow> ('c, 'g) gcs_storage \<Rightarrow> refs_map" where
  "collected_refs G target_branch new_commit_oid s =
     (let packed = (case read_full_object G (gs_prefix s @ ''packed-refs'') s of
                      Inr bs \<Rightarrow> packed_refs_map (lines (from_utf8_lossy bs)) [] None
                    | Inl _ \<Rightarrow> []);
          loose = (case g_list G (gs_prefix s @ ''refs/'') (gs_remote s) of
                     Inr names \<Rightarrow> loose_refs_map G s names packed
                   | Inl _ \<Rightarrow> packed)
      in hm_put (''refs/heads/'' @ target_branch) (new_commit_oid, None) loose)"

definition update_server_info ::
  "os \<Rightarrow> ('g, 'w) gcs \<Rightarrow> string \<Rightarrow> string \<Rightarrow> ('c, 'g) gcs_storage \<Rightarrow> ('c, 'g) gcs_storage \<times> unit result" where
  "update_server_info os G target_branch new_commit_oid s =
     (let info_refs = str_bytes (format_info_refs (collected_refs G target_branch new_commit_oid s)) in
      and_then (put_remote G ''info/refs'' info_refs s) (\<lambda>s _.
        let s = keep_local os [''info'', ''refs''] info_refs s;
            listed = (case g_list G (gs_prefix s @ ''objects/pack/'') (gs_remote s) of
                        Inr names \<Rightarrow> map (last_part (CHR ''/'')) (filter (ends_with ''.pack'') names)
                      | Inl _ \<Rightarrow> []);
            info_packs = str_bytes (format_info_packs (map (last_part (CHR ''/'')) (pack_names s) @ listed))
        in and_then (put_remote G ''objects/info/packs'' info_packs s) (\<lambda>s _.
             (keep_local os [''objects'', ''info'', ''packs''] info_packs s, Inr ()))))"

text \<open>The object of a pack and of its index, and the publication of a commit.\<close>

definition pack_file :: "string \<Rightarrow> string \<Rightarrow> string" where
  "pack_file pack_sha extension = ''pack-'' @ pack_sha @ extension"

definition write_completed_commit ::
  "os \<Rightarrow> ('g, 'w) gcs \<Rightarrow> string \<Rightarrow> string \<Rightarrow> bytes \<Rightarrow> bytes \<Rightarrow> string option \<Rightarrow>
   ('c, 'g) gcs_storage \<Rightarrow> ('c, 'g) gcs_storage \<times> unit result" where
  "write_completed_commit os G commit_oid pack_sha pack_data idx_data branch s =
     (let target_branch = (case branch of Some b \<Rightarrow> b | None \<Rightarrow> ''master'');
          commit_payload = str_bytes (commit_oid @ [CHR 0x0A]);
          head_payload = str_bytes (''ref: refs/heads/'' @ target_branch @ [CHR 0x0A])
      in
      and_then (put_remote G (''objects/pack/'' @ pack_file pack_sha ''.pack'') pack_data s) (\<lambda>s _.
      and_then (put_remote G (''objects/pack/'' @ pack_file pack_sha ''.idx'') idx_data s) (\<lambda>s _.
      let s = keep_local os [''objects'', ''pack'', pack_file pack_sha ''.idx''] idx_data
                (keep_local os [''objects'', ''pack'', pack_file pack_sha ''.pack''] pack_data s)
      in and_then (put_remote G ''HEAD'' head_payload s) (\<lambda>s _.
      let s = keep_local os [''HEAD''] head_payload s
      in and_then (put_remote G (''refs/heads/'' @ target_branch) commit_payload s) (\<lambda>s _.
      let s = keep_local os ([''refs'', ''heads''] @ split_on (CHR ''/'') target_branch) commit_payload s
      in and_then (refresh_pack_indexes G s) (\<lambda>s _. update_server_info os G target_branch commit_oid s))))))"

end
