(* ===== verification/Gcs_Read.thy ===== *)
theory Gcs_Read
  imports Gcs_Storage
begin

text \<open>
  Reading objects out of remote packs is correct: whatever the chain of deltas, across packs,
  and whatever the caches hold, \<open>read_object_raw\<close> returns the object that the packs denote
  (\<open>gcs_obj\<close>) unless the service or the local disk fails.
\<close>

section \<open>One frame in a slice\<close>

lemma place_split:
  "(off, f) \<in> set (place X k fs) \<Longrightarrow>
   \<exists>pre post. concat (map (frame_bytes X) fs) = pre @ frame_bytes X f @ post \<and> off = k + length pre"
proof (induction fs arbitrary: k)
  case (Cons h fs)
  show ?case
  proof (cases "(off, f) = (k, h)")
    case True
    then show ?thesis by (intro exI [of _ "[]"] exI [of _ "concat (map (frame_bytes X) fs)"]) simp
  next
    case False
    then obtain pre post where "concat (map (frame_bytes X) fs) = pre @ frame_bytes X f @ post"
      "off = k + length (frame_bytes X h) + length pre"
      using Cons.IH [of "k + length (frame_bytes X h)"] Cons.prems by auto
    then show ?thesis by (intro exI [of _ "frame_bytes X h @ pre"] exI [of _ post]) simp
  qed
qed simp

lemma slice_of_frame:
  assumes "(off, f) \<in> set (place X 12 fs)" "length (frame_bytes X f) \<le> n"
  shows "\<exists>rest. slice off (off + n) (pack_bytes X fs trailer) = frame_bytes X f @ rest"
proof -
  obtain pre post where p: "concat (map (frame_bytes X) fs) = pre @ frame_bytes X f @ post" "off = 12 + length pre"
    using place_split [OF assms(1)] by blast
  define hdr where "hdr = pack_magic @ to_be 4 2 @ to_be 4 (length fs) @ pre"
  have "length hdr = off" by (simp add: hdr_def p(2) pack_magic_def)
  then have "drop off (pack_bytes X fs trailer) = frame_bytes X f @ post @ trailer"
    by (simp add: pack_bytes_def p(1) hdr_def)
  then show ?thesis using assms(2) by (auto simp: slice_def)
qed

lemma slice_header_frame:
  "slice_header (object_header ty n @ rest) = Inr (ty, n, length (object_header ty n))" if "n < 2 ^ 64"
proof -
  have d: "object_header ty n @ rest = [] @ object_header ty n @ rest" by simp
  show ?thesis
    using object_header_read [OF that d] by (simp add: slice_header_def Let_def)
qed

lemma slice_ofs_frame:
  assumes "zlib_laws X" "dist \<le> off" "dist < 2 ^ 64"
  shows "slice_ofs X (hdr @ ofs_bytes dist @ x_deflate X delta @ rest) (length hdr) off = Inr (off - dist, delta)"
proof -
  let ?data = "hdr @ ofs_bytes dist @ x_deflate X delta @ rest"
  have o: "ofs_loop ?data (length hdr + 1) (?data ! length hdr) (unat (?data ! length hdr AND 0x7f)) =
      Inr (dist, length hdr + length (ofs_bytes dist))"
    by (rule ofs_bytes_read [OF assms(3) refl])
  have i: "inflate_at X ?data (length hdr + length (ofs_bytes dist)) =
      Inr (delta, length hdr + length (ofs_bytes dist) + length (x_deflate X delta))"
    using inflate_at_deflate [OF assms(1), of _ "hdr @ ofs_bytes dist"] by simp
  show ?thesis using assms(2) o i by (simp add: slice_ofs_def)
qed

lemma slice_ref_frame:
  assumes "zlib_laws X" "length sha = 20"
  shows "slice_ref X (hdr @ sha @ x_deflate X delta @ rest) (length hdr) = Inr (x_hex_encode X sha, delta)"
proof -
  have i: "inflate_at X (hdr @ sha @ x_deflate X delta @ rest) (length hdr + 20) =
      Inr (delta, length hdr + 20 + length (x_deflate X delta))"
    using inflate_at_deflate [OF assms(1), of _ "hdr @ sha"] assms(2) by simp
  have "slice (length hdr) (length hdr + 20) (hdr @ sha @ x_deflate X delta @ rest) = sha"
    using slice_mid [of hdr sha] assms(2) by simp
  then show ?thesis using i assms(2) by (simp add: slice_ref_def)
qed

lemma slice_base_frame:
  assumes "zlib_laws X" "n \<le> isize_max"
  shows "slice_base X (hdr @ x_deflate X d @ rest) ty n (length hdr) = Inr \<lparr>ro_type = ty, ro_data = d\<rparr>"
  using assms inflate_at_deflate [OF assms(1), of "length hdr" hdr d rest] by (simp add: slice_base_def)

section \<open>The objects of a set of packs\<close>

text \<open>\<open>P\<close> gives the frames of a pack by the name of its object.\<close>

inductive gcs_obj ::
  "ext \<Rightarrow> (string \<Rightarrow> pack_frame list) \<Rightarrow> pack_index list \<Rightarrow> string \<Rightarrow> nat \<Rightarrow> object_type \<Rightarrow> bytes \<Rightarrow> bool"
  for X P idxs where
  base: "(off, Base_Frame ty d) \<in> set (place X 12 (P name)) \<Longrightarrow> gcs_obj X P idxs name off ty d"
| ofs: "(off, Ofs_Frame dist delta) \<in> set (place X 12 (P name)) \<Longrightarrow> 0 < dist \<Longrightarrow>
    gcs_obj X P idxs name (off - dist) ty b \<Longrightarrow> apply_git_delta b delta = Inr d \<Longrightarrow> gcs_obj X P idxs name off ty d"
| ref: "(off, Ref_Frame sha delta) \<in> set (place X 12 (P name)) \<Longrightarrow>
    pack_match idxs sha = Some (name', off', len) \<Longrightarrow>
    gcs_obj X P idxs name' off' ty b \<Longrightarrow> apply_git_delta b delta = Inr d \<Longrightarrow> gcs_obj X P idxs name off ty d"

lemma gcs_obj_unique:
  "gcs_obj X P idxs name off ty d \<Longrightarrow> gcs_obj X P idxs name off ty' d' \<Longrightarrow> ty' = ty \<and> d' = d"
proof (induction arbitrary: ty' d' rule: gcs_obj.induct)
  case (base off ty d name)
  from base(2,1) show ?case by (cases rule: gcs_obj.cases) (auto dest: place_unique)
next
  case (ofs off dist delta name ty b d)
  from ofs.prems show ?case
  proof (cases rule: gcs_obj.cases)
    case (ofs dist1 delta1 b1)
    then have "dist1 = dist" "delta1 = delta" using \<open>(off, Ofs_Frame dist delta) \<in> _\<close> place_unique by fastforce+
    then show ?thesis using ofs \<open>apply_git_delta b delta = Inr d\<close> \<open>\<And>ty' d'. gcs_obj X P idxs name (off - dist) ty' d' \<Longrightarrow> ty' = ty \<and> d' = b\<close>
      by (metis sum.inject(2))
  qed (use \<open>(off, Ofs_Frame dist delta) \<in> _\<close> place_unique in fastforce)+
next
  case (ref off sha delta name name' off' len ty b d)
  from ref.prems show ?case
  proof (cases rule: gcs_obj.cases)
    case (ref sha1 delta1 name1 off1 len1 b1)
    then have "sha1 = sha" "delta1 = delta" using \<open>(off, Ref_Frame sha delta) \<in> _\<close> place_unique by fastforce+
    then show ?thesis using ref \<open>pack_match idxs sha = _\<close> \<open>apply_git_delta b delta = Inr d\<close>
        \<open>\<And>ty' d'. gcs_obj X P idxs name' off' ty' d' \<Longrightarrow> ty' = ty \<and> d' = b\<close>
      by (metis sum.inject(2) option.inject prod.inject)
  qed (use \<open>(off, Ref_Frame sha delta) \<in> _\<close> place_unique in fastforce)+
qed

text \<open>An index that leads to the frames of a pack, with lengths that cover them.\<close>

definition index_reads :: "ext \<Rightarrow> pack_frame list \<Rightarrow> pack_index \<Rightarrow> bool" where
  "index_reads X fs idx \<longleftrightarrow>
     (\<forall>sha off len. length sha = 20 \<longrightarrow> find_offset idx sha = Some (off, len) \<longrightarrow>
        (\<exists>f. (off, f) \<in> set (place X 12 fs) \<and> length (frame_bytes X f) \<le> len + 64)) \<and>
     (\<forall>off f off' g. (off, f) \<in> set (place X 12 fs) \<longrightarrow> (off', g) \<in> set (place X 12 fs) \<longrightarrow> off < off' \<longrightarrow>
        (\<exists>l. object_len_at idx off = Some l \<and> length (frame_bytes X f) \<le> l))"

text \<open>The packs are where the indexes say, and the caches hold nothing else.\<close>

definition packs_remote ::
  "ext \<Rightarrow> (string \<Rightarrow> pack_frame list) \<Rightarrow> (string \<Rightarrow> bytes) \<Rightarrow> ('g, 'w) gcs \<Rightarrow> pack_index list \<Rightarrow> 'g \<Rightarrow> bool" where
  "packs_remote X P D G idxs g \<longleftrightarrow>
     (\<forall>idx \<in> set idxs. index_reads X (P (pi_name idx)) idx \<and> frames_ok X (P (pi_name idx)) \<and>
        (\<exists>trailer. D (extract_filename (pi_name idx)) = pack_bytes X (P (pi_name idx)) trailer) \<and>
        g_object G g (pi_name idx) = Some (D (extract_filename (pi_name idx))))"

definition storage_ok ::
  "ext \<Rightarrow> 'c lru_blocks \<Rightarrow> (string \<Rightarrow> pack_frame list) \<Rightarrow> (string \<Rightarrow> bytes) \<Rightarrow> ('g, 'w) gcs \<Rightarrow> ('c, 'g) gcs_storage \<Rightarrow> bool" where
  "storage_ok X L P D G s \<longleftrightarrow>
     packs_remote X P D G (gs_indexes s) (gs_remote s) \<and> blocks_coherent L D (gs_blocks s) \<and>
     (\<forall>oid ob sha name off len. hm_get (gs_objects s) oid = Some ob \<longrightarrow> oid_sha X oid = Some sha \<longrightarrow>
        pack_match (gs_indexes s) sha = Some (name, off, len) \<longrightarrow>
        gcs_obj X P (gs_indexes s) name off (ro_type ob) (ro_data ob))"

text \<open>A read may fail only with the service or with the local copy of a pack.\<close>

definition read_fails :: "os \<Rightarrow> ('g, 'w) gcs \<Rightarrow> ('c, 'g) gcs_storage \<Rightarrow> error \<Rightarrow> bool" where
  "read_fails os G s e \<longleftrightarrow>
     (\<exists>n \<in> set (pack_names s). \<exists>off len. g_range G n off len (gs_remote s) = Inl e) \<or> e = E_Repo Repo_Cache \<and> (\<exists>p. \<not> os_ok os (Fs_Read p))"

definition read_outcome :: "os \<Rightarrow> ('g, 'w) gcs \<Rightarrow> ('c, 'g) gcs_storage \<Rightarrow> 'a \<Rightarrow> 'a result \<Rightarrow> bool" where
  "read_outcome os G s x r \<longleftrightarrow> (case r of Inr y \<Rightarrow> y = x | Inl e \<Rightarrow> read_fails os G s e)"

lemma read_outcome_iff:
  "read_outcome os G s x r \<longleftrightarrow> r = Inr x \<or> (\<exists>e. r = Inl e \<and> read_fails os G s e)"
  by (cases r) (auto simp: read_outcome_def)

definition same_source :: "('c, 'g) gcs_storage \<Rightarrow> ('c, 'g) gcs_storage \<Rightarrow> bool" where
  "same_source s s' \<longleftrightarrow> gs_indexes s' = gs_indexes s \<and> gs_remote s' = gs_remote s \<and> gs_prefix s' = gs_prefix s"

lemma same_source_trans: "same_source a b \<Longrightarrow> same_source b c \<Longrightarrow> same_source a c"
  by (simp add: same_source_def)

lemma same_source_fails: "same_source s s' \<Longrightarrow> read_fails os G s' e = read_fails os G s e"
  by (simp add: same_source_def read_fails_def pack_names_def)

lemma same_source_refl [simp]: "same_source s s"
  by (simp add: same_source_def)

section \<open>Reading a slice of a pack\<close>

text \<open>
  What every read relies on: the laws of the crates and of the service, and that a positional read of
  a complete local pack is never short.
\<close>

definition reader_ok :: "ext \<Rightarrow> os \<Rightarrow> 'c lru_blocks \<Rightarrow> ('g, 'w) gcs \<Rightarrow> bool" where
  "reader_ok X os L G \<longleftrightarrow> zlib_laws X \<and> hex_laws X \<and> lru_laws L \<and> gcs_read_laws G \<and> full_reads os"

lemma range_fetcher_honest:
  assumes "gcs_read_laws G" "g_object G g name = Some data"
  shows "honest_fetch (range_fetcher G name g) data"
  using assms unfolding gcs_read_laws_def honest_fetch_def range_fetcher_def by (metis option.inject)

lemma read_slice_frame:
  assumes R: "reader_ok X os L G" and s: "storage_ok X L P D G s" and idx: "name \<in> pi_name ` set (gs_indexes s)"
    and f: "(off, f) \<in> set (place X 12 (P name))" and len: "length (frame_bytes X f) \<le> n"
    and run: "read_pack_slice os L pid G name off n s = (s', r)"
  shows "storage_ok X L P D G s' \<and> same_source s s' \<and>
    (case r of Inr d \<Rightarrow> \<exists>rest. d = frame_bytes X f @ rest | Inl e \<Rightarrow> read_fails os G s e)"
proof -
  obtain idx where i: "idx \<in> set (gs_indexes s)" "pi_name idx = name" using idx by blast
  obtain trailer where D: "D (extract_filename name) = pack_bytes X (P name) trailer"
      "g_object G (gs_remote s) name = Some (D (extract_filename name))"
    using s i unfolding storage_ok_def packs_remote_def by blast
  obtain b where b: "block_read_range os L pid name off n (range_fetcher G name (gs_remote s)) (gs_blocks s) = (b, r)"
      "s' = s\<lparr>gs_blocks := b\<rparr>"
    using run by (auto simp: read_pack_slice_def split: prod.splits)
  have h: "honest_fetch (range_fetcher G name (gs_remote s)) (D (extract_filename name))"
    using R D(2) by (intro range_fetcher_honest) (simp_all add: reader_ok_def)
  have L: "lru_laws L" "blocks_coherent L D (gs_blocks s)" using R s by (simp_all add: reader_ok_def storage_ok_def)
  note rd = block_range [OF L h b(1)]
  have "storage_ok X L P D G s'" "same_source s s'"
    using s rd by (simp_all add: storage_ok_def b(2) same_source_def)
  moreover have "case r of Inr d \<Rightarrow> \<exists>rest. d = frame_bytes X f @ rest | Inl e \<Rightarrow> read_fails os G s e"
  proof (cases r)
    case (Inl e)
    moreover have "name \<in> set (pack_names s)" using idx by (simp add: pack_names_def)
    ultimately show ?thesis
      using rd by (auto simp: range_result_def fetch_fails_def range_fetcher_def read_fails_def)
  next
    case (Inr d)
    moreover have "os_short os q = None" for q using R by (simp add: reader_ok_def full_reads_def)
    ultimately have "d = slice off (off + n) (D (extract_filename name))" using rd by (simp add: range_result_def)
    then show ?thesis using slice_of_frame [OF f len, of trailer] Inr D(1) by simp
  qed
  ultimately show ?thesis by simp
qed

text \<open>The length of the base of an offset delta comes from the index.\<close>

lemma pack_object_len_covers:
  assumes "\<forall>idx \<in> set idxs. index_reads X (P (pi_name idx)) idx" "name \<in> pi_name ` set idxs"
    and "(off, f) \<in> set (place X 12 (P name))" "(off', g) \<in> set (place X 12 (P name))" "off < off'"
  shows "\<exists>l. pack_object_len idxs name off = Some l \<and> length (frame_bytes X f) \<le> l"
  using assms(1,2)
proof (induction idxs)
  case (Cons idx idxs)
  show ?case
  proof (cases "pi_name idx = name")
    case True
    have "index_reads X (P name) idx" using Cons.prems(1) True by auto
    then show ?thesis using True assms(3-5) unfolding index_reads_def by simp blast
  next
    case False
    then show ?thesis using Cons by auto
  qed
qed simp

lemma pack_match_name: "pack_match idxs sha = Some (name, off, len) \<Longrightarrow> name \<in> pi_name ` set idxs"
  by (induction idxs) (auto split: option.splits)

lemma pack_match_covers:
  assumes "\<forall>idx \<in> set idxs. index_reads X (P (pi_name idx)) idx" "pack_match idxs sha = Some (name, off, len)" "length sha = 20"
  shows "name \<in> pi_name ` set idxs \<and>
    (\<exists>f. (off, f) \<in> set (place X 12 (P name)) \<and> length (frame_bytes X f) \<le> len + 64)"
  using assms(1,2)
proof (induction idxs)
  case (Cons idx idxs)
  show ?case
  proof (cases "find_offset idx sha")
    case None
    then show ?thesis using Cons by auto
  next
    case (Some p)
    then have "pi_name idx = name" "find_offset idx sha = Some (off, len)" using Cons.prems(2) by (auto split: prod.splits)
    then show ?thesis using Cons.prems(1) assms(3) by (auto simp: index_reads_def)
  qed
qed simp

section \<open>Reading objects\<close>

text \<open>What \<open>read_pack_object\<close> does from fuel \<open>n\<close> on, for the object \<open>ob\<close> at \<open>off\<close>.\<close>

definition reads_to ::
  "ext \<Rightarrow> os \<Rightarrow> 'c lru_blocks \<Rightarrow> nat \<Rightarrow> (string \<Rightarrow> pack_frame list) \<Rightarrow> (string \<Rightarrow> bytes) \<Rightarrow> ('g, 'w) gcs \<Rightarrow>
   ('c, 'g) gcs_storage \<Rightarrow> git_raw_object \<Rightarrow>
   (('c, 'g) gcs_storage \<times> git_raw_object result) option \<Rightarrow> bool" where
  "reads_to X os L pid P D G s ob res \<longleftrightarrow>
     (\<exists>s' r. res = Some (s', r) \<and> storage_ok X L P D G s' \<and> same_source s s' \<and>
        read_outcome os G s ob r)"

lemma reads_to_source:
  assumes "reads_to X os L pid P D G s' ob res" "same_source s s'"
  shows "reads_to X os L pid P D G s ob res"
  using assms same_source_trans [OF assms(2)] unfolding reads_to_def read_outcome_iff same_source_fails [OF assms(2)]
  by blast

lemma reads_to_then:
  assumes "reads_to X os L pid P D G s ob res" "same_source s0 s"
    and "\<And>s'. storage_ok X L P D G s' \<Longrightarrow> same_source s s' \<Longrightarrow> reads_to X os L pid P D G s' ob' (f s' ob)"
  shows "reads_to X os L pid P D G s0 ob' (fuel_then res f)"
proof -
  obtain s' r where r: "res = Some (s', r)" "storage_ok X L P D G s'" "same_source s s'"
      "read_outcome os G s ob r"
    using assms(1) by (auto simp: reads_to_def)
  have src: "same_source s0 s'" by (rule same_source_trans [OF assms(2) r(3)])
  note fails = same_source_fails [OF assms(2)] same_source_fails [OF src]
  show ?thesis
  proof (cases r)
    case (Inl e)
    then show ?thesis using r src fails by (auto simp: reads_to_def read_outcome_def)
  next
    case (Inr y)
    then have "reads_to X os L pid P D G s' ob' (f s' ob)" using assms(3) r by blast
    then have "reads_to X os L pid P D G s0 ob' (f s' ob)"
      by (rule reads_to_source [OF _ src])
    then show ?thesis using r Inr by (simp add: read_outcome_def)
  qed
qed

lemma read_object_with_reads:
  assumes s: "storage_ok X L P D G s" and sha: "oid_sha X oid = Some sha"
    and m: "pack_match (gs_indexes s) sha = Some (name, off, len)"
    and ob: "gcs_obj X P (gs_indexes s) name off ty d"
    and rd: "reads_to X os L pid P D G s \<lparr>ro_type = ty, ro_data = d\<rparr> (rd name off len s)"
  shows "reads_to X os L pid P D G s \<lparr>ro_type = ty, ro_data = d\<rparr> (read_object_with X G rd oid s)"
proof (cases "hm_get (gs_objects s) oid")
  case (Some c)
  then have "gcs_obj X P (gs_indexes s) name off (ro_type c) (ro_data c)"
    using s sha m unfolding storage_ok_def by blast
  then have "c = \<lparr>ro_type = ty, ro_data = d\<rparr>" using gcs_obj_unique [OF ob] by (cases c) auto
  then show ?thesis using s Some by (simp add: read_object_with_def reads_to_def read_outcome_def)
next
  case None
  let ?ob = "\<lparr>ro_type = ty, ro_data = d\<rparr>"
  have "reads_to X os L pid P D G s ?ob (fuel_then (rd name off len s)
      (\<lambda>s obj. Some (s\<lparr>gs_objects := hm_put oid obj (gs_objects s)\<rparr>, Inr obj)))"
  proof (rule reads_to_then [OF rd same_source_refl])
    fix s' assume s': "storage_ok X L P D G s'" "same_source s s'"
    have "storage_ok X L P D G (s'\<lparr>gs_objects := hm_put oid ?ob (gs_objects s')\<rparr>)"
      using s' sha m ob unfolding storage_ok_def same_source_def by (auto split: if_splits)
    moreover have "same_source s' (s'\<lparr>gs_objects := hm_put oid ?ob (gs_objects s')\<rparr>)"
      by (simp add: same_source_def)
    ultimately show "reads_to X os L pid P D G s' ?ob
        (Some (s'\<lparr>gs_objects := hm_put oid ?ob (gs_objects s')\<rparr>, Inr ?ob))"
      by (simp add: reads_to_def read_outcome_def)
  qed
  then show ?thesis using None sha m by (simp add: read_object_with_def)
qed

text \<open>From some fuel on, the object is read, from every good state.\<close>

definition object_read ::
  "ext \<Rightarrow> os \<Rightarrow> 'c lru_blocks \<Rightarrow> nat \<Rightarrow> (string \<Rightarrow> pack_frame list) \<Rightarrow> (string \<Rightarrow> bytes) \<Rightarrow> ('g, 'w) gcs \<Rightarrow>
   pack_index list \<Rightarrow> string \<Rightarrow> nat \<Rightarrow> git_raw_object \<Rightarrow> nat \<Rightarrow> bool" where
  "object_read X os L pid P D G idxs name off ob n \<longleftrightarrow>
     (\<forall>fuel \<ge> n. \<forall>s est. storage_ok X L P D G s \<longrightarrow> gs_indexes s = idxs \<longrightarrow>
        (\<exists>f. (off, f) \<in> set (place X 12 (P name)) \<and> length (frame_bytes X f) \<le> est + 64) \<longrightarrow>
        reads_to X os L pid P D G s ob (read_pack_object X os L pid G fuel name off est s))"

text \<open>One step: after the slice, what remains is decided by the frame.\<close>

lemma read_step:
  assumes R: "reader_ok X os L G" and s: "storage_ok X L P D G s" and name: "name \<in> pi_name ` set (gs_indexes s)"
    and f: "(off, f) \<in> set (place X 12 (P name))" "length (frame_bytes X f) \<le> est + 64"
    and rest: "\<And>s' rest. storage_ok X L P D G s' \<Longrightarrow> same_source s s' \<Longrightarrow>
      reads_to X os L pid P D G s' ob (k s' (frame_bytes X f @ rest))"
  shows "reads_to X os L pid P D G s ob
    (fuel_then (Some (read_pack_slice os L pid G name off (max (est + 64) 4096) s)) k)"
proof -
  obtain s' r where r: "read_pack_slice os L pid G name off (max (est + 64) 4096) s = (s', r)"
    by (cases "read_pack_slice os L pid G name off (max (est + 64) 4096) s")
  have n: "length (frame_bytes X f) \<le> max (est + 64) 4096" using f(2) by simp
  note sl = read_slice_frame [OF R s name f(1) n r]
  show ?thesis
  proof (cases r)
    case (Inl e)
    then show ?thesis using sl by (simp add: r reads_to_def read_outcome_def)
  next
    case (Inr d)
    then obtain t where t: "d = frame_bytes X f @ t" using sl by auto
    have src: "same_source s s'" using sl by simp
    have "reads_to X os L pid P D G s' ob (k s' d)" unfolding t using rest sl by blast
    then have "reads_to X os L pid P D G s ob (k s' d)" by (rule reads_to_source [OF _ src])
    then show ?thesis by (simp add: r Inr)
  qed
qed

lemma frame_ok_at: "frames_ok X fs \<Longrightarrow> (off, f) \<in> set (place X 12 fs) \<Longrightarrow> frame_ok off f"
  by (auto simp: frames_ok_def list_all_iff)

lemma gcs_obj_placed: "gcs_obj X P idxs name off ty d \<Longrightarrow> \<exists>f. (off, f) \<in> set (place X 12 (P name))"
  by (cases rule: gcs_obj.cases) auto

lemma resolve_on_reads:
  assumes "storage_ok X L P D G s" "apply_git_delta b delta = Inr d"
  shows "reads_to X os L pid P D G s \<lparr>ro_type = ty, ro_data = d\<rparr>
    (Some (s, resolve_on delta \<lparr>ro_type = ty, ro_data = b\<rparr>))"
  using assms by (simp add: reads_to_def resolve_on_def read_outcome_def)

lemma from_base_frame:
  assumes Z: "zlib_laws X" and ok: "frame_ok off (Base_Frame ty d)"
  shows "read_from_slice X G rd name off s (frame_bytes X (Base_Frame ty d) @ rest) =
    Some (s, Inr \<lparr>ro_type = ty, ro_data = d\<rparr>)"
proof -
  define hdr where "hdr = object_header ty (length d)"
  have "length d < 2 ^ 64" "length d \<le> isize_max" using ok by (auto simp: isize_max_def)
  then have "slice_header (hdr @ x_deflate X d @ rest) = Inr (ty, length d, length hdr)"
    "slice_base X (hdr @ x_deflate X d @ rest) ty (length d) (length hdr) = Inr \<lparr>ro_type = ty, ro_data = d\<rparr>"
    by (simp_all add: hdr_def slice_header_frame slice_base_frame [OF Z])
  then show ?thesis using ok by (auto simp: read_from_slice_def hdr_def [symmetric])
qed

lemma from_ofs_frame:
  assumes Z: "zlib_laws X" and ok: "frame_ok off (Ofs_Frame dist delta)"
  shows "read_from_slice X G rd name off s (frame_bytes X (Ofs_Frame dist delta) @ rest) =
    fuel_then (rd name (off - dist)
        (case get_pack_object_len s name (off - dist) of Some l \<Rightarrow> l | None \<Rightarrow> length delta) s)
      (\<lambda>s base_obj. Some (s, resolve_on delta base_obj))"
proof -
  define hdr where "hdr = object_header Ofs_Delta (length delta)"
  have "slice_header (hdr @ ofs_bytes dist @ x_deflate X delta @ rest) = Inr (Ofs_Delta, length delta, length hdr)"
    "slice_ofs X (hdr @ ofs_bytes dist @ x_deflate X delta @ rest) (length hdr) off = Inr (off - dist, delta)"
    using ok by (simp_all add: hdr_def slice_header_frame slice_ofs_frame [OF Z])
  then show ?thesis by (simp add: read_from_slice_def hdr_def [symmetric])
qed

lemma from_ref_frame:
  assumes Z: "zlib_laws X" and ok: "frame_ok off (Ref_Frame sha delta)"
  shows "read_from_slice X G rd name off s (frame_bytes X (Ref_Frame sha delta) @ rest) =
    fuel_then (read_object_with X G rd (x_hex_encode X sha) s) (\<lambda>s base_obj. Some (s, resolve_on delta base_obj))"
proof -
  define hdr where "hdr = object_header Ref_Delta (length delta)"
  have "slice_header (hdr @ sha @ x_deflate X delta @ rest) = Inr (Ref_Delta, length delta, length hdr)"
    "slice_ref X (hdr @ sha @ x_deflate X delta @ rest) (length hdr) = Inr (x_hex_encode X sha, delta)"
    using ok by (simp_all add: hdr_def slice_header_frame slice_ref_frame [OF Z])
  then show ?thesis by (simp add: read_from_slice_def hdr_def [symmetric])
qed

lemma frame_ok_stored:
  assumes "storage_ok X L P D G s" "name \<in> pi_name ` set (gs_indexes s)" "(off, f) \<in> set (place X 12 (P name))"
  shows "frame_ok off f"
  using assms frame_ok_at unfolding storage_ok_def packs_remote_def by blast

text \<open>A step at the placed frame, with fuel for its base.\<close>

lemma object_read_Suc:
  assumes R: "reader_ok X os L G" and name: "name \<in> pi_name ` set idxs" and f: "(off, f) \<in> set (place X 12 (P name))"
    and step: "\<And>m s rest. n \<le> m \<Longrightarrow> storage_ok X L P D G s \<Longrightarrow> gs_indexes s = idxs \<Longrightarrow> frame_ok off f \<Longrightarrow>
      reads_to X os L pid P D G s ob
        (read_from_slice X G (read_pack_object X os L pid G m) name off s (frame_bytes X f @ rest))"
  shows "object_read X os L pid P D G idxs name off ob (Suc n)"
  unfolding object_read_def
proof (intro allI impI, elim exE conjE)
  fix fuel s est g
  assume fu: "Suc n \<le> fuel" and s: "storage_ok X L P D G s" "gs_indexes s = idxs"
    and g: "(off, g) \<in> set (place X 12 (P name))" "length (frame_bytes X g) \<le> est + 64"
  obtain m where m: "fuel = Suc m" "n \<le> m" using fu by (cases fuel) auto
  have gf: "g = f" using g(1) f by (rule place_unique)
  have nm: "name \<in> pi_name ` set (gs_indexes s)" using name s(2) by simp
  have fk: "frame_ok off f" by (rule frame_ok_stored [OF s(1) nm f])
  show "reads_to X os L pid P D G s ob (read_pack_object X os L pid G fuel name off est s)"
    unfolding m(1) read_pack_object.simps
    by (rule read_step [OF R s(1) nm f g(2) [unfolded gf]])
      (rule step [OF m(2) _ _ fk], simp_all add: same_source_def s(2))
qed

lemma gcs_object_read:
  fixes L :: "'c lru_blocks" and G :: "('g, 'w) gcs"
  assumes R: "reader_ok X os L G"
  shows "gcs_obj X P idxs name off ty d \<Longrightarrow> name \<in> pi_name ` set idxs \<Longrightarrow>
    \<exists>n. object_read X os L pid P D G idxs name off \<lparr>ro_type = ty, ro_data = d\<rparr> n"
proof (induction rule: gcs_obj.induct)
  have Z: "zlib_laws X" "hex_laws X" using R by (simp_all add: reader_ok_def)
  {
    case (base off ty d name)
    have "object_read X os L pid P D G idxs name off \<lparr>ro_type = ty, ro_data = d\<rparr> (Suc 0)"
      by (rule object_read_Suc [where P = P and name = name, OF R base(2,1)])
        (simp add: from_base_frame [OF Z(1)] reads_to_def read_outcome_def del: frame_bytes.simps)
    then show ?case by blast
  next
    case (ofs off dist delta name ty b d)
    obtain n where n: "object_read X os L pid P D G idxs name (off - dist) \<lparr>ro_type = ty, ro_data = b\<rparr> n"
      using ofs by blast
    obtain g where g: "(off - dist, g) \<in> set (place X 12 (P name))" using gcs_obj_placed [OF ofs(3)] by blast
    have "object_read X os L pid P D G idxs name off \<lparr>ro_type = ty, ro_data = d\<rparr> (Suc n)"
    proof (rule object_read_Suc [where P = P and name = name, OF R ofs.prems ofs(1)])
      fix m and s :: "('c, 'g) gcs_storage" and rest
      assume m: "n \<le> m" and s: "storage_ok X L P D G s" "gs_indexes s = idxs" and fk: "frame_ok off (Ofs_Frame dist delta)"
      have ix: "\<forall>idx \<in> set idxs. index_reads X (P (pi_name idx)) idx"
        using s unfolding storage_ok_def packs_remote_def by blast
      have "off - dist < off" using fk ofs(2) by simp
      then obtain l where l: "get_pack_object_len s name (off - dist) = Some l" "length (frame_bytes X g) \<le> l"
        using pack_object_len_covers [OF ix ofs.prems g ofs(1)] s(2) by (auto simp: get_pack_object_len_def)
      have "length (frame_bytes X g) \<le> l + 64" using l(2) by simp
      then have "reads_to X os L pid P D G s \<lparr>ro_type = ty, ro_data = b\<rparr> (read_pack_object X os L pid G m name (off - dist) l s)"
        using n m s g unfolding object_read_def by blast
      then show "reads_to X os L pid P D G s \<lparr>ro_type = ty, ro_data = d\<rparr>
          (read_from_slice X G (read_pack_object X os L pid G m) name off s (frame_bytes X (Ofs_Frame dist delta) @ rest))"
        unfolding from_ofs_frame [OF Z(1) fk] l(1) option.case
        by (rule reads_to_then [OF _ same_source_refl]) (rule resolve_on_reads [OF _ ofs(4)])
    qed
    then show ?case by blast
  next
    case (ref off sha delta name name' off' len ty b d)
    have nm: "name' \<in> pi_name ` set idxs" using ref(2) by (rule pack_match_name)
    obtain n where n: "object_read X os L pid P D G idxs name' off' \<lparr>ro_type = ty, ro_data = b\<rparr> n"
      using ref.IH [OF nm] by blast
    have "object_read X os L pid P D G idxs name off \<lparr>ro_type = ty, ro_data = d\<rparr> (Suc n)"
    proof (rule object_read_Suc [where P = P and name = name, OF R ref.prems ref(1)])
      fix m and s :: "('c, 'g) gcs_storage" and rest
      assume m: "n \<le> m" and s: "storage_ok X L P D G s" "gs_indexes s = idxs" and fk: "frame_ok off (Ref_Frame sha delta)"
      have ix: "\<forall>idx \<in> set idxs. index_reads X (P (pi_name idx)) idx"
        using s unfolding storage_ok_def packs_remote_def by blast
      obtain g where "(off', g) \<in> set (place X 12 (P name'))" "length (frame_bytes X g) \<le> len + 64"
        using pack_match_covers [OF ix ref(2)] fk by auto
      then have "reads_to X os L pid P D G s \<lparr>ro_type = ty, ro_data = b\<rparr> (read_pack_object X os L pid G m name' off' len s)"
        using n m s unfolding object_read_def by blast
      moreover have "oid_sha X (x_hex_encode X sha) = Some sha" using fk Z(2) by (simp add: oid_sha_def)
      ultimately have "reads_to X os L pid P D G s \<lparr>ro_type = ty, ro_data = b\<rparr>
          (read_object_with X G (read_pack_object X os L pid G m) (x_hex_encode X sha) s)"
        using s ref(2,3) by (intro read_object_with_reads) simp_all
      then show "reads_to X os L pid P D G s \<lparr>ro_type = ty, ro_data = d\<rparr>
          (read_from_slice X G (read_pack_object X os L pid G m) name off s (frame_bytes X (Ref_Frame sha delta) @ rest))"
        unfolding from_ref_frame [OF Z(1) fk]
        by (rule reads_to_then [OF _ same_source_refl]) (rule resolve_on_reads [OF _ ref(4)])
    qed
    then show ?case by blast
  }
qed

section \<open>Indexes of packs\<close>

lemma place_next:
  "(off, f) \<in> set (place X k fs) \<Longrightarrow> (off', g) \<in> set (place X k fs) \<Longrightarrow> off < off' \<Longrightarrow>
   off + length (frame_bytes X f) \<le> off'"
proof (induction fs arbitrary: k)
  case (Cons h fs)
  then show ?case using place_lower [of off' g X "k + length (frame_bytes X h)" fs]
      place_lower [of off f X "k + length (frame_bytes X h)" fs] by auto
qed simp

lemma len_to_next_place:
  assumes offs: "set offs = fst ` set (place X 12 fs)" and f: "(off, f) \<in> set (place X 12 fs)"
  shows "case len_to_next offs off of
      Some l \<Rightarrow> length (frame_bytes X f) \<le> l | None \<Rightarrow> \<forall>off' \<in> set offs. off' \<le> off"
proof (cases "filter (\<lambda>x. off < x) offs = []")
  case True
  then show ?thesis by (auto simp: len_to_next_def filter_empty_conv)
next
  case False
  let ?later = "filter (\<lambda>x. off < x) offs"
  have "Min (set ?later) \<in> set ?later" using False by (intro Min_in) (simp, simp only: set_empty not_False_eq_True)
  then obtain g where "(Min (set ?later), g) \<in> set (place X 12 fs)" "off < Min (set ?later)"
    using offs by force
  then have "off + length (frame_bytes X f) \<le> Min (set ?later)" using place_next f by blast
  then show ?thesis using False by (simp add: len_to_next_def Let_def)
qed

text \<open>The index of a pack reads it when its last frame is no longer than the estimate.\<close>

lemma index_of_reads:
  assumes shas: "sorted shas" "list_all (\<lambda>s. length s = 20) shas" "length offs = length shas"
    and offs: "set offs = fst ` set (place X 12 fs)"
    and fin: "\<forall>(off, f) \<in> set (place X 12 fs). (\<forall>off' \<in> set offs. off' \<le> off) \<longrightarrow> length (frame_bytes X f) \<le> 65600"
  shows "index_reads X fs (index_of name shas offs psha)"
  unfolding index_reads_def
proof (intro conjI allI impI)
  fix sha off len
  assume l: "length sha = 20" and fo: "find_offset (index_of name shas offs psha) sha = Some (off, len)"
  note F = find_offset_index [OF shas(1,2) l shas(3), where name = name and psha = psha]
  have "sha \<in> set shas" using F(1) fo by auto
  then obtain i where i: "i < length shas" "find_offset (index_of name shas offs psha) sha =
      Some (offs ! i, case object_len_at (index_of name shas offs psha) (offs ! i) of Some l \<Rightarrow> l | None \<Rightarrow> 65536)"
    using F(2) by blast
  have oi: "off = offs ! i" "off \<in> set offs" using i fo shas(3) by simp_all
  then obtain f where f: "(off, f) \<in> set (place X 12 fs)" using offs by force
  have "len = (case len_to_next offs off of Some l \<Rightarrow> l | None \<Rightarrow> 65536)"
    using i fo oi object_len_next [OF oi(2)] by simp
  then have "length (frame_bytes X f) \<le> len + 64"
    using len_to_next_place [OF offs f] fin f by (auto split: option.splits)
  then show "\<exists>f. (off, f) \<in> set (place X 12 fs) \<and> length (frame_bytes X f) \<le> len + 64" using f by blast
next
  fix off f off' g
  assume f: "(off, f) \<in> set (place X 12 fs)" and g: "(off', g) \<in> set (place X 12 fs)" and lt: "off < off'"
  have oo: "off \<in> set offs" "off' \<in> set offs" using offs f g by force+
  then show "\<exists>l. object_len_at (index_of name shas offs psha) off = Some l \<and> length (frame_bytes X f) \<le> l"
    using len_to_next_place [OF offs f] lt object_len_next [OF oo(1)] by (auto split: option.splits)
qed

section \<open>The property\<close>

text \<open>
  C20: an object that the packs of the bucket denote is read back exactly, through any chain of
  offset and reference deltas, within and across packs: from some fuel on \<open>read_object_raw\<close> returns
  it, unless the service or the local disk fails, and the caches stay coherent. The frames must be as long as
  the indexes say; for the last object of a pack that is an estimate, so this one takes at most 65600 bytes
  (beyond that see C21).
\<close>

theorem remote_object_read:
  assumes "reader_ok X os L G" "storage_ok X L P D G s" "oid_sha X oid = Some sha"
    and "pack_match (gs_indexes s) sha = Some (name, off, len)" "gcs_obj X P (gs_indexes s) name off ty d"
  shows "\<exists>n. \<forall>fuel \<ge> n. \<exists>s' r. read_object_raw X os L pid G fuel oid s = Some (s', r) \<and>
    storage_ok X L P D G s' \<and>
    (r = Inr \<lparr>ro_type = ty, ro_data = d\<rparr> \<or> (\<exists>e. r = Inl e \<and> read_fails os G s e))"
proof -
  have nm: "name \<in> pi_name ` set (gs_indexes s)" using assms(4) by (rule pack_match_name)
  have ix: "\<forall>idx \<in> set (gs_indexes s). index_reads X (P (pi_name idx)) idx"
    using assms(2) unfolding storage_ok_def packs_remote_def by blast
  have "length sha = 20" using assms(3) by (auto simp: oid_sha_def split: option.splits if_splits)
  note cov = pack_match_covers [OF ix assms(4) this]
  obtain n where n: "object_read X os L pid P D G (gs_indexes s) name off \<lparr>ro_type = ty, ro_data = d\<rparr> n"
    using gcs_object_read [OF assms(1,5) nm] by blast
  have "reads_to X os L pid P D G s \<lparr>ro_type = ty, ro_data = d\<rparr> (read_object_raw X os L pid G fuel oid s)"
    if "n \<le> fuel" for fuel
  proof -
    have "reads_to X os L pid P D G s \<lparr>ro_type = ty, ro_data = d\<rparr> (read_pack_object X os L pid G fuel name off len s)"
      using n that assms(2) cov unfolding object_read_def by blast
    then show ?thesis unfolding read_object_raw_def by (rule read_object_with_reads [OF assms(2-5)])
  qed
  then show ?thesis
    unfolding reads_to_def read_outcome_iff by blast
qed

text \<open>The two objects of the demo pack, the second one a delta against the first.\<close>

definition demo_index :: pack_index where
  "demo_index = index_of ''r/pack-1.pack'' demo_shas [12, 18] (replicate 20 7)"

definition demo_pack_bytes :: bytes where
  "demo_pack_bytes = pack_bytes demo_ext demo_frames [1, 2]"

definition demo_storage :: "((string \<times> nat, bytes) demo_cache, bucket) gcs_storage" where
  "demo_storage = \<lparr>gs_prefix = ''r/'', gs_blocks = block_cache_new demo_lru 4 [], gs_indexes = [demo_index],
     gs_objects = [], gs_remote = [(''r/pack-1.pack'', demo_pack_bytes)]\<rparr>"

lemma demo_index_reads: "index_reads demo_ext demo_frames demo_index"
  unfolding demo_index_def
proof (rule index_of_reads [OF demo_shas_sorted(1)])
  show "list_all (\<lambda>s. length s = 20) demo_shas" "length [12, 18] = length demo_shas"
    by (simp_all add: demo_shas_def)
  show "set [12, 18] = fst ` set (place demo_ext 12 demo_frames)" by (simp add: demo_place)
  show "\<forall>(off, f) \<in> set (place demo_ext 12 demo_frames).
      (\<forall>off' \<in> set [12, 18]. off' \<le> off) \<longrightarrow> length (frame_bytes demo_ext f) \<le> 65600"
    unfolding demo_place
    by (simp add: demo_delta_eq object_header_def size_bytes.simps ofs_bytes_def demo_ext_def demo_deflate_def)
qed

lemma demo_gcs_obj: "gcs_obj demo_ext (\<lambda>_. demo_frames) [demo_index] name 18 Blob_Type [7, 8, 9]"
proof (rule gcs_obj.ofs [of _ 6 demo_delta])
  show "gcs_obj demo_ext (\<lambda>_. demo_frames) [demo_index] name (18 - 6) Blob_Type [7, 8]"
    by (rule gcs_obj.base) (simp add: demo_place)
qed (simp_all add: demo_place demo_delta_applies)

lemma demo_storage_ok:
  "storage_ok demo_ext demo_lru (\<lambda>_. demo_frames) (\<lambda>_. demo_pack_bytes) demo_gcs demo_storage"
proof -
  have "blocks_coherent demo_lru (\<lambda>_. demo_pack_bytes) (block_cache_new demo_lru 4 [])"
    by (simp add: blocks_coherent_def block_cache_new_def demo_lru_def demo_view_of_def)
  then show ?thesis
    using demo_index_reads demo_frames_ok
    by (auto simp: storage_ok_def demo_storage_def packs_remote_def demo_pack_bytes_def demo_gcs_def demo_index_def
        index_of_def)
qed

theorem remote_object_read_witness:
  "\<exists>fuel s'. read_object_raw demo_ext os_fine demo_lru 1 demo_gcs fuel
     (x_hex_encode demo_ext (replicate 20 2)) demo_storage = Some (s', Inr \<lparr>ro_type = Blob_Type, ro_data = [7, 8, 9]\<rparr>)"
proof -
  have i: "idx_image_ok demo_shas [1, 2] [12, 18] (replicate 20 7) (replicate 20 8)"
    by (simp add: idx_image_ok_def demo_shas_def)
  have "find_offset demo_index (replicate 20 2) = Some (18, 65536)"
    using index_finds [OF i demo_shas_sorted(1,2), of 1 "''r/pack-1.pack''"]
    by (simp add: demo_index_def demo_shas_def len_to_next_def)
  then have m: "pack_match (gs_indexes demo_storage) (replicate 20 2) = Some (''r/pack-1.pack'', 18, 65536)"
    by (simp add: demo_storage_def) (simp add: demo_index_def index_of_def)
  have R: "reader_ok demo_ext os_fine demo_lru demo_gcs" by (simp add: reader_ok_def)
  have sha: "oid_sha demo_ext (x_hex_encode demo_ext (replicate 20 2)) = Some (replicate 20 2)"
    by (simp add: oid_sha_def)
  have ob: "gcs_obj demo_ext (\<lambda>_. demo_frames) (gs_indexes demo_storage) ''r/pack-1.pack'' 18 Blob_Type [7, 8, 9]"
    using demo_gcs_obj by (simp add: demo_storage_def)
  have "\<not> read_fails os_fine demo_gcs demo_storage e" for e
    by (simp add: read_fails_def os_fine_def pack_names_def demo_storage_def demo_gcs_def bucket_read_def
        demo_index_def index_of_def)
  then show ?thesis
    using remote_object_read [OF R demo_storage_ok sha m ob, where pid = 1] by blast
qed

end
