(* ===== verification/Gcs_Commit.thy ===== *)
theory Gcs_Commit
  imports Gcs_Read
begin

text \<open>
  The publication of a commit in the bucket: what is remote after \<open>write_completed_commit\<close>,
  however far it came, and an object that the storage writes and cannot read back.
\<close>

section \<open>Publication\<close>

lemma put_remote_spec:
  assumes W: "gcs_write_laws G" and run: "put_remote G name data s = (s', r)"
  shows "gs_prefix s' = gs_prefix s" "gs_indexes s' = gs_indexes s" "only_object G (gs_prefix s @ name) (gs_remote s) (gs_remote s')"
    "r = Inr () \<Longrightarrow> g_object G (gs_remote s') (gs_prefix s @ name) = Some data"
proof -
  obtain g where g: "write_rapid_object G (gs_prefix s @ name) data (gs_remote s) = (g, r)" "s' = s\<lparr>gs_remote := g\<rparr>"
    using run by (auto simp: put_remote_def split: prod.splits)
  show "gs_prefix s' = gs_prefix s" "gs_indexes s' = gs_indexes s" "only_object G (gs_prefix s @ name) (gs_remote s) (gs_remote s')"
    "r = Inr () \<Longrightarrow> g_object G (gs_remote s') (gs_prefix s @ name) = Some data"
    using write_rapid_object_spec [OF W g(1)] g(2) by simp_all
qed

text \<open>The content of an object of the repository.\<close>

definition remote_file :: "('g, 'w) gcs \<Rightarrow> ('c, 'g) gcs_storage \<Rightarrow> string \<Rightarrow> bytes option" where
  "remote_file G s name = g_object G (gs_remote s) (gs_prefix s @ name)"

lemma put_remote_file:
  assumes "gcs_write_laws G"
  shows "m \<noteq> name \<Longrightarrow> remote_file G (fst (put_remote G name data s)) m = remote_file G s m"
    "put_remote G name data s = (s', Inr u) \<Longrightarrow> remote_file G s' name = Some data"
proof -
  obtain t r where t: "put_remote G name data s = (t, r)" by (cases "put_remote G name data s")
  note P = put_remote_spec [OF assms t]
  show "m \<noteq> name \<Longrightarrow> remote_file G (fst (put_remote G name data s)) m = remote_file G s m"
    using P(1,3) t by (simp add: remote_file_def only_object_def)
  show "put_remote G name data s = (s', Inr u) \<Longrightarrow> remote_file G s' name = Some data"
    using P(1,4) t by (simp add: remote_file_def)
qed

lemma keep_local_file [simp]: "remote_file G (keep_local os p data s) m = remote_file G s m"
  by (simp add: remote_file_def keep_local_def)

lemma refresh_file [simp]: "remote_file G (fst (refresh_pack_indexes G s)) m = remote_file G s m"
  by (simp add: refresh_pack_indexes_def remote_file_def split: sum.split)

text \<open>A run of steps that leave a file alone leaves it alone, wherever it stops.\<close>

lemma then_keeps_file:
  assumes "remote_file G (fst a) m = c" "\<And>t x. a = (t, Inr x) \<Longrightarrow> remote_file G t m = c \<Longrightarrow> remote_file G (fst (f t x)) m = c"
  shows "remote_file G (fst (and_then a f)) m = c"
  using assms by (rule fst_and_then [where P = "\<lambda>t. remote_file G t m = c"])

lemma server_info_file:
  assumes "gcs_write_laws G" "m \<noteq> ''info/refs''" "m \<noteq> ''objects/info/packs''"
  shows "remote_file G (fst (update_server_info os G b c s)) m = remote_file G s m"
  unfolding update_server_info_def Let_def
  by (intro then_keeps_file) (simp_all add: put_remote_file(1) [OF assms(1)] assms(2,3))

text \<open>The last part of \<open>write_completed_commit\<close>: from HEAD on.\<close>

definition publish_refs ::
  "os \<Rightarrow> ('g, 'w) gcs \<Rightarrow> string \<Rightarrow> string \<Rightarrow> ('c, 'g) gcs_storage \<Rightarrow> ('c, 'g) gcs_storage \<times> unit result" where
  "publish_refs os G b commit_oid s =
     and_then (put_remote G ''HEAD'' (str_bytes (''ref: refs/heads/'' @ b @ [CHR 0x0A])) s) (\<lambda>s _.
     let s = keep_local os [''HEAD''] (str_bytes (''ref: refs/heads/'' @ b @ [CHR 0x0A])) s
     in and_then (put_remote G (''refs/heads/'' @ b) (str_bytes (commit_oid @ [CHR 0x0A])) s) (\<lambda>s _.
     let s = keep_local os ([''refs'', ''heads''] @ split_on (CHR ''/'') b) (str_bytes (commit_oid @ [CHR 0x0A])) s
     in and_then (refresh_pack_indexes G s) (\<lambda>s _. update_server_info os G b commit_oid s)))"

lemma publish_refs_keeps:
  assumes "gcs_write_laws G" "m \<noteq> ''HEAD''" "m \<noteq> ''refs/heads/'' @ b" "m \<noteq> ''info/refs''" "m \<noteq> ''objects/info/packs''"
  shows "remote_file G (fst (publish_refs os G b commit_oid s)) m = remote_file G s m"
  unfolding publish_refs_def Let_def
  by (intro then_keeps_file)
    (use assms in \<open>simp_all add: put_remote_file(1) [OF assms(1)] server_info_file [OF assms(1)]\<close>)

lemma publish_refs_done:
  assumes W: "gcs_write_laws G" and run: "publish_refs os G b commit_oid s = (s', Inr u)"
  shows "remote_file G s' ''HEAD'' = Some (str_bytes (''ref: refs/heads/'' @ b @ [CHR 0x0A]))"
    "remote_file G s' (''refs/heads/'' @ b) = Some (str_bytes (commit_oid @ [CHR 0x0A]))"
proof -
  let ?hd = "str_bytes (''ref: refs/heads/'' @ b @ [CHR 0x0A])" and ?cm = "str_bytes (commit_oid @ [CHR 0x0A])"
  obtain s1 x1 where 1: "put_remote G ''HEAD'' ?hd s = (s1, Inr x1)"
    "and_then (put_remote G (''refs/heads/'' @ b) ?cm (keep_local os [''HEAD''] ?hd s1)) (\<lambda>s _.
       and_then (refresh_pack_indexes G (keep_local os ([''refs'', ''heads''] @ split_on (CHR ''/'') b) ?cm s))
         (\<lambda>s _. update_server_info os G b commit_oid s)) = (s', Inr u)"
    using and_then_Inr [OF run [unfolded publish_refs_def Let_def]] by blast
  obtain s2 x2 where 2: "put_remote G (''refs/heads/'' @ b) ?cm (keep_local os [''HEAD''] ?hd s1) = (s2, Inr x2)"
    "and_then (refresh_pack_indexes G (keep_local os ([''refs'', ''heads''] @ split_on (CHR ''/'') b) ?cm s2))
       (\<lambda>s _. update_server_info os G b commit_oid s) = (s', Inr u)"
    using and_then_Inr [OF 1(2)] by blast
  have tail: "remote_file G s' m = remote_file G s2 m" if "m \<noteq> ''info/refs''" "m \<noteq> ''objects/info/packs''" for m
  proof -
    have "remote_file G (fst (and_then (refresh_pack_indexes G (keep_local os ([''refs'', ''heads''] @ split_on (CHR ''/'') b) ?cm s2))
       (\<lambda>s _. update_server_info os G b commit_oid s))) m = remote_file G s2 m"
      by (intro then_keeps_file) (simp_all add: server_info_file [OF W that])
    then show ?thesis using 2(2) by simp
  qed
  have "remote_file G (fst (put_remote G (''refs/heads/'' @ b) ?cm (keep_local os [''HEAD''] ?hd s1))) ''HEAD'' = remote_file G s1 ''HEAD''"
    by (subst put_remote_file(1) [OF W]) simp_all
  then have "remote_file G s2 ''HEAD'' = Some ?hd" using 2(1) put_remote_file(2) [OF W 1(1)] by simp
  then show "remote_file G s' ''HEAD'' = Some ?hd" using tail [of "''HEAD''"] by simp
  show "remote_file G s' (''refs/heads/'' @ b) = Some ?cm"
    using tail [of "''refs/heads/'' @ b"] put_remote_file(2) [OF W 2(1)] by simp
qed

text \<open>
  C6: publishing a commit is safe at every failure: whenever the upload stops, either HEAD and the
  branch still hold what they held, or the complete pack and the complete index of the commit are
  in the bucket; and when it succeeds the branch holds the commit and HEAD refers to the branch.
\<close>

theorem commit_published_in_order:
  assumes W: "gcs_write_laws G" and run: "write_completed_commit os G commit_oid pack_sha pack_data idx_data (Some b) s = (s', r)"
  shows "((remote_file G s' ''HEAD'' = remote_file G s ''HEAD'' \<and>
       remote_file G s' (''refs/heads/'' @ b) = remote_file G s (''refs/heads/'' @ b)) \<or>
      (remote_file G s' (''objects/pack/pack-'' @ pack_sha @ ''.pack'') = Some pack_data \<and>
       remote_file G s' (''objects/pack/pack-'' @ pack_sha @ ''.idx'') = Some idx_data)) \<and>
    (r = Inr () \<longrightarrow>
       remote_file G s' (''objects/pack/pack-'' @ pack_sha @ ''.pack'') = Some pack_data \<and>
       remote_file G s' (''objects/pack/pack-'' @ pack_sha @ ''.idx'') = Some idx_data \<and>
       remote_file G s' ''HEAD'' = Some (str_bytes (''ref: refs/heads/'' @ b @ [CHR 0x0A])) \<and>
       remote_file G s' (''refs/heads/'' @ b) = Some (str_bytes (commit_oid @ [CHR 0x0A])))"
proof -
  let ?pn = "''objects/pack/'' @ pack_file pack_sha ''.pack''" and ?in = "''objects/pack/'' @ pack_file pack_sha ''.idx''"
  let ?bn = "''refs/heads/'' @ b"
  have names: "?pn = ''objects/pack/pack-'' @ pack_sha @ ''.pack''" "?in = ''objects/pack/pack-'' @ pack_sha @ ''.idx''"
    "?pn \<noteq> ?in" by (simp_all add: pack_file_def)
  let ?loc = "\<lambda>s. keep_local os [''objects'', ''pack'', pack_file pack_sha ''.idx''] idx_data
                (keep_local os [''objects'', ''pack'', pack_file pack_sha ''.pack''] pack_data s)"
  have wc: "and_then (put_remote G ?pn pack_data s) (\<lambda>s _. and_then (put_remote G ?in idx_data s) (\<lambda>s _.
      publish_refs os G b commit_oid (?loc s))) = (s', r)"
    using run by (simp add: write_completed_commit_def publish_refs_def Let_def)
  obtain s1 r1 where 1: "put_remote G ?pn pack_data s = (s1, r1)" by (cases "put_remote G ?pn pack_data s")
  have k1: "remote_file G s1 m = remote_file G s m" if "m \<noteq> ?pn" for m
    using put_remote_file(1) [OF W that, of pack_data s] 1 by simp
  show ?thesis
  proof (cases r1)
    case (Inl e)
    then have "s' = s1" "r = Inl e" using wc 1 by simp_all
    then show ?thesis using k1 by (simp add: pack_file_def)
  next
    case r1: (Inr u)
    obtain s2 r2 where 2: "put_remote G ?in idx_data s1 = (s2, r2)" by (cases "put_remote G ?in idx_data s1")
    have k2: "remote_file G s2 m = remote_file G s1 m" if "m \<noteq> ?in" for m
      using put_remote_file(1) [OF W that, of idx_data s1] 2 by simp
    show ?thesis
    proof (cases r2)
      case (Inl e)
      then have "s' = s2" "r = Inl e" using wc 1 r1 2 by simp_all
      then show ?thesis using k1 k2 by (simp add: pack_file_def)
    next
      case r2: (Inr v)
      have run2: "publish_refs os G b commit_oid (?loc s2) = (s', r)" using wc 1 2 r1 r2 by simp
      have pk: "remote_file G s2 ?pn = Some pack_data" "remote_file G s2 ?in = Some idx_data"
        using put_remote_file(2) [OF W] 1 2 r1 r2 k2 [OF names(3)] by auto
      have "remote_file G s' m = remote_file G s2 m" if "m = ?pn \<or> m = ?in" for m
        using publish_refs_keeps [OF W, of m b os commit_oid "?loc s2"] that run2 by (auto simp: pack_file_def)
      then have "remote_file G s' ?pn = Some pack_data" "remote_file G s' ?in = Some idx_data" using pk by simp_all
      then show ?thesis using publish_refs_done [OF W, of os b commit_oid "?loc s2" s'] run2 unfolding names by blast
    qed
  qed
qed

definition empty_storage :: "((string \<times> nat, bytes) demo_cache, bucket) gcs_storage" where
  "empty_storage = \<lparr>gs_prefix = ''r/'', gs_blocks = block_cache_new demo_lru 4 [], gs_indexes = [], gs_objects = [], gs_remote = []\<rparr>"

theorem commit_published_in_order_witness:
  "let s' = fst (write_completed_commit os_fine demo_gcs ''c0'' ''77'' [1, 2] [3] (Some ''main'') empty_storage)
   in remote_file demo_gcs s' ''refs/heads/main'' = None \<or>
      remote_file demo_gcs s' ''objects/pack/pack-77.pack'' = Some [1, 2]"
proof -
  obtain s' r where r: "write_completed_commit os_fine demo_gcs ''c0'' ''77'' [1, 2] [3] (Some ''main'') empty_storage = (s', r)"
    by (cases "write_completed_commit os_fine demo_gcs ''c0'' ''77'' [1, 2] [3] (Some ''main'') empty_storage")
  have "remote_file demo_gcs empty_storage m = None" for m
    by (simp add: remote_file_def empty_storage_def demo_gcs_def)
  then show ?thesis using commit_published_in_order [OF demo_gcs_laws(2) r] r by (simp add: Let_def) blast
qed

section \<open>The length of the last object\<close>

lemma varint_loop_more:
  "varint_loop err p pos c val sh = Inr (v, q) \<Longrightarrow> pos \<le> length p \<Longrightarrow>
   varint_loop err (p @ rest) pos c val sh = Inr (v, q) \<and> q \<le> length p"
proof (induction err p pos c val sh rule: varint_loop.induct)
  case (1 err p pos c val sh)
  then show ?case
    by (simp add: varint_loop.simps [of err p pos] varint_loop.simps [of err "p @ rest" pos] nth_append split: if_splits)
qed

text \<open>A header that is cut off is not read.\<close>

lemma slice_header_cut:
  assumes "sz < 2 ^ 64" "n < length (object_header ty sz)"
  shows "\<exists>e. slice_header (take n (object_header ty sz)) = Inl e"
proof (rule ccontr)
  let ?h = "object_header ty sz"
  assume "\<nexists>e. slice_header (take n ?h) = Inl e"
  then obtain ty' sz' pos where r: "slice_header (take n ?h) = Inr (ty', sz', pos)"
    by (cases "slice_header (take n ?h)") auto
  then obtain c cs where p: "take n ?h = c # cs" by (cases "take n ?h") (auto simp: slice_header_def)
  have "slice_header ((c # cs) @ drop n ?h) = Inr (ty', sz', pos) \<and> pos \<le> length (c # cs)"
    using r varint_loop_more [where p = "c # cs" and rest = "drop n ?h"] unfolding p
    by (fastforce simp: slice_header_def Let_def res_bind_Inr_iff)
  then have "slice_header (take n ?h @ drop n ?h) = Inr (ty', sz', pos) \<and> pos \<le> length (take n ?h)" unfolding p .
  moreover have "slice_header (take n ?h @ drop n ?h) = Inr (ty, sz, length ?h)"
    using slice_header_frame [OF assms(1), of ty "[]"] by simp
  ultimately show False using assms(2) by simp
qed

text \<open>What the front of a frame is read as: nothing, or what the decoder makes of the front of its stream.\<close>

lemma cut_frame:
  assumes ok: "frame_ok off (Base_Frame ty d)" and n: "n < length (frame_bytes X (Base_Frame ty d))"
  shows "\<exists>r. read_from_slice X G rd name off s (take n (frame_bytes X (Base_Frame ty d))) = Some (s, r) \<and>
    (\<forall>ob. r = Inr ob \<longrightarrow> (\<exists>k d' m. k + length (object_header ty (length d)) \<le> n \<and> k < length (x_deflate X d) \<and>
       x_inflate X (take k (x_deflate X d)) = Some (d', m) \<and> ob = \<lparr>ro_type = ty, ro_data = d'\<rparr>))"
proof (cases "length (object_header ty (length d)) \<le> n")
  case False
  define hdr where "hdr = object_header ty (length d)"
  have d: "length d < 2 ^ 64" using ok by (auto simp: isize_max_def)
  have "take n (frame_bytes X (Base_Frame ty d)) = take n hdr" using False by (simp add: hdr_def)
  moreover obtain e where "slice_header (take n hdr) = Inl e"
    using slice_header_cut [OF d, of n ty] False by (auto simp: hdr_def)
  ultimately show ?thesis by (simp add: read_from_slice_def)
next
  case True
  define hdr where "hdr = object_header ty (length d)"
  have d: "length d < 2 ^ 64" "length d \<le> isize_max" using ok by (auto simp: isize_max_def)
  define k where "k = n - length hdr"
  have k: "k + length hdr \<le> n" "k < length (x_deflate X d)" using n True by (simp_all add: k_def hdr_def)
  have cut: "take n (frame_bytes X (Base_Frame ty d)) = hdr @ take k (x_deflate X d)"
    using True by (simp add: k_def hdr_def)
  have sh: "slice_header (hdr @ take k (x_deflate X d)) = Inr (ty, length d, length hdr)"
    unfolding hdr_def by (rule slice_header_frame [OF d(1)])
  have "read_from_slice X G rd name off s (hdr @ take k (x_deflate X d)) =
      Some (s, slice_base X (hdr @ take k (x_deflate X d)) ty (length d) (length hdr))"
    using ok by (auto simp: read_from_slice_def sh)
  then show ?thesis
    using k d(2) unfolding cut hdr_def [symmetric]
    by (auto simp: slice_base_def inflate_at_def res_bind_Inr_iff split: option.splits)
qed

text \<open>
  C21: the last object of a pack cannot be read whole from the bucket when it takes more than 65600
  bytes there: the index cannot tell its length, the length that is assumed cuts its stream off, and
  every read of it that is not in the cache of objects is an error or has for its data what the decoder
  makes of the front of the stream, a proper part that ends before byte 65600 of the frame.
\<close>

theorem large_last_object_unreadable:
  assumes "lru_laws L" "gcs_read_laws G" "blocks_coherent L D (gs_blocks s)"
    and "hm_get (gs_objects s) oid = None" "oid_sha X oid = Some sha"
    and "pack_match (gs_indexes s) sha = Some (name, off, 65536)"
    and "(off, Base_Frame ty d) \<in> set (place X 12 fs)" "frame_ok off (Base_Frame ty d)"
    and "D (extract_filename name) = pack_bytes X fs trailer"
    and "g_object G (gs_remote s) name = Some (pack_bytes X fs trailer)"
    and "65600 < length (frame_bytes X (Base_Frame ty d))"
  shows "\<exists>s' r. read_object_raw X os L pid G (Suc n) oid s = Some (s', r) \<and>
    (\<forall>ob. r = Inr ob \<longrightarrow> (\<exists>k d' m. k + length (object_header ty (length d)) \<le> 65600 \<and> k < length (x_deflate X d) \<and>
       x_inflate X (take k (x_deflate X d)) = Some (d', m) \<and> ob = \<lparr>ro_type = ty, ro_data = d'\<rparr>))"
proof -
  let ?f = "frame_bytes X (Base_Frame ty d)"
  let ?cut = "\<lambda>r. \<forall>ob. r = Inr ob \<longrightarrow> (\<exists>k d' m. k + length (object_header ty (length d)) \<le> 65600 \<and> k < length (x_deflate X d) \<and>
       x_inflate X (take k (x_deflate X d)) = Some (d', m) \<and> ob = \<lparr>ro_type = ty, ro_data = d'\<rparr>)"
  obtain s' r where rd: "read_pack_slice os L pid G name off 65600 s = (s', r)" by fastforce
  obtain b where b: "block_read_range os L pid name off 65600 (range_fetcher G name (gs_remote s)) (gs_blocks s) = (b, r)"
    using rd by (auto simp: read_pack_slice_def split: prod.splits)
  have h: "honest_fetch (range_fetcher G name (gs_remote s)) (D (extract_filename name))"
    by (rule range_fetcher_honest [OF assms(2)]) (simp add: assms(9,10))
  obtain rest where sl: "slice off (off + length ?f) (pack_bytes X fs trailer) = ?f @ rest"
    using slice_of_frame [OF assms(7) order_refl] by blast
  have "slice off (off + 65600) (pack_bytes X fs trailer) = take 65600 (slice off (off + length ?f) (pack_bytes X fs trailer))"
    using assms(11) by (simp add: slice_def min_def)
  also have "\<dots> = take 65600 ?f" unfolding sl using assms(11) by simp
  finally have cut: "slice off (off + 65600) (pack_bytes X fs trailer) = take 65600 ?f" .
  have "\<exists>r'. read_pack_object X os L pid G (Suc n) name off 65536 s = Some (s', r') \<and> ?cut r'"
  proof (cases r)
    case (Inl e)
    then show ?thesis by (simp add: rd)
  next
    case (Inr c)
    define fb where "fb = ?f"
    have "\<exists>j \<le> 65600. c = take j fb"
    proof -
      have "c = take 65600 fb \<or> (\<exists>k. c = take k (take 65600 fb))"
        using block_range [OF assms(1,3) h b] Inr by (auto simp: range_result_def assms(9) cut [folded fb_def])
      then show ?thesis by (metis min.cobounded2 order_refl take_take)
    qed
    then obtain j where j: "j \<le> 65600" "c = take j ?f" unfolding fb_def by blast
    have lt: "j < length ?f" using j(1) assms(11) by linarith
    obtain r' where r': "read_from_slice X G (read_pack_object X os L pid G n) name off s' (take j ?f) = Some (s', r')"
      "\<forall>ob. r' = Inr ob \<longrightarrow> (\<exists>k d' m. k + length (object_header ty (length d)) \<le> j \<and> k < length (x_deflate X d) \<and>
       x_inflate X (take k (x_deflate X d)) = Some (d', m) \<and> ob = \<lparr>ro_type = ty, ro_data = d'\<rparr>)"
      using cut_frame [OF assms(8) lt, where s = s' and G = G and name = name and rd = "read_pack_object X os L pid G n"] by blast
    have "read_pack_object X os L pid G (Suc n) name off 65536 s = Some (s', r')"
      using r'(1) by (simp add: rd Inr j(2) del: frame_bytes.simps)
    moreover have "?cut r'" using r'(2) order_trans [OF _ j(1)] by blast
    ultimately show ?thesis by blast
  qed
  then obtain r' where "read_pack_object X os L pid G (Suc n) name off 65536 s = Some (s', r')" "?cut r'" by blast
  then show ?thesis using assms(4-6) by (cases r') (auto simp: read_object_raw_def read_object_with_def)
qed

text \<open>A pack of one blob of 40000 bytes, as the writer files it.\<close>

definition big_blob :: bytes where
  "big_blob = replicate 40000 7"

definition big_pack :: bytes where
  "big_pack = pack_bytes demo_ext [Base_Frame Blob_Type big_blob] [1, 2]"

definition big_storage :: "((string \<times> nat, bytes) demo_cache, bucket) gcs_storage" where
  "big_storage = \<lparr>gs_prefix = ''r/'', gs_blocks = block_cache_new demo_lru 4 [],
     gs_indexes = [index_of ''r/pack-1.pack'' [replicate 20 1] [12] (replicate 20 7)],
     gs_objects = [], gs_remote = [(''r/pack-1.pack'', big_pack)]\<rparr>"

lemma demo_deflate_length: "length (demo_deflate bs) = 2 * length bs + 1"
  by (induction bs) (simp_all add: demo_deflate_def)

text \<open>A decoder that ends without an error where its input ends.\<close>

fun lenient_inflate :: "bytes \<Rightarrow> (bytes \<times> nat) option" where
  "lenient_inflate (t # b # bs) =
     (if t = 0 then Some ([], 1)
      else map_option (\<lambda>(d, n). (b # d, n + 2)) (lenient_inflate bs))"
| "lenient_inflate bs = Some ([], length bs)"

definition lenient_ext :: ext where
  "lenient_ext = demo_ext\<lparr>x_inflate := lenient_inflate\<rparr>"

lemma lenient_inflate_length: "lenient_inflate bs = Some (d, n) \<Longrightarrow> 2 * length d \<le> length bs"
  by (induction bs arbitrary: d n rule: lenient_inflate.induct) (fastforce split: if_splits)+

theorem large_last_object_unreadable_witness:
  "\<exists>s' r. read_object_raw lenient_ext os_fine demo_lru 1 demo_gcs 1 (x_hex_encode demo_ext (replicate 20 1)) big_storage
     = Some (s', r) \<and> r \<noteq> Inr \<lparr>ro_type = Blob_Type, ro_data = big_blob\<rparr>"
proof -
  have i: "idx_image_ok [replicate 20 1] [1] [12] (replicate 20 7) (replicate 20 8)"
    by (simp add: idx_image_ok_def)
  have m: "pack_match (gs_indexes big_storage) (replicate 20 1) = Some (''r/pack-1.pack'', 12, 65536)"
    using index_finds [OF i, of 0 "''r/pack-1.pack''"] by (simp add: big_storage_def len_to_next_def index_of_def)
  have c: "blocks_coherent demo_lru (\<lambda>_. big_pack) (gs_blocks big_storage)"
    by (simp add: big_storage_def blocks_coherent_def block_cache_new_def demo_lru_def demo_view_of_def)
  have X: "frame_bytes lenient_ext f = frame_bytes demo_ext f" "x_deflate lenient_ext = demo_deflate" for f
    by (cases f) (simp_all add: lenient_ext_def demo_ext_def)
  have pl: "(12, Base_Frame Blob_Type big_blob) \<in> set (place lenient_ext 12 [Base_Frame Blob_Type big_blob])" by simp
  have len: "65600 < length (frame_bytes lenient_ext (Base_Frame Blob_Type big_blob))"
    unfolding X by (simp add: demo_ext_def demo_deflate_length big_blob_def)
  have pk: "big_pack = pack_bytes lenient_ext [Base_Frame Blob_Type big_blob] [1, 2]"
    by (simp only: big_pack_def pack_bytes_def list.map X)
  have "\<exists>s' r. read_object_raw lenient_ext os_fine demo_lru 1 demo_gcs (Suc 0) (x_hex_encode demo_ext (replicate 20 1)) big_storage
      = Some (s', r) \<and>
    (\<forall>ob. r = Inr ob \<longrightarrow> (\<exists>k d' m. k + length (object_header Blob_Type (length big_blob)) \<le> 65600 \<and> k < length (x_deflate lenient_ext big_blob) \<and>
       x_inflate lenient_ext (take k (x_deflate lenient_ext big_blob)) = Some (d', m) \<and> ob = \<lparr>ro_type = Blob_Type, ro_data = d'\<rparr>))"
  proof (rule large_last_object_unreadable [OF demo_lru_laws demo_gcs_laws(1) c _ _ m pl _ _ _ len])
    show "hm_get (gs_objects big_storage) (x_hex_encode demo_ext (replicate 20 1)) = None" by (simp add: big_storage_def)
    show "oid_sha lenient_ext (x_hex_encode demo_ext (replicate 20 1)) = Some (replicate 20 1)"
      by (simp add: oid_sha_def lenient_ext_def)
    show "frame_ok 12 (Base_Frame Blob_Type big_blob)" by (simp add: isize_max_def big_blob_def)
    show "big_pack = pack_bytes lenient_ext [Base_Frame Blob_Type big_blob] [1, 2]" by (rule pk)
    show "g_object demo_gcs (gs_remote big_storage) ''r/pack-1.pack'' = Some (pack_bytes lenient_ext [Base_Frame Blob_Type big_blob] [1, 2])"
      unfolding pk [symmetric] by (simp add: big_storage_def demo_gcs_def)
  qed
  moreover have "lenient_inflate (take k bs) \<noteq> Some (big_blob, n)" if "k \<le> 65600" for k bs n
    using lenient_inflate_length [of "take k bs" big_blob n] that by (auto simp: big_blob_def)
  ultimately show ?thesis by (fastforce simp: lenient_ext_def)
qed

end
