(* ===== verification/Pkt_Line.thy ===== *)
theory Pkt_Line
  imports Frames Rust_Text
begin

text \<open>
  The pkt-line codec of \<^verbatim>\<open>src/src/git/protocol.rs\<close>: framing of request lines, the
  demultiplexer of the sideband stream that carries a packfile, and the line parser of ls-refs
  responses. The loops keep the position \<open>idx\<close> of the source; the slice
  \<open>data[idx+4..idx+len]\<close> of a frame with a length below 4 is the panic it is in Rust.
\<close>

section \<open>Encoding\<close>

definition encode_pkt_line :: "string \<Rightarrow> bytes" where
  "encode_pkt_line line =
     (let payload = str_bytes line @ str_bytes [CHR 0x0A];
          total_len = length payload + 4
      in str_bytes (pad_left 4 (CHR ''0'') (to_radix 16 total_len)) @ payload)"

definition flush_pkt :: bytes where
  "flush_pkt = str_bytes ''0000''"

definition delim_pkt :: bytes where
  "delim_pkt = str_bytes ''0001''"

section \<open>Decoding\<close>

definition pkt_len :: "bytes \<Rightarrow> nat \<Rightarrow> nat result" where
  "pkt_len data idx =
     (case from_utf8 (slice idx (idx + 4) data) of
        None \<Rightarrow> Inl (E_Pkt Pkt_BadUtf8)
      | Some len_str \<Rightarrow>
          (case from_radix 16 u64_max len_str of
             None \<Rightarrow> Inl (E_Pkt Pkt_BadHex)
           | Some n \<Rightarrow> Inr n))"

definition sideband_chunk :: "bytes \<Rightarrow> bytes \<Rightarrow> bytes result" where
  "sideband_chunk chunk pack =
     (case chunk of
        [] \<Rightarrow> Inr pack
      | c # rest \<Rightarrow>
          if c = 1 then Inr (pack @ rest)
          else if c = 2 then Inr pack
          else if c = 3 then Inl (E_Pkt (Pkt_Remote (utf8_lossy rest)))
          else if take 4 chunk = str_bytes ''PACK'' then Inr (pack @ chunk)
          else Inr pack)"

function sideband_loop :: "bytes \<Rightarrow> nat \<Rightarrow> bytes \<Rightarrow> bytes result" where
  "sideband_loop data idx pack =
     (if idx < length data then
        if idx + 4 > length data then Inr pack
        else (case pkt_len data idx of
            Inl e \<Rightarrow> Inl e
          | Inr line_len \<Rightarrow>
              if line_len = 0 \<or> line_len = 1 then sideband_loop data (idx + 4) pack
              else if idx + line_len > length data then Inl (E_Pkt Pkt_TooLong)
              else if line_len < 4 then Inl Panic
              else (case sideband_chunk (slice (idx + 4) (idx + line_len) data) pack of
                  Inl e \<Rightarrow> Inl e
                | Inr pack' \<Rightarrow> sideband_loop data (idx + line_len) pack'))
      else Inr pack)"
  by pat_completeness auto
termination
  by (relation "measure (\<lambda>(data, idx, pack). length data - idx)") auto

definition find_pack_magic :: "bytes \<Rightarrow> nat option" where
  "find_pack_magic data =
     position (\<lambda>i. slice i (i + 4) data = str_bytes ''PACK'') [0..<length data - 3]"

definition extract_pack_from_sideband :: "bytes \<Rightarrow> bytes result" where
  "extract_pack_from_sideband data =
     (case sideband_loop data 0 [] of
        Inl e \<Rightarrow> Inl e
      | Inr pack \<Rightarrow>
          if pack = [] then
            (case find_pack_magic data of
               Some pack_pos \<Rightarrow> Inr (drop pack_pos data)
             | None \<Rightarrow> Inl (E_Pkt Pkt_NoPack))
          else Inr pack)"

function pkt_lines_loop :: "bytes \<Rightarrow> nat \<Rightarrow> string list \<Rightarrow> string list result" where
  "pkt_lines_loop data idx ls =
     (if idx < length data then
        if idx + 4 > length data then Inr ls
        else (case pkt_len data idx of
            Inl e \<Rightarrow> Inl e
          | Inr line_len \<Rightarrow>
              if line_len = 0 then pkt_lines_loop data (idx + 4) ls
              else if line_len = 1 then pkt_lines_loop data (idx + 4) ls
              else if idx + line_len > length data then Inr ls
              else if line_len < 4 then Inl Panic
              else
                (let chunk = slice (idx + 4) (idx + line_len) data;
                     s = trim_end_char (CHR 0x0A) (from_utf8_lossy chunk)
                 in pkt_lines_loop data (idx + line_len) (ls @ [s])))
      else Inr ls)"
  by pat_completeness auto
termination
  by (relation "measure (\<lambda>(data, idx, ls). length data - idx)") auto

definition parse_pkt_lines :: "bytes \<Rightarrow> string list result" where
  "parse_pkt_lines data = pkt_lines_loop data 0 []"

declare sideband_loop.simps [simp del] pkt_lines_loop.simps [simp del]

section \<open>Streams of packets\<close>

text \<open>What a request or a response is made of, as the sources build and read it.\<close>

datatype pkt = Text_Pkt string | Flush_Pkt | Delim_Pkt

fun pkt_bytes :: "pkt \<Rightarrow> bytes" where
  "pkt_bytes (Text_Pkt s) = encode_pkt_line s"
| "pkt_bytes Flush_Pkt = flush_pkt"
| "pkt_bytes Delim_Pkt = delim_pkt"

fun pkt_text :: "pkt \<Rightarrow> string list" where
  "pkt_text (Text_Pkt s) = [s]"
| "pkt_text _ = []"

text \<open>A line fits a packet when the four hex digits can hold its length and it is a text line.\<close>

fun pkt_ok :: "pkt \<Rightarrow> bool" where
  "pkt_ok (Text_Pkt s) \<longleftrightarrow>
     length s + 5 \<le> 65535 \<and> utf8_valid (str_bytes s) \<and> (s = [] \<or> last s \<noteq> CHR 0x0A)"
| "pkt_ok _ \<longleftrightarrow> True"

definition hex4 :: "nat \<Rightarrow> bytes" where
  "hex4 n = str_bytes (pad_left 4 (CHR ''0'') (to_radix 16 n))"

text \<open>A frame of the sideband stream: a channel byte and its payload.\<close>

datatype band = Band u8 bytes | Band_Flush | Band_Delim

fun band_bytes :: "band \<Rightarrow> bytes" where
  "band_bytes (Band ch payload) = hex4 (length payload + 5) @ ch # payload"
| "band_bytes Band_Flush = flush_pkt"
| "band_bytes Band_Delim = delim_pkt"

fun band_ok :: "band \<Rightarrow> bool" where
  "band_ok (Band ch payload) \<longleftrightarrow> length payload + 5 \<le> 65535 \<and> (ch = 1 \<or> ch = 2)"
| "band_ok _ \<longleftrightarrow> True"

fun band_pack :: "band \<Rightarrow> bytes" where
  "band_pack (Band ch payload) = (if ch = 1 then payload else [])"
| "band_pack _ = []"

lemma digit_char_ascii: "d < 16 \<Longrightarrow> of_char (digit_char d) < (128 :: nat)"
  by (simp add: digit_char_def)

lemma hex4_ascii: "c \<in> set (pad_left 4 (CHR ''0'') (to_radix 16 n)) \<Longrightarrow> of_char c < (128 :: nat)"
  using set_to_radix [of 16 c n] digit_char_ascii by (fastforce simp: pad_left_def)

lemma length_hex4 [simp]: "n \<le> 65535 \<Longrightarrow> length (hex4 n) = 4"
  using length_to_radix_le [of 16 n 4] by (simp add: hex4_def pad_left_def)

lemma pkt_len_hex4:
  assumes "n \<le> 65535"
  shows "pkt_len (pre @ hex4 n @ rest) (length pre) = Inr n"
proof -
  let ?s = "pad_left 4 (CHR ''0'') (to_radix 16 n)"
  have "slice (length pre) (length pre + 4) (pre @ hex4 n @ rest) = hex4 n"
    using slice_mid [of pre "hex4 n" rest] assms by simp
  moreover have "from_utf8 (hex4 n) = Some ?s"
    unfolding hex4_def by (rule from_utf8_str, rule utf8_valid_str_ascii) (use hex4_ascii in blast)
  moreover have "from_radix 16 u64_max ?s = Some n"
    by (rule from_radix_pad) (use assms in simp_all)
  ultimately show ?thesis by (simp add: pkt_len_def)
qed

lemma flush_hex4: "flush_pkt = hex4 0" and delim_hex4: "delim_pkt = hex4 1"
  by code_simp+

lemma encode_pkt_line_hex4:
  "encode_pkt_line s = hex4 (length s + 5) @ str_bytes s @ [byte_of (CHR 0x0A)]"
  by (simp add: encode_pkt_line_def hex4_def Let_def str_bytes_def add.commute)

lemma pkt_lines_round:
  assumes "pkt_ok f"
  shows "pkt_lines_loop (pre @ pkt_bytes f @ rest) (length pre) acc =
         pkt_lines_loop (pre @ pkt_bytes f @ rest) (length pre + length (pkt_bytes f))
           (acc @ pkt_text f)"
proof (cases f)
  case (Text_Pkt s)
  define body where "body = str_bytes s @ [byte_of (CHR 0x0A)]"
  define data where "data = pre @ hex4 (length s + 5) @ body @ rest"
  have len: "length s + 5 \<le> 65535" and u: "utf8_valid (str_bytes s)"
    and nl: "s = [] \<or> last s \<noteq> CHR 0x0A" using assms Text_Pkt by simp_all
  have lens: "length body = length s + 1" "length data = length pre + (length s + 5) + length rest"
    using len by (simp_all add: body_def data_def)
  have n: "pkt_len data (length pre) = Inr (length s + 5)"
    unfolding data_def using len by (rule pkt_len_hex4)
  have chunk: "slice (length pre + 4) (length pre + (length s + 5)) data = body"
    using slice_mid [of "pre @ hex4 (length s + 5)" body rest] len lens
    by (simp add: data_def ac_simps)
  have "utf8_valid (str_bytes (s @ [CHR 0x0A]))"
    using u utf8_valid_str_ascii [of "[CHR 0x0A]"] by (simp add: utf8_valid_append)
  then have "from_utf8_lossy body = s @ [CHR 0x0A]"
    using from_utf8_lossy_str [of "s @ [CHR 0x0A]"] by (simp add: str_bytes_def body_def)
  then have line: "trim_end_char (CHR 0x0A) (from_utf8_lossy body) = s"
    using nl by (simp add: trim_end_char_snoc trim_end_char_id)
  have "pkt_lines_loop data (length pre) acc
      = pkt_lines_loop data (length pre + (length s + 5)) (acc @ [s])"
    using lens
    by (simp add: pkt_lines_loop.simps [of data "length pre" acc] n chunk line Let_def)
  moreover have "data = pre @ pkt_bytes f @ rest" "length (pkt_bytes f) = length s + 5"
    using Text_Pkt len by (simp_all add: encode_pkt_line_hex4 data_def body_def)
  ultimately show ?thesis using Text_Pkt by simp
next
  case Flush_Pkt
  then show ?thesis
    by (subst pkt_lines_loop.simps) (simp add: flush_hex4 pkt_len_hex4 add.commute)
next
  case Delim_Pkt
  then show ?thesis
    by (subst pkt_lines_loop.simps) (simp add: delim_hex4 pkt_len_hex4)
qed

interpretation pkts: frame_loop pkt_lines_loop pkt_bytes "\<lambda>f acc. acc @ pkt_text f" pkt_ok
  by unfold_locales (rule pkt_lines_round)

lemma sideband_round:
  assumes "band_ok f"
  shows "sideband_loop (pre @ band_bytes f @ rest) (length pre) acc =
         sideband_loop (pre @ band_bytes f @ rest) (length pre + length (band_bytes f))
           (acc @ band_pack f)"
proof (cases f)
  case (Band ch p)
  define data where "data = pre @ hex4 (length p + 5) @ (ch # p) @ rest"
  have len: "length p + 5 \<le> 65535" and ch: "ch = 1 \<or> ch = 2" using assms Band by simp_all
  have lens: "length data = length pre + (length p + 5) + length rest"
    using len by (simp add: data_def)
  have n: "pkt_len data (length pre) = Inr (length p + 5)"
    unfolding data_def using len by (rule pkt_len_hex4)
  have chunk: "slice (length pre + 4) (length pre + (length p + 5)) data = ch # p"
    using slice_mid [of "pre @ hex4 (length p + 5)" "ch # p" rest] len
    by (simp add: data_def ac_simps)
  have "sideband_chunk (ch # p) acc = Inr (acc @ band_pack f)"
    using ch Band by (auto simp: sideband_chunk_def)
  then have "sideband_loop data (length pre) acc
      = sideband_loop data (length pre + (length p + 5)) (acc @ band_pack f)"
    using lens by (simp add: sideband_loop.simps [of data "length pre" acc] n chunk)
  moreover have "data = pre @ band_bytes f @ rest" "length (band_bytes f) = length p + 5"
    using Band len by (simp_all add: data_def)
  ultimately show ?thesis by simp
next
  case Band_Flush
  then show ?thesis by (subst sideband_loop.simps) (simp add: flush_hex4 pkt_len_hex4)
next
  case Band_Delim
  then show ?thesis by (subst sideband_loop.simps) (simp add: delim_hex4 pkt_len_hex4)
qed

interpretation bands: frame_loop sideband_loop band_bytes "\<lambda>f acc. acc @ band_pack f" band_ok
  by unfold_locales (rule sideband_round)

section \<open>Correctness\<close>

lemma pkt_lines_end: "idx \<ge> length data \<Longrightarrow> pkt_lines_loop data idx ls = Inr ls"
  by (subst pkt_lines_loop.simps) simp

lemma sideband_end: "idx \<ge> length data \<Longrightarrow> sideband_loop data idx ls = Inr ls"
  by (subst sideband_loop.simps) simp

lemma pkt_stream_prefix:
  "list_all pkt_ok ps \<Longrightarrow>
   parse_pkt_lines (concat (map pkt_bytes ps) @ rest) =
   pkt_lines_loop (concat (map pkt_bytes ps) @ rest) (length (concat (map pkt_bytes ps)))
     (concat (map pkt_text ps))"
  using pkts.frames_from_start [of ps rest "[]"]
  by (simp add: parse_pkt_lines_def fold_snoc_map)

text \<open>
  C40: every stream of packets the client builds is read back: the parser returns exactly the
  lines, in order, and skips flush and delimiter packets.
\<close>

theorem parse_encoded_pkt_lines:
  assumes "list_all pkt_ok ps"
  shows "parse_pkt_lines (concat (map pkt_bytes ps)) = Inr (concat (map pkt_text ps))"
  using pkt_stream_prefix [OF assms, of "[]"] by (simp add: pkt_lines_end)

theorem parse_encoded_pkt_lines_witness:
  "list_all pkt_ok [Text_Pkt ''hello'', Flush_Pkt, Text_Pkt ''world'']
   \<and> parse_pkt_lines (encode_pkt_line ''hello'' @ flush_pkt @ encode_pkt_line ''world'')
     = Inr [''hello'', ''world'']"
proof -
  have ok: "list_all pkt_ok [Text_Pkt ''hello'', Flush_Pkt, Text_Pkt ''world'']"
    by (simp add: utf8_valid_str_ascii)
  show ?thesis using ok parse_encoded_pkt_lines [OF ok] by simp
qed

text \<open>A buffer that ends inside a packet: the loop stops there and keeps what it has.\<close>

lemma pkt_lines_cut:
  assumes "n \<le> 65535" "k < n" "4 < n"
  shows "pkt_lines_loop (pre @ take k (hex4 n @ body)) (length pre) acc = Inr acc"
proof (cases "k < 4")
  case True
  then show ?thesis using assms(1) by (subst pkt_lines_loop.simps) simp
next
  case False
  define data where "data = pre @ take k (hex4 n @ body)"
  have eq: "data = pre @ hex4 n @ take (k - 4) body"
    using False assms(1) by (simp add: data_def)
  have n: "pkt_len data (length pre) = Inr n" unfolding eq using assms(1) by (rule pkt_len_hex4)
  have "length data < length pre + n" "length pre + 4 \<le> length data"
    using assms False by (auto simp: eq)
  then have "pkt_lines_loop data (length pre) acc = Inr acc"
    using assms(3) by (simp add: pkt_lines_loop.simps [of data "length pre" acc] n)
  then show ?thesis by (simp add: data_def)
qed

text \<open>
  A response that is cut off inside its last line still parses: the complete lines before
  the cut are returned and nothing of the incomplete one is.
\<close>

theorem parse_truncated_pkt_lines:
  assumes "list_all pkt_ok ps" "pkt_ok (Text_Pkt s)" "k < length (encode_pkt_line s)"
  shows "parse_pkt_lines (concat (map pkt_bytes ps) @ take k (encode_pkt_line s))
         = Inr (concat (map pkt_text ps))"
proof -
  have "k < length s + 5" "length s + 5 \<le> 65535"
    using assms(2,3) by (simp_all add: encode_pkt_line_hex4)
  then show ?thesis
    unfolding pkt_stream_prefix [OF assms(1)] encode_pkt_line_hex4
    by (intro pkt_lines_cut) simp_all
qed

theorem parse_truncated_pkt_lines_witness:
  "parse_pkt_lines (encode_pkt_line ''hello'' @ take 7 (encode_pkt_line ''world'')) = Inr [''hello'']"
proof -
  have "list_all pkt_ok [Text_Pkt ''hello'']" "pkt_ok (Text_Pkt ''world'')"
    "7 < length (encode_pkt_line ''world'')"
    by (simp_all add: utf8_valid_str_ascii encode_pkt_line_hex4)
  from parse_truncated_pkt_lines [OF this] show ?thesis by simp
qed

lemma extract_bands:
  assumes "list_all band_ok fs" "concat (map band_pack fs) \<noteq> []"
  shows "extract_pack_from_sideband (concat (map band_bytes fs)) = Inr (concat (map band_pack fs))"
proof -
  have "sideband_loop (concat (map band_bytes fs)) 0 [] = Inr (concat (map band_pack fs))"
    using bands.frames_from_start [OF assms(1), of "[]" "[]"]
    by (simp add: fold_snoc_map sideband_end)
  with assms(2) show ?thesis
    unfolding extract_pack_from_sideband_def by (simp only: sum.case if_False)
qed

text \<open>
  The sideband demultiplexer returns exactly the bytes of channel 1, in order, whatever
  progress messages and flush packets lie between them.
\<close>

theorem sideband_extracts_pack:
  assumes "list_all band_ok fs" "concat (map band_pack fs) \<noteq> []"
  shows "extract_pack_from_sideband (concat (map band_bytes fs)) = Inr (concat (map band_pack fs))"
  using assms by (rule extract_bands)

theorem sideband_extracts_pack_witness:
  "extract_pack_from_sideband
     (hex4 7 @ 1 # [80, 65] @ hex4 6 @ 2 # [33] @ flush_pkt @ hex4 7 @ 1 # [67, 75])
   = Inr [80, 65, 67, 75]"
proof -
  let ?fs = "[Band 1 [80, 65], Band 2 [33], Band_Flush, Band 1 [67, 75]]"
  have "list_all band_ok ?fs" "concat (map band_pack ?fs) \<noteq> []" by simp_all
  from sideband_extracts_pack [OF this] show ?thesis by simp
qed

text \<open>
  A frame on channel 3 aborts the transfer with the remote's message, decoded lossily,
  whatever pack data was received before it and whatever follows it.
\<close>

theorem sideband_remote_error:
  assumes "list_all band_ok fs" "length msg + 5 \<le> 65535"
  shows "extract_pack_from_sideband
           (concat (map band_bytes fs) @ band_bytes (Band 3 msg) @ rest)
         = Inl (E_Pkt (Pkt_Remote (utf8_lossy msg)))"
proof -
  define pre where "pre = concat (map band_bytes fs)"
  define data where "data = pre @ hex4 (length msg + 5) @ (3 # msg) @ rest"
  have n: "pkt_len data (length pre) = Inr (length msg + 5)"
    unfolding data_def using assms(2) by (rule pkt_len_hex4)
  have chunk: "slice (length pre + 4) (length pre + (length msg + 5)) data = 3 # msg"
    using slice_mid [of "pre @ hex4 (length msg + 5)" "3 # msg" rest] assms(2)
    by (simp add: data_def ac_simps)
  have "length data = length pre + (length msg + 5) + length rest"
    using assms(2) by (simp add: data_def)
  then have "sideband_loop data (length pre) acc = Inl (E_Pkt (Pkt_Remote (utf8_lossy msg)))" for acc
    by (simp add: sideband_loop.simps [of data "length pre" acc] n chunk sideband_chunk_def)
  moreover have "sideband_loop data 0 []
      = sideband_loop data (length pre) (fold (\<lambda>f acc. acc @ band_pack f) fs [])"
    using bands.frames_from_start [OF assms(1)] by (simp add: data_def pre_def)
  ultimately show ?thesis
    by (simp add: extract_pack_from_sideband_def data_def pre_def)
qed

theorem sideband_remote_error_witness:
  "extract_pack_from_sideband (hex4 6 @ 1 # [80] @ hex4 7 @ 3 # [110, 111])
   = Inl (E_Pkt (Pkt_Remote (utf8_lossy [110, 111])))"
proof -
  have "list_all band_ok [Band 1 [80]]" "length [110, 111 :: u8] + 5 \<le> 65535" by simp_all
  from sideband_remote_error [OF this, of "[]"] show ?thesis by simp
qed

text \<open>
  A frame header that announces a length of 2 or 3 (less than the header itself) makes both
  parsers panic on the slice, at any point of an otherwise well-formed stream.
\<close>

theorem short_frame_panics:
  assumes "n = 2 \<or> n = 3" and ps: "list_all pkt_ok ps" and fs: "list_all band_ok fs"
  shows "parse_pkt_lines (concat (map pkt_bytes ps) @ hex4 n @ rest) = Inl Panic
       \<and> extract_pack_from_sideband (concat (map band_bytes fs) @ hex4 n @ rest) = Inl Panic"
proof -
  have n: "n \<le> 65535" "n \<noteq> 0" "n \<noteq> 1" "n < 4" using assms(1) by auto
  have len: "length pre < length (pre @ hex4 n @ rest)" "length pre + 4 \<le> length (pre @ hex4 n @ rest)"
    "length pre + n \<le> length (pre @ hex4 n @ rest)" for pre :: bytes
    using n by simp_all
  have "pkt_lines_loop (pre @ hex4 n @ rest) (length pre) acc = Inl Panic" for pre acc
    using len [of pre] n
    by (simp add: pkt_lines_loop.simps [of "pre @ hex4 n @ rest" "length pre" acc] pkt_len_hex4)
  moreover have "sideband_loop (pre @ hex4 n @ rest) (length pre) acc = Inl Panic" for pre acc
    using len [of pre] n
    by (simp add: sideband_loop.simps [of "pre @ hex4 n @ rest" "length pre" acc] pkt_len_hex4)
  ultimately show ?thesis
    using pkt_stream_prefix [OF ps] bands.frames_from_start [OF fs]
    by (simp add: extract_pack_from_sideband_def)
qed

theorem short_frame_panics_witness:
  "parse_pkt_lines (flush_pkt @ hex4 3) = Inl Panic
   \<and> extract_pack_from_sideband (flush_pkt @ hex4 3) = Inl Panic"
  using short_frame_panics [of 3 "[Flush_Pkt]" "[Band_Flush]" "[]"] by simp

end
