(* ===== verification/Smart_Http.thy ===== *)
theory Smart_Http
  imports Pkt_Line External
begin

text \<open>
  The smart HTTP client \<^verbatim>\<open>src/src/git/smart_http.rs\<close>: the request bodies, the choice of the
  commit from an ls-refs response, and the packs of a fetch. The HTTP client crate and the server
  are the parameter \<open>net\<close>: what a POST to an endpoint with a body comes back with.
\<close>

datatype http_response = Send_Failed | Bad_Status | Body_Failed | Http_Body bytes

type_synonym net = "string \<Rightarrow> bytes \<Rightarrow> http_response"

record http_client =
  hc_base_url :: string
  hc_requests :: nat

definition client_base_url :: "string \<Rightarrow> string" where
  "client_base_url url =
     (let base_url = trim_end_char (CHR ''/'') url
      in if ends_with ''.git'' base_url then base_url else base_url @ ''.git'')"

definition http_client_new :: "string \<Rightarrow> http_client" where
  "http_client_new url = \<lparr>hc_base_url = client_base_url url, hc_requests = 0\<rparr>"

definition http_post :: "net \<Rightarrow> bytes \<Rightarrow> http_client \<Rightarrow> http_client \<times> bytes result" where
  "http_post net body c =
     (c\<lparr>hc_requests := hc_requests c + 1\<rparr>,
      case net (hc_base_url c @ ''/git-upload-pack'') body of
        Http_Body resp \<Rightarrow> Inr resp
      | _ \<Rightarrow> Inl (E_Repo Repo_Http))"

section \<open>Requests\<close>

definition ls_refs_body :: bytes where
  "ls_refs_body =
     encode_pkt_line ''command=ls-refs'' @ encode_pkt_line ''agent=git-nfs'' @ delim_pkt
     @ encode_pkt_line ''ref-prefix HEAD'' @ encode_pkt_line ''ref-prefix refs/heads/'' @ flush_pkt"

definition fetch_trees_body :: "string \<Rightarrow> bytes" where
  "fetch_trees_body commit_oid =
     encode_pkt_line ''command=fetch'' @ encode_pkt_line ''agent=git-nfs'' @ delim_pkt
     @ encode_pkt_line (''want '' @ commit_oid) @ encode_pkt_line ''deepen 1''
     @ encode_pkt_line ''filter blob:none'' @ encode_pkt_line ''done'' @ flush_pkt"

definition fetch_blobs_body :: "string list \<Rightarrow> bytes" where
  "fetch_blobs_body blob_oids =
     encode_pkt_line ''command=fetch'' @ encode_pkt_line ''agent=git-nfs'' @ delim_pkt
     @ concat (map (\<lambda>oid. encode_pkt_line (''want '' @ oid)) blob_oids)
     @ encode_pkt_line ''done'' @ flush_pkt"

section \<open>The commit of a branch\<close>

text \<open>The loop over the lines: the ids of HEAD and of the branch, and the branch that is reported.\<close>

fun head_loop :: "string option \<Rightarrow> string list \<Rightarrow> string option \<times> string option \<times> string \<Rightarrow>
    string option \<times> string option \<times> string" where
  "head_loop branch_override [] acc = acc"
| "head_loop branch_override (line # ls) (head_oid, branch_oid, target_branch) =
     (case split_whitespace line of
        oid # refname # _ \<Rightarrow>
          (let head_oid' = (if refname = ''HEAD'' then Some oid else head_oid);
               (branch_oid', target_branch') =
                 (case branch_override of
                    Some target \<Rightarrow>
                      (if refname = ''refs/heads/'' @ target then (Some oid, target) else (branch_oid, target_branch))
                  | None \<Rightarrow>
                      (if refname = ''refs/heads/master'' \<or> refname = ''refs/heads/main''
                       then (Some oid, if ends_with ''main'' refname then ''main'' else ''master'')
                       else (branch_oid, target_branch)))
           in head_loop branch_override ls (head_oid', branch_oid', target_branch'))
      | _ \<Rightarrow> head_loop branch_override ls (head_oid, branch_oid, target_branch))"

definition http_resolve_head :: "net \<Rightarrow> string option \<Rightarrow> http_client \<Rightarrow> http_client \<times> (string \<times> string) result" where
  "http_resolve_head net branch_override c =
     and_then (http_post net ls_refs_body c) (\<lambda>c resp.
       (c, res_bind (parse_pkt_lines resp) (\<lambda>ls.
          let (head_oid, branch_oid, target_branch) =
                head_loop branch_override ls (None, None, case branch_override of Some b \<Rightarrow> b | None \<Rightarrow> ''master'')
          in case (case branch_oid of Some oid \<Rightarrow> Some oid | None \<Rightarrow> head_oid) of
               Some oid \<Rightarrow> Inr (oid, target_branch)
             | None \<Rightarrow> Inl (E_Repo Repo_NoRef))))"

section \<open>Packs\<close>

definition fetch_trees_pack :: "net \<Rightarrow> string \<Rightarrow> http_client \<Rightarrow> http_client \<times> bytes result" where
  "fetch_trees_pack net commit_oid c =
     and_then (http_post net (fetch_trees_body commit_oid) c) (\<lambda>c resp. (c, extract_pack_from_sideband resp))"

definition fetch_blobs_pack :: "net \<Rightarrow> string list \<Rightarrow> http_client \<Rightarrow> http_client \<times> bytes result" where
  "fetch_blobs_pack net blob_oids c =
     (if blob_oids = [] then (c, Inr [])
      else and_then (http_post net (fetch_blobs_body blob_oids) c) (\<lambda>c resp. (c, extract_pack_from_sideband resp)))"

definition fetch_blob_pack :: "net \<Rightarrow> string \<Rightarrow> http_client \<Rightarrow> http_client \<times> bytes result" where
  "fetch_blob_pack net blob_oid c = fetch_blobs_pack net [blob_oid] c"

section \<open>Properties\<close>

text \<open>The references a response lists, and the last one of a name.\<close>

definition ref_lines :: "string list \<Rightarrow> (string \<times> string) list" where
  "ref_lines ls = concat (map (\<lambda>l. case split_whitespace l of oid # name # _ \<Rightarrow> [(name, oid)] | _ \<Rightarrow> []) ls)"

definition last_ref :: "string list \<Rightarrow> string \<Rightarrow> string option" where
  "last_ref ls name = map_of (rev (ref_lines ls)) name"

lemma last_ref_Cons: "last_ref (l # ls) name =
    (case last_ref ls name of Some oid \<Rightarrow> Some oid
     | None \<Rightarrow> (case split_whitespace l of oid # nm # _ \<Rightarrow> if nm = name then Some oid else None | _ \<Rightarrow> None))"
  by (auto simp: last_ref_def ref_lines_def map_add_def split: list.splits option.splits)

lemma head_loop_branch:
  "head_loop (Some b) ls (h, br, b) =
     (case last_ref ls ''HEAD'' of Some oid \<Rightarrow> Some oid | None \<Rightarrow> h,
      case last_ref ls (''refs/heads/'' @ b) of Some oid \<Rightarrow> Some oid | None \<Rightarrow> br, b)"
proof (induction ls arbitrary: h br)
  case Nil
  then show ?case by (simp add: last_ref_def ref_lines_def)
next
  case (Cons l ls)
  show ?case
  proof (cases "split_whitespace l")
    case (Cons oid rest)
    then show ?thesis using Cons.IH by (cases rest) (auto simp: last_ref_Cons split: option.split)
  qed (simp add: Cons.IH last_ref_Cons split: option.split)
qed

text \<open>
  C19: resolving a branch over HTTP gives the commit the server lists last for it; but when the server
  has no such branch, the commit of HEAD is returned under the name of the missing branch,
  and only a server without HEAD makes it an error.
\<close>

theorem http_branch_choice:
  assumes "net (hc_base_url c @ ''/git-upload-pack'') ls_refs_body = Http_Body resp" "parse_pkt_lines resp = Inr ls"
  shows "snd (http_resolve_head net (Some b) c) =
    (case last_ref ls (''refs/heads/'' @ b) of
       Some oid \<Rightarrow> Inr (oid, b)
     | None \<Rightarrow> (case last_ref ls ''HEAD'' of Some oid \<Rightarrow> Inr (oid, b) | None \<Rightarrow> Inl (E_Repo Repo_NoRef)))"
  using assms by (simp add: http_resolve_head_def http_post_def head_loop_branch split: option.split)

theorem http_branch_choice_witness:
  "snd (http_resolve_head (\<lambda>_ _. Http_Body (encode_pkt_line ''abc HEAD'' @ flush_pkt)) (Some ''typo'') (http_client_new ''h/r''))
   = Inr (''abc'', ''typo'')"
proof -
  have ok: "list_all pkt_ok [Text_Pkt ''abc HEAD'', Flush_Pkt]" by (simp add: utf8_valid_str_ascii)
  have p: "parse_pkt_lines (encode_pkt_line ''abc HEAD'' @ flush_pkt) = Inr [''abc HEAD'']"
    using pkt_stream_prefix [OF ok, of "[]"] by (simp add: pkt_lines_end)
  have "last_ref [''abc HEAD''] (''refs/heads/'' @ ''typo'') = None" "last_ref [''abc HEAD''] ''HEAD'' = Some ''abc''"
    by code_simp+
  then show ?thesis
    using http_branch_choice [where net = "\<lambda>_ _. Http_Body (encode_pkt_line ''abc HEAD'' @ flush_pkt)"
        and c = "http_client_new ''h/r''" and b = "''typo''", OF refl p] by simp
qed

end
