(* ===== verification/Git_Engine.thy ===== *)
theory Git_Engine
  imports Smart_Http Gcs_Storage Vfs
begin

text \<open>
  The git engine of \<^verbatim>\<open>src/src/git/mod.rs\<close>: two sources of objects (smart HTTP, or a bucket)
  behind the memory and the disk cache of blobs, and the trees in memory. A call that reads out of a
  bucket may run out of the fuel \<open>ev_fuel\<close>, then it is \<open>None\<close>. Tasks that run concurrently in the
  source run in order here; a task that fails or panics is skipped, as \<open>join_all\<close> does.
\<close>

section \<open>State\<close>

datatype ('b, 'g) git_source = Http_Source http_client | Gcs_Source "('b, 'g) gcs_storage"

record ('c, 'b, 'g) git_engine =
  ge_source :: "('b, 'g) git_source"
  ge_disk :: disk_cache
  ge_memory :: "'c memory_cache"
  ge_trees :: "(string, git_tree) hmap"
  ge_root :: "string option"
  ge_commit :: "string option"

text \<open>What the engine is run with: the crates, the operating system, the services and the fuel.\<close>

record ('c, 'b, 'g, 'w) env =
  ev_ext :: ext
  ev_os :: os
  ev_mem :: "'c lru_blobs"
  ev_blocks :: "'b lru_blocks"
  ev_net :: net
  ev_gcs :: "('g, 'w) gcs"
  ev_pid :: nat
  ev_fuel :: nat

definition fresh_engine ::
  "('b, 'g) git_source \<Rightarrow> disk_cache \<Rightarrow> 'c memory_cache \<Rightarrow> ('c, 'b, 'g) git_engine" where
  "fresh_engine source disk memory =
     \<lparr>ge_source = source, ge_disk = disk, ge_memory = memory, ge_trees = [], ge_root = None, ge_commit = None\<rparr>"

definition engine_new_http :: "('c, 'b, 'g, 'w) env \<Rightarrow> string \<Rightarrow> files \<Rightarrow> ('c, 'b, 'g) git_engine result" where
  "engine_new_http ev repo_url fs =
     res_bind (disk_cache_new (ev_os ev) fs) (\<lambda>disk.
       Inr (fresh_engine (Http_Source (http_client_new repo_url)) disk (memory_cache_new (ev_mem ev) 2048)))"

definition engine_new_gcs ::
  "('c, 'b, 'g, 'w) env \<Rightarrow> string \<Rightarrow> files \<Rightarrow> files \<Rightarrow> 'g \<Rightarrow> ('c, 'b, 'g) git_engine result" where
  "engine_new_gcs ev prefix repo_files fs g =
     res_bind (gcs_storage_new (ev_os ev) (ev_blocks ev) (ev_gcs ev) prefix repo_files g) (\<lambda>storage.
     res_bind (disk_cache_new (ev_os ev) fs) (\<lambda>disk.
       Inr (fresh_engine (Gcs_Source storage) disk (memory_cache_new (ev_mem ev) 4096))))"

text \<open>\<open>new_auto\<close>: the bucket and the prefix of a \<open>gs://\<close> target.\<close>

definition split_target :: "string \<Rightarrow> (string \<times> string) option" where
  "split_target repo_target =
     (case strip_prefix ''gs://'' repo_target of
        None \<Rightarrow> None
      | Some without \<Rightarrow>
          (case position (\<lambda>c. c = CHR ''/'') without of
             Some i \<Rightarrow> Some (take i without, drop (i + 1) without)
           | None \<Rightarrow> Some (without, [])))"

definition get_tree :: "('c, 'b, 'g) git_engine \<Rightarrow> string \<Rightarrow> git_tree option" where
  "get_tree e oid = hm_get (ge_trees e) oid"

text \<open>What the inode table reads from the engine.\<close>

definition engine_view :: "('c, 'b, 'g, 'w) env \<Rightarrow> ('c, 'b, 'g) git_engine \<Rightarrow> repo_view" where
  "engine_view ev e =
     \<lparr>rv_tree = get_tree e, rv_mem = (\<lambda>oid. snd (memory_get (ev_mem ev) oid (ge_memory e))),
      rv_disk_size = disk_blob_size (ev_os ev) (ge_disk e)\<rparr>"

section \<open>Blobs\<close>

text \<open>A blob enters the memory cache and the disk cache; a failure of the disk is ignored.\<close>

definition store_blob ::
  "('c, 'b, 'g, 'w) env \<Rightarrow> string \<Rightarrow> bytes \<Rightarrow> ('c, 'b, 'g) git_engine \<Rightarrow> ('c, 'b, 'g) git_engine" where
  "store_blob ev oid data e =
     e\<lparr>ge_memory := memory_put (ev_mem ev) oid data (ge_memory e),
       ge_disk := fst (disk_put_blob (ev_os ev) oid data (ge_disk e))\<rparr>"

fun store_objects ::
  "('c, 'b, 'g, 'w) env \<Rightarrow> (string \<times> git_raw_object) list \<Rightarrow> ('c, 'b, 'g) git_engine \<Rightarrow> ('c, 'b, 'g) git_engine" where
  "store_objects ev [] e = e"
| "store_objects ev ((oid, obj) # obs) e = store_objects ev obs (store_blob ev oid (ro_data obj) e)"

definition memory_lookup ::
  "('c, 'b, 'g, 'w) env \<Rightarrow> string \<Rightarrow> ('c, 'b, 'g) git_engine \<Rightarrow> ('c, 'b, 'g) git_engine \<times> bytes option" where
  "memory_lookup ev oid e =
     (case memory_get (ev_mem ev) oid (ge_memory e) of (m, v) \<Rightarrow> (e\<lparr>ge_memory := m\<rparr>, v))"

definition fetch_http ::
  "('c, 'b, 'g, 'w) env \<Rightarrow> http_client \<Rightarrow> string \<Rightarrow> ('c, 'b, 'g) git_engine \<Rightarrow> ('c, 'b, 'g) git_engine \<times> bytes result" where
  "fetch_http ev client oid e =
     (case fetch_blob_pack (ev_net ev) oid client of
        (client', r) \<Rightarrow>
          and_then (e\<lparr>ge_source := Http_Source client'\<rparr>, res_bind r (unpack_packfile (ev_ext ev))) (\<lambda>e objects.
            let e = store_objects ev objects e in
            case hm_get objects oid of
              Some obj \<Rightarrow> (e, Inr (ro_data obj))
            | None \<Rightarrow>
                (case memory_lookup ev oid e of
                   (e, Some data) \<Rightarrow> (e, Inr data)
                 | (e, None) \<Rightarrow> (e, Inl (E_Repo Repo_NoBlob)))))"

definition read_source ::
  "('c, 'b, 'g, 'w) env \<Rightarrow> ('b, 'g) gcs_storage \<Rightarrow> string \<Rightarrow> ('c, 'b, 'g) git_engine \<Rightarrow>
   (('c, 'b, 'g) git_engine \<times> git_raw_object result) option" where
  "read_source ev storage oid e =
     map_option (\<lambda>(storage', r). (e\<lparr>ge_source := Gcs_Source storage'\<rparr>, r))
       (read_object_raw (ev_ext ev) (ev_os ev) (ev_blocks ev) (ev_pid ev) (ev_gcs ev) (ev_fuel ev) oid storage)"

definition fetch_blob ::
  "('c, 'b, 'g, 'w) env \<Rightarrow> string \<Rightarrow> ('c, 'b, 'g) git_engine \<Rightarrow> (('c, 'b, 'g) git_engine \<times> bytes result) option" where
  "fetch_blob ev oid e =
     (case ge_source e of
        Http_Source client \<Rightarrow> Some (fetch_http ev client oid e)
      | Gcs_Source storage \<Rightarrow>
          fuel_then (read_source ev storage oid e) (\<lambda>e raw.
            Some (store_blob ev oid (ro_data raw) e, Inr (ro_data raw))))"

definition get_blob ::
  "('c, 'b, 'g, 'w) env \<Rightarrow> string \<Rightarrow> ('c, 'b, 'g) git_engine \<Rightarrow> (('c, 'b, 'g) git_engine \<times> bytes result) option" where
  "get_blob ev blob_oid e =
     (case memory_lookup ev blob_oid e of
        (e, Some data) \<Rightarrow> Some (e, Inr data)
      | (e, None) \<Rightarrow>
          (case disk_get_blob (ev_os ev) blob_oid (ge_disk e) of
             (d, Some data) \<Rightarrow>
               Some (e\<lparr>ge_disk := d, ge_memory := memory_put (ev_mem ev) blob_oid data (ge_memory e)\<rparr>, Inr data)
           | (d, None) \<Rightarrow> fetch_blob ev blob_oid (e\<lparr>ge_disk := d\<rparr>)))"

text \<open>The blobs of a directory that neither cache has.\<close>

fun missing_blobs ::
  "('c, 'b, 'g, 'w) env \<Rightarrow> git_tree_entry list \<Rightarrow> ('c, 'b, 'g) git_engine \<Rightarrow> ('c, 'b, 'g) git_engine \<times> string list" where
  "missing_blobs ev [] e = (e, [])"
| "missing_blobs ev (entry # es) e =
     (if mode_is_dir (te_mode entry) then missing_blobs ev es e
      else (case memory_lookup ev (te_oid entry) e of
              (e, v) \<Rightarrow>
                (case missing_blobs ev es e of
                   (e', oids) \<Rightarrow>
                     (e', if v = None \<and> \<not> disk_has_blob (ev_os ev) (ge_disk e) (te_oid entry) then te_oid entry # oids else oids))))"

function batches :: "nat \<Rightarrow> 'a list \<Rightarrow> 'a list list" where
  "batches n xs = (if xs = [] then [] else take (max n 1) xs # batches n (drop (max n 1) xs))"
  by pat_completeness auto
termination
  by (relation "measure (\<lambda>(n, xs). length xs)") auto

declare batches.simps [simp del]

fun prefetch_http ::
  "('c, 'b, 'g, 'w) env \<Rightarrow> http_client \<Rightarrow> string list list \<Rightarrow> nat \<Rightarrow> ('c, 'b, 'g) git_engine \<Rightarrow>
   ('c, 'b, 'g) git_engine \<times> nat result" where
  "prefetch_http ev client [] total_fetched e = (e, Inr total_fetched)"
| "prefetch_http ev client (chunk # cs) total_fetched e =
     (case fetch_blobs_pack (ev_net ev) chunk client of
        (client', r) \<Rightarrow>
          and_then (e\<lparr>ge_source := Http_Source client'\<rparr>, r) (\<lambda>e pack.
            if pack = [] then prefetch_http ev client' cs total_fetched e
            else (case unpack_packfile (ev_ext ev) pack of
                    Inl err \<Rightarrow> (e, Inl err)
                  | Inr objects \<Rightarrow>
                      prefetch_http ev client' cs (total_fetched + length objects) (store_objects ev objects e))))"

fun prefetch_gcs ::
  "('c, 'b, 'g, 'w) env \<Rightarrow> string list \<Rightarrow> nat \<Rightarrow> ('c, 'b, 'g) git_engine \<Rightarrow>
   (('c, 'b, 'g) git_engine \<times> nat result) option" where
  "prefetch_gcs ev [] total_fetched e = Some (e, Inr total_fetched)"
| "prefetch_gcs ev (oid # oids) total_fetched e =
     (case ge_source e of
        Http_Source _ \<Rightarrow> Some (e, Inr total_fetched)
      | Gcs_Source storage \<Rightarrow>
          (case read_source ev storage oid e of
             None \<Rightarrow> None
           | Some (e, Inl _) \<Rightarrow> prefetch_gcs ev oids total_fetched e
           | Some (e, Inr raw) \<Rightarrow> prefetch_gcs ev oids (total_fetched + 1) (store_blob ev oid (ro_data raw) e)))"

definition prefetch_directory_blobs ::
  "('c, 'b, 'g, 'w) env \<Rightarrow> string \<Rightarrow> ('c, 'b, 'g) git_engine \<Rightarrow> (('c, 'b, 'g) git_engine \<times> nat result) option" where
  "prefetch_directory_blobs ev tree_oid e =
     (case get_tree e tree_oid of
        None \<Rightarrow> Some (e, Inr 0)
      | Some tree \<Rightarrow>
          (case missing_blobs ev (tree_entries tree) e of
             (e, missing_oids) \<Rightarrow>
               (case ge_source e of
                  Http_Source client \<Rightarrow> Some (prefetch_http ev client (batches 64 missing_oids) 0 e)
                | Gcs_Source _ \<Rightarrow> prefetch_gcs ev missing_oids 0 e)))"

section \<open>Initialisation\<close>

text \<open>The root tree named by a commit.\<close>

fun commit_tree :: "string list \<Rightarrow> string option" where
  "commit_tree [] = None"
| "commit_tree (line # ls) =
     (if starts_with ''tree '' line then Some (trim (strip_any [''tree ''] line)) else commit_tree ls)"

definition root_of_commit :: "bytes \<Rightarrow> string option" where
  "root_of_commit data = commit_tree (lines (from_utf8_lossy data))"

fun insert_trees :: "ext \<Rightarrow> (string \<times> git_raw_object) list \<Rightarrow> (string, git_tree) hmap \<Rightarrow> (string, git_tree) hmap" where
  "insert_trees X [] trees = trees"
| "insert_trees X ((oid, obj) # obs) trees =
     insert_trees X obs
       (if ro_type obj = Tree_Type then
          (case git_tree_parse X (ro_data obj) of Inr t \<Rightarrow> hm_put oid t trees | Inl _ \<Rightarrow> trees)
        else trees)"

text \<open>The pack of the trees of a commit, from the disk cache or from the remote.\<close>

definition tree_pack ::
  "('c, 'b, 'g, 'w) env \<Rightarrow> http_client \<Rightarrow> string \<Rightarrow> ('c, 'b, 'g) git_engine \<Rightarrow> ('c, 'b, 'g) git_engine \<times> bytes result" where
  "tree_pack ev client commit_oid e =
     (case disk_get_tree_pack (ev_os ev) (ge_disk e) commit_oid of
        Some cached_pack \<Rightarrow> (e, Inr cached_pack)
      | None \<Rightarrow>
          (case fetch_trees_pack (ev_net ev) commit_oid client of
             (client', r) \<Rightarrow>
               and_then (e\<lparr>ge_source := Http_Source client'\<rparr>, r) (\<lambda>e pack.
                 (e\<lparr>ge_disk := fst (disk_put_tree_pack (ev_os ev) commit_oid pack (ge_disk e))\<rparr>, Inr pack))))"

definition initialize_http ::
  "('c, 'b, 'g, 'w) env \<Rightarrow> http_client \<Rightarrow> string option \<Rightarrow> ('c, 'b, 'g) git_engine \<Rightarrow>
   ('c, 'b, 'g) git_engine \<times> string result" where
  "initialize_http ev client branch e =
     (case http_resolve_head (ev_net ev) branch client of
        (client', r) \<Rightarrow>
          and_then (e\<lparr>ge_source := Http_Source client'\<rparr>, r) (\<lambda>e (commit_oid, _).
          and_then (tree_pack ev client' commit_oid (e\<lparr>ge_commit := Some commit_oid\<rparr>)) (\<lambda>e pack.
            case unpack_packfile (ev_ext ev) pack of
              Inl err \<Rightarrow> (e, Inl err)
            | Inr objects \<Rightarrow>
                (let e = e\<lparr>ge_trees := insert_trees (ev_ext ev) objects (ge_trees e)\<rparr> in
                 case (case hm_get objects commit_oid of Some obj \<Rightarrow> root_of_commit (ro_data obj) | None \<Rightarrow> None) of
                   None \<Rightarrow> (e, Inl (E_Repo Repo_NoRoot))
                 | Some root \<Rightarrow> (e\<lparr>ge_root := Some root\<rparr>, Inr root)))))"

text \<open>One tree of a wave: parsed and filed, its new directories join the next wave.\<close>

fun new_dirs :: "git_tree_entry list \<Rightarrow> string list \<Rightarrow> string list \<Rightarrow> string list \<times> string list" where
  "new_dirs [] visited next = (visited, next)"
| "new_dirs (entry # es) visited next =
     (if mode_is_dir (te_mode entry) \<and> te_oid entry \<notin> set visited
      then new_dirs es (te_oid entry # visited) (next @ [te_oid entry])
      else new_dirs es visited next)"

fun tree_wave ::
  "('c, 'b, 'g, 'w) env \<Rightarrow> string list \<Rightarrow> string list \<Rightarrow> string list \<Rightarrow> ('c, 'b, 'g) git_engine \<Rightarrow>
   (('c, 'b, 'g) git_engine \<times> string list \<times> string list) option" where
  "tree_wave ev [] visited next e = Some (e, visited, next)"
| "tree_wave ev (oid # oids) visited next e =
     (case ge_source e of
        Http_Source _ \<Rightarrow> Some (e, visited, next)
      | Gcs_Source storage \<Rightarrow>
          (case read_source ev storage oid e of
             None \<Rightarrow> None
           | Some (e, Inl _) \<Rightarrow> tree_wave ev oids visited next e
           | Some (e, Inr raw) \<Rightarrow>
               (case git_tree_parse (ev_ext ev) (ro_data raw) of
                  Inl _ \<Rightarrow> tree_wave ev oids visited next e
                | Inr t \<Rightarrow>
                    (case new_dirs (tree_entries t) visited next of
                       (visited, next) \<Rightarrow>
                         tree_wave ev oids visited next (e\<lparr>ge_trees := hm_put oid t (ge_trees e)\<rparr>)))))"

fun tree_waves ::
  "('c, 'b, 'g, 'w) env \<Rightarrow> nat \<Rightarrow> string list \<Rightarrow> string list \<Rightarrow> ('c, 'b, 'g) git_engine \<Rightarrow> ('c, 'b, 'g) git_engine option" where
  "tree_waves ev 0 current_level visited e = None"
| "tree_waves ev (Suc n) current_level visited e =
     (if current_level = [] then Some e
      else (case ge_source e of
              Http_Source _ \<Rightarrow> Some e
            | Gcs_Source storage \<Rightarrow>
                (case tree_wave ev current_level visited []
                     (e\<lparr>ge_source := Gcs_Source (prefetch_blocks_for_objects (ev_ext ev) (ev_os ev) (ev_blocks ev)
                          (ev_pid ev) (ev_gcs ev) current_level storage)\<rparr>) of
                   None \<Rightarrow> None
                 | Some (e, visited, next_level) \<Rightarrow> tree_waves ev n next_level visited e)))"

definition initialize_gcs ::
  "('c, 'b, 'g, 'w) env \<Rightarrow> ('b, 'g) gcs_storage \<Rightarrow> string option \<Rightarrow> ('c, 'b, 'g) git_engine \<Rightarrow>
   (('c, 'b, 'g) git_engine \<times> string result) option" where
  "initialize_gcs ev storage branch e =
     (case gcs_resolve_head (ev_gcs ev) branch storage of
        Inl err \<Rightarrow> Some (e, Inl err)
      | Inr (commit_oid, _) \<Rightarrow>
          fuel_then (read_source ev storage commit_oid (e\<lparr>ge_commit := Some commit_oid\<rparr>)) (\<lambda>e commit_raw.
            case root_of_commit (ro_data commit_raw) of
              None \<Rightarrow> Some (e, Inl (E_Repo Repo_NoRoot))
            | Some root \<Rightarrow>
                map_option (\<lambda>e. (e\<lparr>ge_root := Some root\<rparr>, Inr root)) (tree_waves ev (ev_fuel ev) [root] [root] e)))"

definition engine_initialize ::
  "('c, 'b, 'g, 'w) env \<Rightarrow> string option \<Rightarrow> ('c, 'b, 'g) git_engine \<Rightarrow> (('c, 'b, 'g) git_engine \<times> string result) option" where
  "engine_initialize ev branch e =
     (case ge_source e of
        Http_Source client \<Rightarrow> Some (initialize_http ev client branch e)
      | Gcs_Source storage \<Rightarrow> initialize_gcs ev storage branch e)"

section \<open>Recovered objects\<close>

fun apply_objects ::
  "('c, 'b, 'g, 'w) env \<Rightarrow> git_object_to_pack list \<Rightarrow> ('c, 'b, 'g) git_engine \<Rightarrow> ('c, 'b, 'g) git_engine" where
  "apply_objects ev [] e = e"
| "apply_objects ev (obj # obs) e =
     apply_objects ev obs
       (if gp_type obj = Tree_Type then
          (case git_tree_parse (ev_ext ev) (gp_data obj) of
             Inr t \<Rightarrow> e\<lparr>ge_trees := hm_put (gp_oid obj) t (ge_trees e)\<rparr>
           | Inl _ \<Rightarrow> e)
        else if gp_type obj = Blob_Type then store_blob ev (gp_oid obj) (gp_data obj) e
        else e)"

definition apply_recovered_objects ::
  "('c, 'b, 'g, 'w) env \<Rightarrow> string \<Rightarrow> string \<Rightarrow> git_object_to_pack list \<Rightarrow> ('c, 'b, 'g) git_engine \<Rightarrow> ('c, 'b, 'g) git_engine" where
  "apply_recovered_objects ev commit_oid root_tree_oid objects e =
     apply_objects ev objects (e\<lparr>ge_commit := Some commit_oid, ge_root := Some root_tree_oid\<rparr>)"

end
