(* ===== verification/Engine_Spec.thy ===== *)
theory Engine_Spec
  imports Git_Engine
begin

text \<open>
  What the git engine promises over HTTP: a blob or tree it hands out hashes to the id it is filed
  under, whatever the server sends, as long as the disk does not tear a write; and what a torn
  write does.
\<close>

section \<open>Unpacked objects are filed under their hash\<close>

definition verified :: "ext \<Rightarrow> string \<Rightarrow> object_type \<Rightarrow> bytes \<Rightarrow> bool" where
  "verified X oid ty data \<longleftrightarrow> oid = compute_git_sha1 X ty data"

definition shas_ok :: "ext \<Rightarrow> (string, git_raw_object) hmap \<Rightarrow> bool" where
  "shas_ok X m \<longleftrightarrow> (\<forall>oid ob. (oid, ob) \<in> set m \<longrightarrow> verified X oid (ro_type ob) (ro_data ob))"

lemma set_hm_put: "set (hm_put k v m) \<subseteq> insert (k, v) (set m)"
  by (induction m) auto

lemma add_object_shas: "shas_ok X (us_by_sha st) \<Longrightarrow> shas_ok X (us_by_sha (add_object X off ty d st))"
  using set_hm_put [of "compute_git_sha1 X ty d" "\<lparr>ro_type = ty, ro_data = d\<rparr>" "us_by_sha st"]
  by (fastforce simp: add_object_def shas_ok_def verified_def Let_def)

lemma unpack_object_shas:
  assumes "unpack_object X pack st = Inr st'" "shas_ok X (us_by_sha st)"
  shows "shas_ok X (us_by_sha st')"
  using assms add_object_shas [of X "st\<lparr>us_pos := p\<rparr>" for p]
  by (auto simp: unpack_object_def Let_def res_bind_Inr_iff add_pending_def split: if_splits object_type.splits prod.splits)

lemma unpack_objects_shas:
  "unpack_objects X pack n st = Inr st' \<Longrightarrow> shas_ok X (us_by_sha st) \<Longrightarrow> shas_ok X (us_by_sha st')"
  by (induction n arbitrary: st) (auto simp: res_bind_Inr_iff dest: unpack_object_shas)

lemma resolve_pass_shas:
  "resolve_pass X items st rem = Inr (st', rem') \<Longrightarrow> shas_ok X (us_by_sha st) \<Longrightarrow> shas_ok X (us_by_sha st')"
proof (induction X items st rem rule: resolve_pass.induct)
  case (2 X item items st rem)
  then show ?case by (auto simp: add_object_shas split: option.splits sum.splits)
qed auto

lemma resolve_loop_shas:
  "resolve_loop X pending st = Inr st' \<Longrightarrow> shas_ok X (us_by_sha st) \<Longrightarrow> shas_ok X (us_by_sha st')"
proof (induction X pending st rule: resolve_loop.induct)
  case (1 X pending st)
  show ?case
  proof (cases "pending = []")
    case True
    then show ?thesis using "1.prems" by (simp add: resolve_loop.simps)
  next
    case False
    then obtain st1 rem where p: "resolve_pass X pending st [] = Inr (st1, rem)" "length rem \<noteq> length pending"
      "resolve_loop X rem st1 = Inr st'"
      using "1.prems"(1) by (auto simp: resolve_loop.simps [of X pending st] split: sum.splits if_splits)
    show ?thesis
      by (rule "1.IH" [OF False p(1) refl p(2,3) resolve_pass_shas [OF p(1) "1.prems"(2)]])
  qed
qed

lemma unpack_shas: "unpack_packfile X pack = Inr m \<Longrightarrow> shas_ok X m"
proof -
  assume u: "unpack_packfile X pack = Inr m"
  obtain st st' where r: "unpack_objects X pack (from_be (slice 8 12 pack))
      \<lparr>us_by_offset = [], us_by_sha = [], us_pending = [], us_pos = 12\<rparr> = Inr st"
    "resolve_loop X (us_pending st) st = Inr st'" "m = us_by_sha st'"
    using u by (auto simp: unpack_packfile_def Let_def res_bind_Inr_iff split: if_splits)
  have "shas_ok X (us_by_sha st)" by (rule unpack_objects_shas [OF r(1)]) (simp add: shas_ok_def)
  then show "shas_ok X m" unfolding r(3) by (rule resolve_loop_shas [OF r(2)])
qed

section \<open>The invariant\<close>

text \<open>A write that was begun and fails leaves nothing behind.\<close>

definition no_torn_writes :: "os \<Rightarrow> bool" where
  "no_torn_writes os \<longleftrightarrow> (\<forall>p. os_ok os (Fs_Create p) \<longrightarrow> os_ok os (Fs_Write p))"

definition blobs_verified :: "('c, 'b, 'g, 'w) env \<Rightarrow> ('c, 'b, 'g) git_engine \<Rightarrow> bool" where
  "blobs_verified ev e \<longleftrightarrow>
     (\<forall>oid d. lru_at (ev_mem ev) (mc_cache (ge_memory e)) oid = Some d \<longrightarrow> (\<exists>ty. verified (ev_ext ev) oid ty d)) \<and>
     (\<forall>oid d. hm_get (dc_files (ge_disk e)) (blob_path oid) = Some d \<longrightarrow> (\<exists>ty. verified (ev_ext ev) oid ty d))"

definition trees_verified :: "('c, 'b, 'g, 'w) env \<Rightarrow> ('c, 'b, 'g) git_engine \<Rightarrow> bool" where
  "trees_verified ev e \<longleftrightarrow>
     (\<forall>oid t. hm_get (ge_trees e) oid = Some t \<longrightarrow>
        (\<exists>d. verified (ev_ext ev) oid Tree_Type d \<and> git_tree_parse (ev_ext ev) d = Inr t))"

definition engine_verified :: "('c, 'b, 'g, 'w) env \<Rightarrow> ('c, 'b, 'g) git_engine \<Rightarrow> bool" where
  "engine_verified ev e \<longleftrightarrow> blobs_verified ev e \<and> trees_verified ev e"

definition safe_env :: "('c, 'b, 'g, 'w) env \<Rightarrow> bool" where
  "safe_env ev \<longleftrightarrow> lru_laws (ev_mem ev) \<and> no_torn_writes (ev_os ev)"

lemma verified_update [simp]:
  "engine_verified ev (e\<lparr>ge_source := a\<rparr>) = engine_verified ev e"
  "engine_verified ev (e\<lparr>ge_commit := b\<rparr>) = engine_verified ev e"
  "engine_verified ev (e\<lparr>ge_root := b\<rparr>) = engine_verified ev e"
  by (simp_all add: engine_verified_def blobs_verified_def trees_verified_def)

lemma disk_write_get:
  assumes "no_torn_writes os"
  shows "hm_get (dc_files (fst (disk_write os p data d))) q = Some c \<Longrightarrow> hm_get (dc_files d) q = Some c \<or> (q = p \<and> c = data)"
  using assms by (auto simp: disk_write_def fs_write_def no_torn_writes_def split: if_splits)

lemma store_blob_verified:
  assumes "safe_env ev" "engine_verified ev e" "verified (ev_ext ev) oid ty data"
  shows "engine_verified ev (store_blob ev oid data e)"
proof -
  have "blobs_verified ev (store_blob ev oid data e)"
    unfolding blobs_verified_def
  proof (intro conjI allI impI)
    fix k d
    assume "lru_at (ev_mem ev) (mc_cache (ge_memory (store_blob ev oid data e))) k = Some d"
    then have "(k = oid \<and> d = data) \<or> lru_at (ev_mem ev) (mc_cache (ge_memory e)) k = Some d"
      using assms(1) by (auto simp: store_blob_def memory_put_def safe_env_def dest: lru_put_at)
    then show "\<exists>ty. verified (ev_ext ev) k ty d"
      using assms(2,3) unfolding engine_verified_def blobs_verified_def by blast
  next
    fix k d
    assume "hm_get (dc_files (ge_disk (store_blob ev oid data e))) (blob_path k) = Some d"
    then have "hm_get (dc_files (ge_disk e)) (blob_path k) = Some d \<or> (k = oid \<and> d = data)"
      using assms(1) disk_write_get [of "ev_os ev" "blob_path oid" data "ge_disk e" "blob_path k" d]
      by (auto simp: store_blob_def disk_put_blob_def safe_env_def blob_path_inject)
    then show "\<exists>ty. verified (ev_ext ev) k ty d"
      using assms(2,3) unfolding engine_verified_def blobs_verified_def by blast
  qed
  then show ?thesis using assms(2) by (simp add: engine_verified_def trees_verified_def store_blob_def)
qed

lemma store_objects_verified:
  "safe_env ev \<Longrightarrow> engine_verified ev e \<Longrightarrow> shas_ok (ev_ext ev) obs \<Longrightarrow> engine_verified ev (store_objects ev obs e)"
proof (induction ev obs e rule: store_objects.induct)
  case (2 ev oid obj obs e)
  then have "engine_verified ev (store_blob ev oid (ro_data obj) e)" "shas_ok (ev_ext ev) obs"
    using store_blob_verified [of ev e oid "ro_type obj"] by (auto simp: shas_ok_def)
  then show ?case using 2 by simp
qed simp

lemma memory_lookup_verified:
  assumes "safe_env ev" "engine_verified ev e" "memory_lookup ev oid e = (e', v)"
  shows "engine_verified ev e'" "v = Some d \<Longrightarrow> \<exists>ty. verified (ev_ext ev) oid ty d" "ge_source e' = ge_source e"
    "ge_disk e' = ge_disk e"
proof -
  have L: "lru_laws (ev_mem ev)" using assms(1) by (simp add: safe_env_def)
  obtain m where m: "memory_get (ev_mem ev) oid (ge_memory e) = (m, v)" "e' = e\<lparr>ge_memory := m\<rparr>"
    using assms(3) by (auto simp: memory_lookup_def split: prod.splits)
  obtain c w where c: "lc_get (ev_mem ev) oid (mc_cache (ge_memory e)) = (c, w)" by fastforce
  have "w = lru_at (ev_mem ev) (mc_cache (ge_memory e)) oid" "lru_at (ev_mem ev) c = lru_at (ev_mem ev) (mc_cache (ge_memory e))"
    using lru_get [OF L, of oid "mc_cache (ge_memory e)"] c by simp_all
  moreover have "v = w" "mc_cache m = c" using m(1) c by (auto simp: memory_get_def split: option.splits)
  ultimately show "engine_verified ev e'" "v = Some d \<Longrightarrow> \<exists>ty. verified (ev_ext ev) oid ty d"
    using assms(2) m(2) by (auto simp: engine_verified_def blobs_verified_def trees_verified_def)
  show "ge_source e' = ge_source e" "ge_disk e' = ge_disk e" using m(2) by simp_all
qed

section \<open>Operations\<close>

lemma shas_ok_get: "shas_ok X m \<Longrightarrow> hm_get m oid = Some ob \<Longrightarrow> verified X oid (ro_type ob) (ro_data ob)"
  by (auto simp: shas_ok_def dest: map_of_SomeD)

lemma disk_get_files [simp]: "dc_files (fst (disk_get_blob os oid d)) = dc_files d"
  by (simp add: disk_get_blob_def split: option.split)

lemma fetch_http_verified:
  assumes "safe_env ev" "engine_verified ev e" "fetch_http ev c oid e = (e', r)"
  shows "engine_verified ev e' \<and> (\<forall>d. r = Inr d \<longrightarrow> (\<exists>ty. verified (ev_ext ev) oid ty d))"
proof -
  obtain c' q where q: "fetch_blob_pack (ev_net ev) oid c = (c', q)" by fastforce
  define e0 where "e0 = e\<lparr>ge_source := Http_Source c'\<rparr>"
  have e0: "engine_verified ev e0" using assms(2) by (simp add: e0_def)
  show ?thesis
  proof (cases "res_bind q (unpack_packfile (ev_ext ev))")
    case (Inl err)
    then show ?thesis using assms(3) q e0 by (auto simp: fetch_http_def e0_def)
  next
    case (Inr obs)
    then have sh: "shas_ok (ev_ext ev) obs" by (auto simp: res_bind_Inr_iff dest: unpack_shas)
    define e1 where "e1 = store_objects ev obs e0"
    have e1: "engine_verified ev e1" unfolding e1_def by (rule store_objects_verified [OF assms(1) e0 sh])
    show ?thesis
    proof (cases "hm_get obs oid")
      case (Some ob)
      then have "e' = e1" "r = Inr (ro_data ob)" using assms(3) q Inr by (auto simp: fetch_http_def e1_def e0_def Let_def)
      then show ?thesis using e1 shas_ok_get [OF sh Some] by auto
    next
      case None
      obtain e2 v where ml: "memory_lookup ev oid e1 = (e2, v)" by fastforce
      then have "e' = e2" "r = (case v of Some d \<Rightarrow> Inr d | None \<Rightarrow> Inl (E_Repo Repo_NoBlob))"
        using assms(3) q Inr None by (auto simp: fetch_http_def e1_def e0_def Let_def split: option.splits)
      then show ?thesis using memory_lookup_verified(1,2) [OF assms(1) e1 ml] by (auto split: option.splits)
    qed
  qed
qed

lemma get_blob_verified:
  assumes S: "safe_env ev" and V: "engine_verified ev e" and src: "ge_source e = Http_Source c"
  shows "\<exists>e' r. get_blob ev oid e = Some (e', r) \<and> engine_verified ev e' \<and>
    (\<forall>d. r = Inr d \<longrightarrow> (\<exists>ty. verified (ev_ext ev) oid ty d))"
proof -
  obtain e1 v where ml: "memory_lookup ev oid e = (e1, v)" by fastforce
  note M = memory_lookup_verified [OF S V ml]
  show ?thesis
  proof (cases v)
    case (Some d)
    then show ?thesis using M(1,2) by (simp add: get_blob_def ml)
  next
    case None
    obtain dk w where dg: "disk_get_blob (ev_os ev) oid (ge_disk e1) = (dk, w)" by fastforce
    have files: "dc_files dk = dc_files (ge_disk e1)" using disk_get_files [of "ev_os ev" oid "ge_disk e1"] dg by simp
    define e2 where "e2 = e1\<lparr>ge_disk := dk\<rparr>"
    have e2: "engine_verified ev e2"
      using M(1) files by (simp add: e2_def engine_verified_def blobs_verified_def trees_verified_def)
    show ?thesis
    proof (cases w)
      case (Some d)
      have "hm_get (dc_files (ge_disk e1)) (blob_path oid) = Some d"
        using dg Some by (auto simp: disk_get_blob_def split: option.splits dest: fs_read_Some)
      then have d: "\<exists>ty. verified (ev_ext ev) oid ty d" using M(1) by (simp add: engine_verified_def blobs_verified_def)
      have L: "lru_laws (ev_mem ev)" using S by (simp add: safe_env_def)
      have "engine_verified ev (e1\<lparr>ge_disk := dk, ge_memory := memory_put (ev_mem ev) oid d (ge_memory e1)\<rparr>)"
        using e2 d by (auto simp: e2_def engine_verified_def blobs_verified_def trees_verified_def memory_put_def
            dest!: lru_put_at [OF L])
      then show ?thesis using d by (simp add: get_blob_def ml None dg Some)
    next
      case w: None
      obtain e3 r where f: "fetch_http ev c oid e2 = (e3, r)" by fastforce
      have "get_blob ev oid e = Some (e3, r)"
        using f by (simp add: get_blob_def ml None dg w fetch_blob_def e2_def M(3) src)
      then show ?thesis using fetch_http_verified [OF S e2 f] by blast
    qed
  qed
qed

lemma insert_trees_get:
  "hm_get (insert_trees X obs trees) oid = Some t \<Longrightarrow> shas_ok X obs \<Longrightarrow>
   hm_get trees oid = Some t \<or> (\<exists>d. verified X oid Tree_Type d \<and> git_tree_parse X d = Inr t)"
proof (induction X obs trees rule: insert_trees.induct)
  case (2 X k obj obs trees)
  have sh: "shas_ok X obs" "verified X k (ro_type obj) (ro_data obj)" using "2.prems"(2) by (simp_all add: shas_ok_def)
  show ?case
  proof (cases "ro_type obj = Tree_Type")
    case True
    then show ?thesis using 2 sh by (cases "git_tree_parse X (ro_data obj)") (auto split: if_splits)
  next
    case False
    then show ?thesis using 2 sh by simp
  qed
qed simp

lemma tree_pack_verified:
  assumes S: "safe_env ev" and V: "engine_verified ev e"
  shows "engine_verified ev (fst (tree_pack ev c oid e))"
proof -
  obtain c' q where q: "fetch_trees_pack (ev_net ev) oid c = (c', q)" by fastforce
  have "engine_verified ev (e\<lparr>ge_source := x, ge_disk := fst (disk_put_tree_pack (ev_os ev) oid pack (ge_disk e))\<rparr>)" for x pack
  proof -
    have "hm_get (dc_files (fst (disk_put_tree_pack (ev_os ev) oid pack (ge_disk e)))) (blob_path k) = Some d \<Longrightarrow>
        hm_get (dc_files (ge_disk e)) (blob_path k) = Some d" for k d
      using disk_write_get [of "ev_os ev" "tree_pack_path oid" pack "ge_disk e" "blob_path k" d] S
      by (auto simp: disk_put_tree_pack_def safe_env_def)
    then show ?thesis using V by (auto simp: engine_verified_def blobs_verified_def trees_verified_def)
  qed
  then show ?thesis using V by (cases q) (auto simp: tree_pack_def q split: option.split)
qed

lemma http_initialized_verified:
  assumes S: "safe_env ev" and V: "engine_verified ev e"
  shows "engine_verified ev (fst (initialize_http ev c branch e))"
proof -
  obtain c' q where q: "http_resolve_head (ev_net ev) branch c = (c', q)" by fastforce
  show ?thesis
  proof (cases q)
    case (Inl err)
    then show ?thesis using V by (simp add: initialize_http_def q)
  next
    case (Inr p)
    obtain oid b where p: "p = (oid, b)" by (cases p)
    let ?e = "e\<lparr>ge_source := Http_Source c', ge_commit := Some oid\<rparr>"
    obtain e1 tp where tp: "tree_pack ev c' oid ?e = (e1, tp)" by fastforce
    have e1: "engine_verified ev e1" using tree_pack_verified [OF S, of ?e c' oid] V tp by simp
    have e2: "engine_verified ev (e1\<lparr>ge_trees := insert_trees (ev_ext ev) m (ge_trees e1)\<rparr>)"
      if "unpack_packfile (ev_ext ev) pack = Inr m" for pack m
    proof -
      have "trees_verified ev (e1\<lparr>ge_trees := insert_trees (ev_ext ev) m (ge_trees e1)\<rparr>)"
        unfolding trees_verified_def
      proof (intro allI impI)
        fix k t assume "hm_get (ge_trees (e1\<lparr>ge_trees := insert_trees (ev_ext ev) m (ge_trees e1)\<rparr>)) k = Some t"
        then show "\<exists>d. verified (ev_ext ev) k Tree_Type d \<and> git_tree_parse (ev_ext ev) d = Inr t"
          using insert_trees_get [OF _ unpack_shas [OF that], of "ge_trees e1" k t] e1
          by (auto simp: engine_verified_def trees_verified_def)
      qed
      then show ?thesis using e1 by (simp add: engine_verified_def blobs_verified_def)
    qed
    show ?thesis
    proof (cases tp)
      case tpl: (Inl err)
      then show ?thesis using e1 tp by (simp add: initialize_http_def q Inr p)
    next
      case tpr: (Inr pack)
      show ?thesis
      proof (cases "unpack_packfile (ev_ext ev) pack")
        case (Inl err)
        then show ?thesis using e1 tp tpr by (simp add: initialize_http_def q Inr p)
      next
        case m: (Inr m)
        have "fst (initialize_http ev c branch e) = e1\<lparr>ge_trees := insert_trees (ev_ext ev) m (ge_trees e1)\<rparr> \<or>
            (\<exists>r. fst (initialize_http ev c branch e) = e1\<lparr>ge_trees := insert_trees (ev_ext ev) m (ge_trees e1), ge_root := Some r\<rparr>)"
          using tp tpr m by (auto simp: initialize_http_def q Inr p Let_def split: option.splits)
        then show ?thesis using e2 [OF m] by auto
      qed
    qed
  qed
qed

text \<open>
  C23: every tree the engine holds after an initialisation over HTTP is the parse of data that hashes
  to the id it is filed under, whatever the server or the cached pack of the trees contain, and the
  invariant of the caches (blobs hash to their ids, which holds in every state of \<open>http_engine\<close>) is kept,
  when no write of the disk cache is torn: what can be created can be written.
\<close>

theorem http_initialize_verified:
  assumes S: "safe_env ev" and V: "engine_verified ev e"
  shows "engine_verified ev (fst (initialize_http ev c branch e))"
  by (rule http_initialized_verified [OF assms])

section \<open>Every engine that is ever run\<close>

text \<open>
  The engines over HTTP that processes reach one after the other on one cache directory, which is empty at first:
  each process opens the directory that the engines before it left, and each call may meet another server and
  other failures of the disk, but no torn write. The objects of a commit are filed under their hash.
\<close>

definition same_crates :: "('c, 'b, 'g, 'w) env \<Rightarrow> ('c, 'b, 'g, 'w) env \<Rightarrow> bool" where
  "same_crates ev0 ev \<longleftrightarrow> ev_ext ev = ev_ext ev0 \<and> ev_mem ev = ev_mem ev0 \<and> safe_env ev"

inductive http_engine :: "('c, 'b, 'g, 'w) env \<Rightarrow> ('c, 'b, 'g) git_engine \<Rightarrow> bool" for ev0 where
  first: "same_crates ev0 ev \<Longrightarrow> engine_new_http ev url [] = Inr e \<Longrightarrow> http_engine ev0 e"
| restart: "http_engine ev0 e0 \<Longrightarrow> same_crates ev0 ev \<Longrightarrow>
    engine_new_http ev url (dc_files (ge_disk e0)) = Inr e \<Longrightarrow> http_engine ev0 e"
| initialize: "http_engine ev0 e \<Longrightarrow> same_crates ev0 ev \<Longrightarrow>
    engine_initialize ev branch e = Some (e', r) \<Longrightarrow> http_engine ev0 e'"
| blob: "http_engine ev0 e \<Longrightarrow> same_crates ev0 ev \<Longrightarrow> get_blob ev oid e = Some (e', v) \<Longrightarrow> http_engine ev0 e'"
| prefetch: "http_engine ev0 e \<Longrightarrow> same_crates ev0 ev \<Longrightarrow>
    prefetch_directory_blobs ev oid e = Some (e', n) \<Longrightarrow> http_engine ev0 e'"
| recovered: "http_engine ev0 e \<Longrightarrow> same_crates ev0 ev \<Longrightarrow>
    list_all (\<lambda>ob. verified (ev_ext ev0) (gp_oid ob) (gp_type ob) (gp_data ob)) obs \<Longrightarrow>
    http_engine ev0 (apply_recovered_objects ev commit root obs e)"

definition http_ok :: "('c, 'b, 'g, 'w) env \<Rightarrow> ('c, 'b, 'g) git_engine \<Rightarrow> bool" where
  "http_ok ev e \<longleftrightarrow> engine_verified ev e \<and> (\<exists>c. ge_source e = Http_Source c)"

lemma http_ok_env: "same_crates ev0 ev \<Longrightarrow> http_ok ev e = http_ok ev0 e"
  by (simp add: same_crates_def http_ok_def engine_verified_def blobs_verified_def trees_verified_def)

lemma store_objects_source [simp]: "ge_source (store_objects ev obs e) = ge_source e"
  by (induction ev obs e rule: store_objects.induct) (simp_all add: store_blob_def)

lemma fetch_http_source: "fetch_http ev c oid e = (e', r) \<Longrightarrow> \<exists>c. ge_source e' = Http_Source c"
  by (auto simp: fetch_http_def and_then_def memory_lookup_def Let_def split: prod.splits sum.splits option.splits)

lemma get_blob_ok:
  assumes "safe_env ev" "http_ok ev e" "get_blob ev oid e = Some (e', r)"
  shows "http_ok ev e'"
proof -
  obtain c where c: "ge_source e = Http_Source c" using assms(2) by (auto simp: http_ok_def)
  have "\<exists>c. ge_source e' = Http_Source c"
    using assms(3) c fetch_http_source
    by (fastforce simp: get_blob_def fetch_blob_def memory_lookup_def split: prod.splits option.splits)
  then show ?thesis using get_blob_verified [OF assms(1) _ c, of oid] assms(2,3) by (auto simp: http_ok_def)
qed

lemma missing_blobs_ok:
  "safe_env ev \<Longrightarrow> http_ok ev e \<Longrightarrow> http_ok ev (fst (missing_blobs ev es e))"
proof (induction ev es e rule: missing_blobs.induct)
  case (2 ev entry es e)
  obtain e1 v where m: "memory_lookup ev (te_oid entry) e = (e1, v)" by fastforce
  have "http_ok ev e1"
    using memory_lookup_verified(1,3) [OF "2.prems"(1) _ m] "2.prems"(2) by (auto simp: http_ok_def)
  then show ?case using 2 m by (auto split: prod.split)
qed simp

lemma prefetch_http_ok:
  "safe_env ev \<Longrightarrow> http_ok ev e \<Longrightarrow> http_ok ev (fst (prefetch_http ev c cs n e))"
proof (induction ev c cs n e rule: prefetch_http.induct)
  case (2 ev c chunk cs n e)
  obtain c' q where q: "fetch_blobs_pack (ev_net ev) chunk c = (c', q)" by fastforce
  define e1 where "e1 = e\<lparr>ge_source := Http_Source c'\<rparr>"
  have e1: "http_ok ev e1" using "2.prems"(2) by (simp add: http_ok_def e1_def)
  have "http_ok ev (store_objects ev obs e1)" if "unpack_packfile (ev_ext ev) pack = Inr obs" for pack obs
    using store_objects_verified [OF "2.prems"(1) _ unpack_shas [OF that]] e1 by (simp add: http_ok_def)
  then show ?case using 2 q e1 by (cases q) (auto simp: e1_def split: sum.split)
qed simp

lemma initialize_ok:
  assumes "safe_env ev" "http_ok ev e" "engine_initialize ev branch e = Some (e', r)"
  shows "http_ok ev e'"
proof -
  obtain c where c: "ge_source e = Http_Source c" using assms(2) by (auto simp: http_ok_def)
  have e': "e' = fst (initialize_http ev c branch e)" using assms(3) c by (simp add: engine_initialize_def)
  have tp: "\<exists>c. ge_source (fst (tree_pack ev c' oid e1)) = Http_Source c" if "ge_source e1 = Http_Source c'" for c' oid e1
    using that by (auto simp: tree_pack_def and_then_def split: prod.split sum.split option.split)
  obtain c1 q where q: "http_resolve_head (ev_net ev) branch c = (c1, q)" by fastforce
  have "\<exists>c. ge_source e' = Http_Source c"
  proof (cases q)
    case (Inr p)
    obtain oid b where p: "p = (oid, b)" by (cases p)
    obtain e1 t where "tree_pack ev c1 oid (e\<lparr>ge_source := Http_Source c1, ge_commit := Some oid\<rparr>) = (e1, t)" by fastforce
    then show ?thesis
      using tp [of "e\<lparr>ge_source := Http_Source c1, ge_commit := Some oid\<rparr>" c1 oid]
      by (cases t) (auto simp: e' initialize_http_def q Inr p Let_def split: sum.split option.split)
  qed (simp add: e' initialize_http_def q)
  then show ?thesis using http_initialized_verified [OF assms(1), of e c branch] assms(2) by (simp add: http_ok_def e')
qed

lemma apply_objects_ok:
  "safe_env ev \<Longrightarrow> http_ok ev e \<Longrightarrow> list_all (\<lambda>ob. verified (ev_ext ev) (gp_oid ob) (gp_type ob) (gp_data ob)) obs \<Longrightarrow>
   http_ok ev (apply_objects ev obs e)"
proof (induction ev obs e rule: apply_objects.induct)
  case (2 ev ob obs e)
  have "http_ok ev (store_blob ev (gp_oid ob) (gp_data ob) e)"
    using store_blob_verified [OF "2.prems"(1), of e "gp_oid ob" "gp_type ob"] "2.prems"(2,3)
    by (simp add: http_ok_def store_blob_def)
  moreover have "http_ok ev (e\<lparr>ge_trees := hm_put (gp_oid ob) t (ge_trees e)\<rparr>)"
    if "gp_type ob = Tree_Type" "git_tree_parse (ev_ext ev) (gp_data ob) = Inr t" for t
    using "2.prems"(2,3) that by (auto simp: http_ok_def engine_verified_def blobs_verified_def trees_verified_def)
  ultimately show ?case using 2 by (auto split: sum.split)
qed simp

lemma lru_new: "lru_laws L \<Longrightarrow> lru_at L (lc_new L n) k = None"
proof -
  assume "lru_laws L"
  then have "lru_at L (lc_new L n) = (\<lambda>_. None)" unfolding lru_laws_def by blast
  then show ?thesis by simp
qed

lemma http_engine_ok: "http_engine ev0 e \<Longrightarrow> http_ok ev0 e"
proof (induction rule: http_engine.induct)
  case (first ev url e)
  then have "http_ok ev e"
    by (auto simp: engine_new_http_def res_bind_Inr_iff disk_cache_new_def fresh_engine_def http_ok_def engine_verified_def
        blobs_verified_def trees_verified_def memory_cache_new_def same_crates_def safe_env_def lru_new split: if_splits)
  then show ?case using http_ok_env [OF first(1)] by simp
next
  case (restart e0 ev url e)
  then have "http_ok ev e"
    by (auto simp: engine_new_http_def res_bind_Inr_iff disk_cache_new_def fresh_engine_def http_ok_def engine_verified_def
        blobs_verified_def trees_verified_def memory_cache_new_def same_crates_def safe_env_def lru_new split: if_splits)
  then show ?case using http_ok_env [OF restart(2)] by simp
next
  case (initialize e ev branch e' r)
  then show ?case using initialize_ok http_ok_env by (metis same_crates_def)
next
  case (blob e ev oid e' v)
  then show ?case using get_blob_ok http_ok_env by (metis same_crates_def)
next
  case (prefetch e ev oid e' n)
  then have ok: "safe_env ev" "http_ok ev e" using http_ok_env by (auto simp: same_crates_def)
  have "http_ok ev e'"
  proof (cases "get_tree e oid")
    case (Some t)
    obtain e1 ms where m: "missing_blobs ev (tree_entries t) e = (e1, ms)" by fastforce
    have e1: "http_ok ev e1" using missing_blobs_ok [OF ok] m by (metis fst_conv)
    then obtain c where "ge_source e1 = Http_Source c" by (auto simp: http_ok_def)
    then show ?thesis using prefetch(3) Some m prefetch_http_ok [OF ok(1) e1, of c "batches 64 ms" 0]
      by (auto simp: prefetch_directory_blobs_def)
  qed (use prefetch(3) ok in \<open>simp add: prefetch_directory_blobs_def\<close>)
  then show ?case using http_ok_env [OF prefetch(2)] by simp
next
  case (recovered e ev obs commit root)
  define e1 where "e1 = e\<lparr>ge_commit := Some commit, ge_root := Some root\<rparr>"
  have "http_ok ev e" using recovered http_ok_env by blast
  then have e1: "http_ok ev e1" by (simp add: http_ok_def e1_def)
  have ev: "safe_env ev" "ev_ext ev = ev_ext ev0" using recovered(2) by (simp_all add: same_crates_def)
  have "http_ok ev (apply_objects ev obs e1)" using apply_objects_ok [OF ev(1) e1] recovered(3) ev(2) by simp
  then show ?case using http_ok_env [OF recovered(2)] by (simp add: apply_recovered_objects_def e1_def)
qed

text \<open>
  C22: a blob served over HTTP is the blob that was asked for: in every process on a cache directory that was empty
  at first, after any sequence of initialisations, reads, prefetches and commits, with servers that answer anything,
  \<open>get_blob\<close> returns data that hashes to the id or an error. The condition is that no write of the disk
  cache is torn: a write that fails leaves nothing (\<open>torn_blob_served\<close> shows what happens otherwise).
\<close>

theorem http_blob_verified:
  assumes "http_engine ev0 e" "same_crates ev0 ev"
  shows "\<exists>e' r. get_blob ev oid e = Some (e', r) \<and> http_engine ev0 e' \<and>
    (\<forall>d. r = Inr d \<longrightarrow> (\<exists>ty. verified (ev_ext ev0) oid ty d))"
proof -
  have ok: "http_ok ev e" "safe_env ev" "ev_ext ev = ev_ext ev0"
    using http_engine_ok [OF assms(1)] http_ok_env [OF assms(2)] assms(2) by (simp_all add: same_crates_def)
  then obtain c where "engine_verified ev e" "ge_source e = Http_Source c" by (auto simp: http_ok_def)
  from get_blob_verified [OF ok(2) this, of oid] show ?thesis
    using http_engine.blob [OF assms, of oid] ok(3) by fastforce
qed

section \<open>A torn write\<close>

lemma memory_lookup_value:
  "lru_laws (ev_mem ev) \<Longrightarrow> snd (memory_lookup ev oid e) = lru_at (ev_mem ev) (mc_cache (ge_memory e)) oid"
  using lru_get(1) [of "ev_mem ev" oid "mc_cache (ge_memory e)"]
  by (cases "lc_get (ev_mem ev) oid (mc_cache (ge_memory e))")
    (auto simp: memory_lookup_def memory_get_def split: prod.splits option.splits)

lemma memory_lookup_disk: "ge_disk (fst (memory_lookup ev oid e)) = ge_disk e" "ge_source (fst (memory_lookup ev oid e)) = ge_source e"
  by (simp_all add: memory_lookup_def split: prod.split)

text \<open>
  A torn write of the disk cache poisons it: the fetch that tears the file succeeds and returns
  the blob, because the failure of the write is ignored, and every engine that later starts on these
  files serves the first part of the blob as the blob, without an error.
\<close>

theorem torn_blob_served:
  assumes os: "os_ok (ev_os ev) (Fs_Mkdir (butlast (blob_path oid)))" "os_ok (ev_os ev) (Fs_Create (blob_path oid))"
      "\<not> os_ok (ev_os ev) (Fs_Write (blob_path oid))"
    and src: "ge_source e = Http_Source c" "fetch_blob_pack (ev_net ev) oid c = (c', Inr pack)"
      "unpack_packfile (ev_ext ev) pack = Inr [(oid, ob)]"
    and miss: "lru_laws (ev_mem ev)" "lru_at (ev_mem ev) (mc_cache (ge_memory e)) oid = None"
      "hm_get (dc_files (ge_disk e)) (blob_path oid) = None"
  shows "\<exists>e1. get_blob ev oid e = Some (e1, Inr (ro_data ob)) \<and>
    (\<forall>e2. dc_files (ge_disk e2) = dc_files (ge_disk e1) \<longrightarrow>
       lru_at (ev_mem ev) (mc_cache (ge_memory e2)) oid = None \<longrightarrow>
       (\<exists>e3. get_blob (ev\<lparr>ev_os := os_fine\<rparr>) oid e2 =
          Some (e3, Inr (take (os_torn (ev_os ev) (blob_path oid)) (ro_data ob)))))"
proof -
  obtain ea va where ma: "memory_lookup ev oid e = (ea, va)" by fastforce
  have a: "va = None" "ge_disk ea = ge_disk e" "ge_source ea = Http_Source c"
    using memory_lookup_value [OF miss(1), of oid e] memory_lookup_disk [of ev oid e] ma miss(2) src(1) by simp_all
  define dk where "dk = (ge_disk e)\<lparr>dc_misses := dc_misses (ge_disk e) + 1\<rparr>"
  have dg: "disk_get_blob (ev_os ev) oid (ge_disk ea) = (dk, None)"
    using miss(3) by (simp add: disk_get_blob_def fs_read_def a(2) dk_def)
  define e1 where "e1 = store_blob ev oid (ro_data ob) (ea\<lparr>ge_disk := dk, ge_source := Http_Source c'\<rparr>)"
  have get: "get_blob ev oid e = Some (e1, Inr (ro_data ob))"
    by (simp add: get_blob_def ma a dg [unfolded a(2)] fetch_blob_def fetch_http_def src(2,3) e1_def)
  have "fst (disk_put_blob (ev_os ev) oid (ro_data ob) dk) =
      dk\<lparr>dc_files := hm_put (blob_path oid) (take (os_torn (ev_os ev) (blob_path oid)) (ro_data ob)) (dc_files dk)\<rparr>"
    using os by (simp add: disk_put_blob_def disk_write_def fs_write_def)
  then have torn: "hm_get (dc_files (ge_disk e1)) (blob_path oid) = Some (take (os_torn (ev_os ev) (blob_path oid)) (ro_data ob))"
    by (simp add: e1_def store_blob_def)
  have "\<exists>e3. get_blob (ev\<lparr>ev_os := os_fine\<rparr>) oid e2 = Some (e3, Inr (take (os_torn (ev_os ev) (blob_path oid)) (ro_data ob)))"
    if e2: "dc_files (ge_disk e2) = dc_files (ge_disk e1)" "lru_at (ev_mem ev) (mc_cache (ge_memory e2)) oid = None" for e2
  proof -
    let ?ev = "ev\<lparr>ev_os := os_fine\<rparr>"
    obtain eb vb where mb: "memory_lookup ?ev oid e2 = (eb, vb)" by fastforce
    have b: "vb = None" "ge_disk eb = ge_disk e2"
      using memory_lookup_value [of ?ev oid e2] memory_lookup_disk [of ?ev oid e2] mb miss(1) e2(2) by simp_all
    have "os_ok os_fine x" for x by (simp add: os_fine_def)
    then show ?thesis
      using torn by (simp add: get_blob_def mb b disk_get_blob_def fs_read_def e2(1))
  qed
  then show ?thesis using get by blast
qed

section \<open>Witnesses\<close>

text \<open>A server that answers every request with the pack of one blob, and an engine with empty caches.\<close>

definition blob_pack :: bytes where
  "blob_pack = pack_bytes demo_ext [Base_Frame Blob_Type [7, 8]] [1, 2]"

definition blob_id :: string where
  "blob_id = compute_git_sha1 demo_ext Blob_Type [7, 8]"

definition blob_net :: net where
  "blob_net url body = Http_Body (band_bytes (Band 1 blob_pack))"

definition demo_env :: "os \<Rightarrow> ((string, bytes) demo_cache, (string \<times> nat, bytes) demo_cache, bucket, string) env" where
  "demo_env os = \<lparr>ev_ext = demo_ext, ev_os = os, ev_mem = demo_lru, ev_blocks = demo_lru, ev_net = blob_net,
     ev_gcs = demo_gcs, ev_pid = 1, ev_fuel = 10\<rparr>"

definition demo_engine :: "files \<Rightarrow> ((string, bytes) demo_cache, (string \<times> nat, bytes) demo_cache, bucket) git_engine" where
  "demo_engine fs = fresh_engine (Http_Source (http_client_new ''h'')) \<lparr>dc_files = fs, dc_hits = 0, dc_misses = 0\<rparr>
     (memory_cache_new demo_lru 4)"

lemma blob_pack_unpacks:
  "unpack_packfile demo_ext blob_pack = Inr [(blob_id, \<lparr>ro_type = Blob_Type, ro_data = [7, 8]\<rparr>)]"
proof -
  have "frames_ok demo_ext [Base_Frame Blob_Type [7, 8]]" by (simp add: frames_ok_def isize_max_def)
  then show ?thesis
    unfolding blob_pack_def
    by (subst unpack_read_state [OF demo_zlib_laws])
      (simp_all add: read_state_def resolve_loop.simps add_frame.simps add_object_def Let_def blob_id_def)
qed

lemma blob_pack_length: "length blob_pack = 20"
  by (simp add: blob_pack_def pack_bytes_def pack_magic_def object_header_def size_bytes.simps demo_ext_def demo_deflate_def)

lemma blob_fetched: "fetch_blob_pack blob_net oid c = (c\<lparr>hc_requests := hc_requests c + 1\<rparr>, Inr blob_pack)"
proof -
  have "extract_pack_from_sideband (concat (map band_bytes [Band 1 blob_pack])) = Inr (concat (map band_pack [Band 1 blob_pack]))"
    by (rule extract_bands) (use blob_pack_length in auto)
  then show ?thesis by (simp add: fetch_blob_pack_def fetch_blobs_pack_def http_post_def blob_net_def)
qed

lemma safe_demo_env: "safe_env (demo_env os_fine)"
  by (simp add: safe_env_def demo_env_def no_torn_writes_def os_fine_def)

lemma demo_engine_verified: "engine_verified (demo_env os) (demo_engine [])"
  by (simp add: engine_verified_def blobs_verified_def trees_verified_def demo_engine_def fresh_engine_def demo_env_def
      memory_cache_new_def demo_lru_def demo_view_of_def)

lemma demo_same_crates: "same_crates (demo_env os_fine) (demo_env os_fine)"
  using safe_demo_env by (simp add: same_crates_def)

theorem http_blob_verified_witness:
  "\<exists>e e' d ty. engine_new_http (demo_env os_fine) ''h'' [] = Inr e \<and> get_blob (demo_env os_fine) blob_id e = Some (e', Inr d) \<and>
     verified demo_ext blob_id ty d"
proof -
  let ?ev = "demo_env os_fine"
  obtain e where e: "engine_new_http ?ev ''h'' [] = Inr e" "ge_source e = Http_Source (http_client_new ''h'')"
    "\<And>k. lru_at (ev_mem ?ev) (mc_cache (ge_memory e)) k = None" "dc_files (ge_disk e) = []"
    by (simp add: engine_new_http_def disk_cache_new_def fresh_engine_def demo_env_def os_fine_def memory_cache_new_def
        demo_lru_def demo_view_of_def)
  have "http_engine ?ev e" by (rule http_engine.first [OF demo_same_crates e(1)])
  from http_blob_verified [OF this demo_same_crates, of blob_id] obtain e' r where
    r: "get_blob ?ev blob_id e = Some (e', r)" "\<forall>d. r = Inr d \<longrightarrow> (\<exists>ty. verified demo_ext blob_id ty d)"
    by (auto simp: demo_env_def)
  have "\<exists>d. r = Inr d"
  proof -
    obtain ea va where ma: "memory_lookup ?ev blob_id e = (ea, va)" by fastforce
    have a: "va = None" "ge_disk ea = ge_disk e" "ge_source ea = Http_Source (http_client_new ''h'')"
      using memory_lookup_value [of ?ev blob_id e] memory_lookup_disk [of ?ev blob_id e] ma e(2,3) by (simp_all add: demo_env_def)
    obtain dk where dg: "disk_get_blob (ev_os ?ev) blob_id (ge_disk e) = (dk, None)"
      by (simp add: disk_get_blob_def fs_read_def e(4))
    have net: "fetch_blob_pack (ev_net ?ev) blob_id c = (c\<lparr>hc_requests := hc_requests c + 1\<rparr>, Inr blob_pack)" for c
      using blob_fetched by (simp add: demo_env_def)
    have "unpack_packfile (ev_ext ?ev) blob_pack = Inr [(blob_id, \<lparr>ro_type = Blob_Type, ro_data = [7, 8]\<rparr>)]"
      using blob_pack_unpacks by (simp add: demo_env_def)
    then show ?thesis using r(1) by (auto simp: get_blob_def ma a dg fetch_blob_def fetch_http_def net)
  qed
  then show ?thesis using e(1) r by blast
qed

theorem http_initialize_verified_witness:
  "engine_verified (demo_env os_fine) (fst (initialize_http (demo_env os_fine) (http_client_new ''h'') None (demo_engine [])))"
  by (rule http_initialize_verified [OF safe_demo_env demo_engine_verified])

definition tearing :: os where
  "tearing = \<lparr>os_ok = (\<lambda>c. c \<noteq> Fs_Write (blob_path blob_id)), os_torn = (\<lambda>_. 1), os_short = (\<lambda>_. None), os_dirs = (\<lambda>_. None)\<rparr>"

theorem torn_blob_served_witness:
  "\<exists>e1. get_blob (demo_env tearing) blob_id (demo_engine []) = Some (e1, Inr [7, 8]) \<and>
     (\<exists>e3. get_blob (demo_env os_fine) blob_id (demo_engine (dc_files (ge_disk e1))) = Some (e3, Inr [7]))"
proof -
  have ev: "(demo_env tearing)\<lparr>ev_os := os_fine\<rparr> = demo_env os_fine" by (simp add: demo_env_def)
  have src: "ge_source (demo_engine []) = Http_Source (http_client_new ''h'')" by (simp add: demo_engine_def fresh_engine_def)
  have net: "fetch_blob_pack (ev_net (demo_env tearing)) blob_id (http_client_new ''h'') =
      ((http_client_new ''h'')\<lparr>hc_requests := hc_requests (http_client_new ''h'') + 1\<rparr>, Inr blob_pack)"
    using blob_fetched by (simp add: demo_env_def)
  have up: "unpack_packfile (ev_ext (demo_env tearing)) blob_pack = Inr [(blob_id, \<lparr>ro_type = Blob_Type, ro_data = [7, 8]\<rparr>)]"
    using blob_pack_unpacks by (simp add: demo_env_def)
  have empty: "lru_at (ev_mem (demo_env tearing)) (mc_cache (ge_memory (demo_engine fs))) k = None" for fs k
    by (simp add: demo_env_def demo_engine_def fresh_engine_def memory_cache_new_def demo_lru_def demo_view_of_def)
  have laws: "lru_laws (ev_mem (demo_env tearing))" by (simp add: demo_env_def)
  obtain e1 where e1: "get_blob (demo_env tearing) blob_id (demo_engine []) = Some (e1, Inr [7, 8])"
    "\<And>e2. dc_files (ge_disk e2) = dc_files (ge_disk e1) \<Longrightarrow>
       lru_at (ev_mem (demo_env tearing)) (mc_cache (ge_memory e2)) blob_id = None \<Longrightarrow>
       \<exists>e3. get_blob ((demo_env tearing)\<lparr>ev_os := os_fine\<rparr>) blob_id e2 = Some (e3, Inr (take 1 [7, 8]))"
    using torn_blob_served [OF _ _ _ src net up laws empty] by (auto simp: demo_env_def tearing_def demo_engine_def fresh_engine_def)
  have "dc_files (ge_disk (demo_engine (dc_files (ge_disk e1)))) = dc_files (ge_disk e1)"
    by (simp add: demo_engine_def fresh_engine_def)
  then show ?thesis using e1 empty unfolding ev by fastforce
qed

end
