(* ===== verification/Singleflight.thy ===== *)
theory Singleflight
  imports Prelude
begin

text \<open>
  Concurrent callers of one key: the table \<open>in_flight\<close> of \<^verbatim>\<open>src/src/cache/block.rs\<close>
  (\<open>get_or_fetch_block\<close>) and of \<^verbatim>\<open>src/src/git/mod.rs\<close> (\<open>get_blob_arc\<close>) as a step
  relation. A step is what a task does between two points where others can run: a look into
  the caches, a critical section of the lock, a fetch, \<open>notify_waiters\<close>. A \<open>Notify\<close> object is
  its number; \<open>notify_waiters\<close> wakes the tasks that have called \<open>notified()\<close> on it, not those that
  still only hold it. The flag \<open>retries\<close> tells the two versions apart: a woken task that finds
  nothing goes back to the table in the first, and fetches without an entry in the second.
\<close>

section \<open>The protocol\<close>

datatype task_pc =
  Idle | Missed | Holding nat | Waiting nat | Woken | Fetching | Fetched | Notifying nat | Finished

record flight =
  fl_pc :: "nat \<Rightarrow> task_pc"
  fl_entry :: "nat option"
  fl_cached :: bool
  fl_fresh :: nat

definition flight_init :: flight where
  "flight_init = \<lparr>fl_pc = (\<lambda>_. Idle), fl_entry = None, fl_cached = False, fl_fresh = 0\<rparr>"

definition goto :: "nat \<Rightarrow> task_pc \<Rightarrow> flight \<Rightarrow> flight" where
  "goto t p s = s\<lparr>fl_pc := (fl_pc s)(t := p)\<rparr>"

definition wake :: "nat \<Rightarrow> flight \<Rightarrow> flight" where
  "wake n s = s\<lparr>fl_pc := (\<lambda>t. if fl_pc s t = Waiting n then Woken else fl_pc s t)\<rparr>"

inductive flight_step :: "bool \<Rightarrow> flight \<Rightarrow> flight \<Rightarrow> bool" for retries where
  look_hit: "fl_pc s t = Idle \<Longrightarrow> fl_cached s \<Longrightarrow> flight_step retries s (goto t Finished s)"
| look_miss: "fl_pc s t = Idle \<Longrightarrow> \<not> fl_cached s \<Longrightarrow> flight_step retries s (goto t Missed s)"
| enter: "fl_pc s t = Missed \<Longrightarrow> fl_entry s = None \<Longrightarrow>
    flight_step retries s (goto t Fetching (s\<lparr>fl_entry := Some (fl_fresh s), fl_fresh := Suc (fl_fresh s)\<rparr>))"
| join: "fl_pc s t = Missed \<Longrightarrow> fl_entry s = Some n \<Longrightarrow> flight_step retries s (goto t (Holding n) s)"
| wait: "fl_pc s t = Holding n \<Longrightarrow> flight_step retries s (goto t (Waiting n) s)"
| fetch_ok: "fl_pc s t = Fetching \<Longrightarrow> flight_step retries s (goto t Fetched (s\<lparr>fl_cached := True\<rparr>))"
| fetch_err: "fl_pc s t = Fetching \<Longrightarrow> flight_step retries s (goto t Fetched s)"
| leave: "fl_pc s t = Fetched \<Longrightarrow> fl_entry s = Some n \<Longrightarrow>
    flight_step retries s (goto t (Notifying n) (s\<lparr>fl_entry := None\<rparr>))"
| leave_gone: "fl_pc s t = Fetched \<Longrightarrow> fl_entry s = None \<Longrightarrow> flight_step retries s (goto t Finished s)"
| notify: "fl_pc s t = Notifying n \<Longrightarrow> flight_step retries s (goto t Finished (wake n s))"
| woken_hit: "fl_pc s t = Woken \<Longrightarrow> fl_cached s \<Longrightarrow> flight_step retries s (goto t Finished s)"
| woken_miss: "fl_pc s t = Woken \<Longrightarrow> \<not> fl_cached s \<Longrightarrow>
    flight_step retries s (goto t (if retries then Missed else Fetching) s)"
| evict: "flight_step retries s (s\<lparr>fl_cached := False\<rparr>)"

inductive flight_run :: "bool \<Rightarrow> flight \<Rightarrow> flight \<Rightarrow> bool" for retries s where
  refl: "flight_run retries s s"
| step: "flight_run retries s s' \<Longrightarrow> flight_step retries s' s'' \<Longrightarrow> flight_run retries s s''"

lemma goto_simps [simp]:
  "fl_pc (goto t p s) = (fl_pc s)(t := p)" "fl_entry (goto t p s) = fl_entry s"
  "fl_cached (goto t p s) = fl_cached s" "fl_fresh (goto t p s) = fl_fresh s"
  by (simp_all add: goto_def)

lemma wake_simps [simp]:
  "fl_pc (wake n s) = (\<lambda>t. if fl_pc s t = Waiting n then Woken else fl_pc s t)"
  "fl_entry (wake n s) = fl_entry s" "fl_cached (wake n s) = fl_cached s" "fl_fresh (wake n s) = fl_fresh s"
  by (simp_all add: wake_def)

section \<open>One fetch at a time\<close>

text \<open>The task that fetches, or has fetched and not yet left the table.\<close>

definition in_charge :: "flight \<Rightarrow> nat \<Rightarrow> bool" where
  "in_charge s t \<longleftrightarrow> fl_pc s t = Fetching \<or> fl_pc s t = Fetched"

definition one_in_charge :: "flight \<Rightarrow> bool" where
  "one_in_charge s \<longleftrightarrow>
     (case fl_entry s of None \<Rightarrow> \<forall>u. \<not> in_charge s u | Some n \<Rightarrow> \<exists>t. \<forall>u. in_charge s u \<longleftrightarrow> u = t)"

lemma in_charge_goto: "in_charge (goto t p s) u \<longleftrightarrow> (if u = t then p = Fetching \<or> p = Fetched else in_charge s u)"
  by (simp add: in_charge_def)

lemma in_charge_wake [simp]: "in_charge (wake n s) u \<longleftrightarrow> in_charge s u"
  by (simp add: in_charge_def)

lemma in_charge_update [simp]: "in_charge (s\<lparr>fl_entry := e\<rparr>) u = in_charge s u"
  "in_charge (s\<lparr>fl_cached := c\<rparr>) u = in_charge s u" "in_charge (s\<lparr>fl_fresh := n\<rparr>) u = in_charge s u"
  by (simp_all add: in_charge_def)

lemma same_charge: "one_in_charge s \<Longrightarrow> fl_entry s' = fl_entry s \<Longrightarrow> (\<And>u. in_charge s' u = in_charge s u) \<Longrightarrow> one_in_charge s'"
  by (cases "fl_entry s") (simp_all add: one_in_charge_def)

lemma one_in_charge_step:
  assumes step: "flight_step True s s'" and inv: "one_in_charge s"
  shows "one_in_charge s'"
  using step
proof cases
  case (enter t)
  have "in_charge s' u \<longleftrightarrow> u = t" for u
    using inv enter by (simp add: one_in_charge_def in_charge_goto)
  then show ?thesis using enter(1) by (auto simp: one_in_charge_def)
next
  case (leave t n)
  have "in_charge s t" using leave by (simp add: in_charge_def)
  then have "\<not> in_charge s' u" for u
    using inv leave by (auto simp: one_in_charge_def in_charge_goto)
  then show ?thesis using leave(1) by (simp add: one_in_charge_def)
next
  case (leave_gone t)
  then show ?thesis using inv by (auto simp: one_in_charge_def in_charge_def)
qed (rule same_charge [OF inv]; auto simp: in_charge_goto in_charge_def)+

text \<open>
  C24: the block cache never fetches a block twice at the same time: in every reachable state at most
  one task fetches it, and the table has an entry exactly while one does, whatever fetches fail and
  blocks are evicted.
\<close>

theorem single_fetch:
  "flight_run True flight_init s \<Longrightarrow>
   (\<forall>t u. fl_pc s t = Fetching \<longrightarrow> fl_pc s u = Fetching \<longrightarrow> t = u) \<and>
   (fl_entry s = None \<longrightarrow> (\<forall>t. fl_pc s t \<noteq> Fetching))"
proof -
  assume "flight_run True flight_init s"
  then have "one_in_charge s"
  proof induction
    case (step s' s'')
    show ?case by (rule one_in_charge_step [OF step.hyps(2) step.IH])
  qed (simp add: one_in_charge_def in_charge_def flight_init_def)
  then show ?thesis unfolding one_in_charge_def in_charge_def by (cases "fl_entry s") (simp, simp, metis)
qed

text \<open>A run of two tasks: the first fetches while the second takes its \<open>Notify\<close>.\<close>

definition two_missed :: flight where
  "two_missed = goto 0 Missed flight_init"
definition two_fetching :: flight where
  "two_fetching = goto 0 Fetching (two_missed\<lparr>fl_entry := Some (fl_fresh two_missed), fl_fresh := Suc (fl_fresh two_missed)\<rparr>)"
definition two_joined :: flight where
  "two_joined = goto 1 (Holding 0) (goto 1 Missed two_fetching)"

lemma two_joined_run: "flight_run r flight_init two_joined"
proof -
  have 1: "flight_step r flight_init two_missed"
    unfolding two_missed_def by (rule look_miss) (simp_all add: flight_init_def)
  have 2: "flight_step r two_missed two_fetching"
    unfolding two_fetching_def by (rule enter) (simp_all add: two_missed_def flight_init_def)
  have 3: "flight_step r two_fetching (goto 1 Missed two_fetching)"
    by (rule look_miss) (simp_all add: two_fetching_def two_missed_def flight_init_def)
  have 4: "flight_step r (goto 1 Missed two_fetching) two_joined"
    unfolding two_joined_def by (rule join) (simp_all add: two_fetching_def two_missed_def flight_init_def)
  show ?thesis by (rule flight_run.step [OF flight_run.step [OF flight_run.step [OF flight_run.step [OF flight_run.refl 1] 2] 3] 4])
qed

theorem single_fetch_witness:
  "fl_pc two_joined 0 = Fetching \<and> {u. fl_pc two_joined u = Fetching} = {0}"
proof -
  have "fl_pc two_joined 0 = Fetching"
    by (simp add: two_joined_def two_fetching_def)
  then show ?thesis using single_fetch [OF two_joined_run] by blast
qed

section \<open>A wake-up that is lost\<close>

definition stuck :: "nat \<Rightarrow> nat \<Rightarrow> flight \<Rightarrow> bool" where
  "stuck t n s \<longleftrightarrow> fl_pc s t = Waiting n \<and> n < fl_fresh s \<and> fl_entry s \<noteq> Some n \<and> (\<forall>u. fl_pc s u \<noteq> Notifying n)"

lemma stuck_step: "flight_step r s s' \<Longrightarrow> stuck t n s \<Longrightarrow> stuck t n s'"
  by (induction rule: flight_step.induct) (auto simp: stuck_def split: if_splits)

lemma stuck_run: "flight_run r s s' \<Longrightarrow> stuck t n s \<Longrightarrow> stuck t n s'"
  by (induction rule: flight_run.induct) (auto intro: stuck_step)

text \<open>
  C25: a wake-up can be lost, in both versions: the second task looks into the table and takes the
  \<open>Notify\<close>, the first one fetches, files the data, leaves and notifies, and only then the second
  calls \<open>notified()\<close>. It waits for ever: no run from there on, of any tasks, wakes it, although the
  data is in the cache.
\<close>

theorem lost_wakeup:
  "\<exists>s. flight_run retries flight_init s \<and> fl_cached s \<and>
     \<not> (\<exists>s'. flight_run retries s s' \<and> fl_pc s' 1 \<noteq> Waiting 0)"
proof -
  define a where "a = goto 0 Fetched (two_joined\<lparr>fl_cached := True\<rparr>)"
  define b where "b = goto 0 (Notifying 0) (a\<lparr>fl_entry := None\<rparr>)"
  define c where "c = goto 0 Finished (wake 0 b)"
  define d where "d = goto 1 (Waiting 0) c"
  note defs = two_joined_def two_fetching_def two_missed_def flight_init_def
  have 1: "flight_step retries two_joined a" unfolding a_def by (rule fetch_ok) (simp add: defs)
  have 2: "flight_step retries a b" unfolding b_def by (rule leave) (simp_all add: a_def defs)
  have 3: "flight_step retries b c" unfolding c_def by (rule notify) (simp add: b_def)
  have 4: "flight_step retries c d" unfolding d_def by (rule wait) (simp add: c_def b_def a_def defs)
  have run: "flight_run retries flight_init d"
    by (rule flight_run.step [OF flight_run.step [OF flight_run.step [OF flight_run.step [OF two_joined_run 1] 2] 3] 4])
  have "stuck 1 0 d" by (simp add: stuck_def d_def c_def b_def a_def defs)
  then have "fl_pc s' 1 = Waiting 0" if "flight_run retries d s'" for s'
    using stuck_run [OF that] by (simp add: stuck_def)
  moreover have "fl_cached d" by (simp add: d_def c_def b_def a_def)
  ultimately show ?thesis using run by blast
qed

end
