(* ===== verification/Wal_Backend.thy ===== *)
theory Wal_Backend
  imports File_System Gcs_Service Wal_Proto
begin

text \<open>
  The log backends: the traits \<open>WalBackend\<close> and \<open>ActiveWalWriter\<close> of
  \<^verbatim>\<open>src/src/wal/backend.rs\<close> as the record \<open>wal_ops\<close> (the \<open>dyn\<close> object), their
  contract as the locale \<open>wal_store\<close>, and the two implementations: a local directory
  (\<^verbatim>\<open>src/src/wal/local.rs\<close>) and a bucket (\<^verbatim>\<open>src/src/wal/gcs.rs\<close>).
\<close>

section \<open>The traits\<close>

record ('s, 'w) wal_ops =
  wb_list :: "'s \<Rightarrow> nat list result"
  wb_is_done :: "nat \<Rightarrow> 's \<Rightarrow> bool result"
  wb_mark :: "nat \<Rightarrow> string \<Rightarrow> bytes option \<Rightarrow> bytes option \<Rightarrow> 's \<Rightarrow> 's \<times> unit result"
  wb_lockout :: "nat list \<Rightarrow> 's \<Rightarrow> 's \<times> unit result"
  wb_open :: "nat \<Rightarrow> 's \<Rightarrow> 's \<times> 'w result"
  wb_read :: "nat \<Rightarrow> 's \<Rightarrow> bytes result"
  ww_append :: "'w \<Rightarrow> wal_entry \<Rightarrow> 's \<Rightarrow> 's \<times> unit result"
  ww_flush :: "'w \<Rightarrow> 's \<Rightarrow> 's \<times> unit result"
  ww_finalize :: "'w \<Rightarrow> 's \<Rightarrow> 's \<times> unit result"

text \<open>
  What recovery relies on, over the logs and the completed sequence numbers of a state: a log read
  is the log, a done marker that is seen exists, marking completes exactly one number and leaves
  the logs alone, and so does locking out.
\<close>

locale wal_store =
  fixes B :: "('s, 'w) wal_ops" and logs :: "'s \<Rightarrow> nat \<Rightarrow> bytes option" and completed :: "'s \<Rightarrow> nat set"
    and inv :: "'s \<Rightarrow> bool"
  assumes read_log: "inv s \<Longrightarrow> wb_read B q s = Inr d \<Longrightarrow> logs s q = Some d"
    and done_exists: "inv s \<Longrightarrow> wb_is_done B q s = Inr True \<Longrightarrow> q \<in> completed s"
    and mark_inv: "inv s \<Longrightarrow> inv (fst (wb_mark B q c p i s))"
    and mark_logs: "inv s \<Longrightarrow> logs (fst (wb_mark B q c p i s)) = logs s"
    and mark_other: "inv s \<Longrightarrow> r \<noteq> q \<Longrightarrow> r \<in> completed (fst (wb_mark B q c p i s)) \<longleftrightarrow> r \<in> completed s"
    and mark_done: "inv s \<Longrightarrow> snd (wb_mark B q c p i s) = Inr () \<Longrightarrow> q \<in> completed (fst (wb_mark B q c p i s))"
    and lockout_inv: "inv s \<Longrightarrow> inv (fst (wb_lockout B qs s))"
    and lockout_logs: "inv s \<Longrightarrow> logs (fst (wb_lockout B qs s)) = logs s"
    and lockout_done: "inv s \<Longrightarrow> completed (fst (wb_lockout B qs s)) = completed s"

text \<open>A store that lists only logs, and all of them when they are visible.\<close>

locale exact_wal_store = wal_store +
  fixes visible :: bool
  assumes list_logs: "inv s \<Longrightarrow> wb_list B s = Inr qs \<Longrightarrow> set qs \<subseteq> {q. logs s q \<noteq> None}"
    and list_all_logs: "inv s \<Longrightarrow> visible \<Longrightarrow> wb_list B s = Inr qs \<Longrightarrow> set qs = {q. logs s q \<noteq> None}"

text \<open>
  What the writer of a session relies on: \<open>handle s w q d\<close> says that \<open>w\<close> writes the log \<open>q\<close> and
  that the bytes \<open>d\<close> were handed to it; a successful flush makes them the log.
\<close>

locale append_log =
  fixes B :: "('s, 'w) wal_ops" and C :: codec and logs :: "'s \<Rightarrow> nat \<Rightarrow> bytes option"
    and handle :: "'s \<Rightarrow> 'w \<Rightarrow> nat \<Rightarrow> bytes \<Rightarrow> bool"
  assumes open_new: "logs s q = None \<Longrightarrow> wb_open B q s = (s', Inr w) \<Longrightarrow> handle s' w q []"
    and append_handle: "handle s w q d \<Longrightarrow> ww_append B w e s = (s', Inr ()) \<Longrightarrow> handle s' w q (d @ encode_framed C e)"
    and flush_handle: "handle s w q d \<Longrightarrow> ww_flush B w s = (s', Inr ()) \<Longrightarrow> handle s' w q d \<and> logs s' q = Some d"
    and finalize_handle: "handle s w q d \<Longrightarrow> ww_finalize B w s = (s', Inr ()) \<Longrightarrow> logs s' q = Some d"

section \<open>The local directory\<close>

text \<open>The files of the directory, and those that a lockout made read-only.\<close>

record local_wal =
  lw_files :: files
  lw_readonly :: "path list"

definition local_log_path :: "nat \<Rightarrow> path" where
  "local_log_path seq = [to_radix 10 seq @ ''.log'']"
definition local_done_path :: "nat \<Rightarrow> path" where
  "local_done_path seq = [to_radix 10 seq @ ''.done'']"
definition local_pack_path :: "nat \<Rightarrow> path" where
  "local_pack_path seq = [to_radix 10 seq @ ''.pack'']"
definition local_idx_path :: "nat \<Rightarrow> path" where
  "local_idx_path seq = [to_radix 10 seq @ ''.idx'']"

text \<open>The number of a log by its file name.\<close>

definition log_number :: "string \<Rightarrow> nat option" where
  "log_number name =
     (case strip_suffix ''.log'' name of Some num_str \<Rightarrow> from_radix 10 u64_max num_str | None \<Rightarrow> None)"

text \<open>A directory that cannot be examined has no logs.\<close>

definition local_list :: "os \<Rightarrow> local_wal \<Rightarrow> nat list result" where
  "local_list os s =
     (if \<not> os_ok os (Fs_Stat []) then Inr []
      else if os_ok os (Fs_Read_Dir []) \<and> (\<forall>p \<in> set (hm_keys (lw_files s)). os_ok os (Fs_Entry p))
      then Inr (sort (List.map_filter (\<lambda>p. log_number (from_utf8_lossy (str_bytes (last p)))) (hm_keys (lw_files s))))
      else Inl E_Wal)"

definition local_is_done :: "os \<Rightarrow> nat \<Rightarrow> local_wal \<Rightarrow> bool result" where
  "local_is_done os seq s = Inr (fs_is_file os (local_done_path seq) (lw_files s))"

definition local_write :: "os \<Rightarrow> path \<Rightarrow> bytes \<Rightarrow> local_wal \<Rightarrow> local_wal \<times> unit result" where
  "local_write os p data s =
     (case fs_write os p data (lw_files s) of (fs, ok) \<Rightarrow> (s\<lparr>lw_files := fs\<rparr>, if ok then Inr () else Inl E_Wal))"

definition local_mark ::
  "os \<Rightarrow> nat \<Rightarrow> string \<Rightarrow> bytes option \<Rightarrow> bytes option \<Rightarrow> local_wal \<Rightarrow> local_wal \<times> unit result" where
  "local_mark os seq new_commit_oid pack_data idx_data s =
     and_then (local_write os (local_done_path seq) (str_bytes (new_commit_oid @ [CHR 0x0A])) s) (\<lambda>s _.
     and_then (case pack_data of Some pack \<Rightarrow> local_write os (local_pack_path seq) pack s | None \<Rightarrow> (s, Inr ())) (\<lambda>s _.
     case idx_data of Some idx \<Rightarrow> local_write os (local_idx_path seq) idx s | None \<Rightarrow> (s, Inr ())))"

fun local_lockout :: "os \<Rightarrow> nat list \<Rightarrow> local_wal \<Rightarrow> local_wal \<times> unit result" where
  "local_lockout os [] s = (s, Inr ())"
| "local_lockout os (seq # seqs) s =
     (let p = local_log_path seq in
      local_lockout os seqs
        (if fs_is_file os p (lw_files s) \<and> os_ok os (Fs_Chmod p)
         then s\<lparr>lw_readonly := p # lw_readonly s\<rparr> else s))"

text \<open>Opening for appending creates the file; a read-only file cannot be opened.\<close>

definition local_open :: "os \<Rightarrow> nat \<Rightarrow> local_wal \<Rightarrow> local_wal \<times> path result" where
  "local_open os seq s =
     (let p = local_log_path seq in
      if \<not> os_ok os (Fs_Open p) \<or> p \<in> set (lw_readonly s) then (s, Inl E_Wal)
      else if hm_get (lw_files s) p \<noteq> None then (s, Inr p)
      else (s\<lparr>lw_files := hm_put p [] (lw_files s)\<rparr>, Inr p))"

definition local_read :: "os \<Rightarrow> nat \<Rightarrow> local_wal \<Rightarrow> bytes result" where
  "local_read os seq s =
     (case fs_read os (local_log_path seq) (lw_files s) of Some d \<Rightarrow> Inr d | None \<Rightarrow> Inl E_Wal)"

text \<open>An open handle is the path of its file; its writes do not look at the permission again.\<close>

definition local_append :: "os \<Rightarrow> codec \<Rightarrow> path \<Rightarrow> wal_entry \<Rightarrow> local_wal \<Rightarrow> local_wal \<times> unit result" where
  "local_append os C p entry s =
     (case fs_append os p (encode_framed C entry) (lw_files s) of
        (fs, ok) \<Rightarrow> (s\<lparr>lw_files := fs\<rparr>, if ok then Inr () else Inl E_Wal))"

definition local_flush :: "os \<Rightarrow> path \<Rightarrow> local_wal \<Rightarrow> local_wal \<times> unit result" where
  "local_flush os p s = (s, if os_ok os (Fs_Sync p) then Inr () else Inl E_Wal)"

definition local_wal_ops :: "os \<Rightarrow> codec \<Rightarrow> (local_wal, path) wal_ops" where
  "local_wal_ops os C =
     \<lparr>wb_list = local_list os, wb_is_done = local_is_done os, wb_mark = local_mark os, wb_lockout = local_lockout os,
      wb_open = local_open os, wb_read = local_read os, ww_append = local_append os C, ww_flush = local_flush os,
      ww_finalize = local_flush os\<rparr>"

definition local_wal_new :: "os \<Rightarrow> files \<Rightarrow> local_wal result" where
  "local_wal_new os fs = (if os_ok os (Fs_Mkdir []) then Inr \<lparr>lw_files = fs, lw_readonly = []\<rparr> else Inl E_Wal)"

section \<open>The bucket\<close>

definition gcs_name :: "string \<Rightarrow> nat \<Rightarrow> string \<Rightarrow> string" where
  "gcs_name prefix seq extension = prefix @ to_radix 10 seq @ extension"

definition gcs_list :: "('g, 'w) gcs \<Rightarrow> string \<Rightarrow> 'g \<Rightarrow> nat list result" where
  "gcs_list G prefix g =
     res_bind (g_list G prefix g) (\<lambda>names.
       Inr (sort (List.map_filter (\<lambda>name.
         log_number (if prefix = [] then name
                     else case strip_prefix prefix name of Some n \<Rightarrow> n | None \<Rightarrow> name)) names)))"

definition gcs_is_done :: "('g, 'w) gcs \<Rightarrow> string \<Rightarrow> nat \<Rightarrow> 'g \<Rightarrow> bool result" where
  "gcs_is_done G prefix seq g =
     (case g_generation G (gcs_name prefix seq ''.done'') g of Inr _ \<Rightarrow> Inr True | Inl _ \<Rightarrow> Inr False)"

definition gcs_mark ::
  "('g, 'w) gcs \<Rightarrow> string \<Rightarrow> nat \<Rightarrow> string \<Rightarrow> bytes option \<Rightarrow> bytes option \<Rightarrow> 'g \<Rightarrow> 'g \<times> unit result" where
  "gcs_mark G prefix seq new_commit_oid pack_data idx_data g =
     and_then (write_rapid_object G (gcs_name prefix seq ''.done'') (str_bytes (new_commit_oid @ [CHR 0x0A])) g) (\<lambda>g _.
     and_then (case pack_data of
         Some pack \<Rightarrow> write_rapid_object G (gcs_name prefix seq ''.pack'') pack g | None \<Rightarrow> (g, Inr ())) (\<lambda>g _.
     case idx_data of
       Some idx \<Rightarrow> write_rapid_object G (gcs_name prefix seq ''.idx'') idx g | None \<Rightarrow> (g, Inr ())))"

fun gcs_lockout :: "('g, 'w) gcs \<Rightarrow> string \<Rightarrow> nat list \<Rightarrow> 'g \<Rightarrow> 'g \<times> unit result" where
  "gcs_lockout G prefix [] g = (g, Inr ())"
| "gcs_lockout G prefix (seq # seqs) g =
     gcs_lockout G prefix seqs
       (case g_generation G (gcs_name prefix seq ''.log'') g of
          Inl _ \<Rightarrow> g
        | Inr generation \<Rightarrow>
            (case g_reopen G (gcs_name prefix seq ''.log'') generation g of
               (g, Inr w) \<Rightarrow> fst (g_finalize G w g)
             | (g, Inl _) \<Rightarrow> g))"

definition gcs_wal_ops :: "('g, 'w) gcs \<Rightarrow> codec \<Rightarrow> string \<Rightarrow> ('g, 'w) wal_ops" where
  "gcs_wal_ops G C prefix =
     \<lparr>wb_list = gcs_list G prefix, wb_is_done = gcs_is_done G prefix, wb_mark = gcs_mark G prefix,
      wb_lockout = gcs_lockout G prefix, wb_open = (\<lambda>seq. g_open G (gcs_name prefix seq ''.log'')),
      wb_read = (\<lambda>seq. g_read G (gcs_name prefix seq ''.log'')),
      ww_append = (\<lambda>w e. g_append G w (encode_framed C e)), ww_flush = g_flush G, ww_finalize = g_finalize G\<rparr>"

text \<open>The prefix as \<open>GcsRapidWalBackend::new\<close> keeps it.\<close>

definition gcs_wal_new :: "('g, 'w) gcs \<Rightarrow> codec \<Rightarrow> string \<Rightarrow> ('g, 'w) wal_ops" where
  "gcs_wal_new G C prefix = gcs_wal_ops G C (trim_start_char (CHR ''/'') prefix)"

section \<open>Names\<close>

lemma strip_suffix_append: "strip_suffix p (s @ p) = Some s"
  by (simp add: strip_suffix_def ends_with_def starts_with_def)

lemma to_radix_ascii: "c \<in> set (to_radix 10 n) \<Longrightarrow> of_char c < (128 :: nat)"
proof -
  assume "c \<in> set (to_radix 10 n)"
  then obtain d where "d < 10" "c = digit_char d" using set_to_radix [of 10 c n] by auto
  then show ?thesis by (simp add: digit_char_def of_char_of)
qed

lemma lossy_number:
  "\<forall>c \<in> set e. of_char c < (128 :: nat) \<Longrightarrow> from_utf8_lossy (str_bytes (to_radix 10 n @ e)) = to_radix 10 n @ e"
  by (rule from_utf8_lossy_str, rule utf8_valid_str_ascii) (use to_radix_ascii in auto)

lemma log_number_log: "q \<le> u64_max \<Longrightarrow> log_number (to_radix 10 q @ ''.log'') = Some q"
  using from_to_radix [of 10 q u64_max] by (simp add: log_number_def strip_suffix_append)

lemma log_number_other:
  "log_number (to_radix 10 q @ ''.done'') = None" "log_number (to_radix 10 q @ ''.pack'') = None"
  "log_number (to_radix 10 q @ ''.idx'') = None"
  by (simp_all add: log_number_def strip_suffix_def ends_with_def starts_with_def)

lemma local_path_log [simp]:
  "local_done_path a \<noteq> local_log_path b" "local_pack_path a \<noteq> local_log_path b" "local_idx_path a \<noteq> local_log_path b"
  "local_pack_path a \<noteq> local_done_path b" "local_idx_path a \<noteq> local_done_path b"
proof -
  have l: "x @ u \<noteq> y @ v" if "last u \<noteq> last v" "u \<noteq> []" "v \<noteq> []" for x y u v :: string
  proof
    assume "x @ u = y @ v"
    then have "last (x @ u) = last (y @ v)" by (rule arg_cong)
    then show False using that by simp
  qed
  show "local_done_path a \<noteq> local_log_path b" "local_pack_path a \<noteq> local_log_path b" "local_idx_path a \<noteq> local_log_path b"
    "local_pack_path a \<noteq> local_done_path b" "local_idx_path a \<noteq> local_done_path b"
    unfolding local_done_path_def local_log_path_def local_pack_path_def local_idx_path_def list.inject
    by (simp_all add: l)
qed

lemma local_path_inject [simp]:
  "local_log_path a = local_log_path b \<longleftrightarrow> a = b" "local_done_path a = local_done_path b \<longleftrightarrow> a = b"
  by (simp_all only: local_log_path_def local_done_path_def list.inject append_same_eq to_radix_inject simp_thms)

section \<open>The local directory meets the contract\<close>

definition local_logs :: "local_wal \<Rightarrow> nat \<Rightarrow> bytes option" where
  "local_logs s q = hm_get (lw_files s) (local_log_path q)"

definition local_completed :: "local_wal \<Rightarrow> nat set" where
  "local_completed s = {q. hm_get (lw_files s) (local_done_path q) \<noteq> None}"

text \<open>The number of a file; no file is a log under another spelling of its number, and numbers have 64 bits.\<close>

definition file_number :: "path \<Rightarrow> nat option" where
  "file_number p = log_number (from_utf8_lossy (str_bytes (last p)))"

definition local_inv :: "local_wal \<Rightarrow> bool" where
  "local_inv s \<longleftrightarrow> (\<forall>p q. hm_get (lw_files s) p \<noteq> None \<longrightarrow> file_number p = Some q \<longrightarrow> p = local_log_path q) \<and>
     (\<forall>q. hm_get (lw_files s) (local_log_path q) \<noteq> None \<longrightarrow> q \<le> u64_max)"

lemma file_number_log: "q \<le> u64_max \<Longrightarrow> file_number (local_log_path q) = Some q"
  by (simp add: file_number_def local_log_path_def lossy_number log_number_log del: str_bytes_append)

lemma file_number_other: "file_number (local_done_path q) = None" "file_number (local_pack_path q) = None"
  "file_number (local_idx_path q) = None"
  by (simp_all add: file_number_def local_done_path_def local_pack_path_def local_idx_path_def lossy_number
      log_number_other del: str_bytes_append)

text \<open>A write beside the logs.\<close>

lemma local_write_beside:
  assumes "file_number p = None" "\<And>q. p \<noteq> local_log_path q"
  shows "local_inv s \<Longrightarrow> local_inv (fst (local_write os p data s))"
    "local_logs (fst (local_write os p data s)) = local_logs s"
    "p \<noteq> local_done_path q \<Longrightarrow> q \<in> local_completed (fst (local_write os p data s)) \<longleftrightarrow> q \<in> local_completed s"
    "snd (local_write os (local_done_path r) data s) = Inr () \<Longrightarrow> r \<in> local_completed (fst (local_write os (local_done_path r) data s))"
  using assms
  by (auto simp: local_write_def fs_write_def local_inv_def local_logs_def local_completed_def fs_is_file_def
      fun_eq_iff split: if_splits)

lemma mark_steps:
  assumes "P s" "\<And>d t. P t \<Longrightarrow> P (fst (local_write os (local_done_path q) d t))"
    "\<And>d t. P t \<Longrightarrow> P (fst (local_write os (local_pack_path q) d t))"
    "\<And>d t. P t \<Longrightarrow> P (fst (local_write os (local_idx_path q) d t))"
  shows "P (fst (local_mark os q c pk ix s))"
  unfolding local_mark_def
  by (intro fst_and_then [where P = P]) (use assms in \<open>auto split: option.splits\<close>)

lemma local_mark_done:
  assumes "snd (local_mark os q c pk ix s) = Inr ()"
  shows "q \<in> local_completed (fst (local_mark os q c pk ix s))"
proof -
  let ?d = "str_bytes (c @ [CHR 0x0A])"
  obtain s1 r1 where w: "local_write os (local_done_path q) ?d s = (s1, r1)" by fastforce
  then obtain u where r1: "r1 = Inr u" using assms by (cases r1) (auto simp: local_mark_def)
  have s1: "q \<in> local_completed s1"
    using local_write_beside(4) [OF file_number_other(1) local_path_log(1), where r = q and os = os and data = ?d and s = s] w r1
    by simp
  have pk: "q \<in> local_completed t \<Longrightarrow> q \<in> local_completed (fst (local_write os (local_pack_path q) d t))" for d t
    using local_write_beside(3) [OF file_number_other(2) local_path_log(2) local_path_log(4)] by blast
  have ix: "q \<in> local_completed t \<Longrightarrow> q \<in> local_completed (fst (local_write os (local_idx_path q) d t))" for d t
    using local_write_beside(3) [OF file_number_other(3) local_path_log(3) local_path_log(5)] by blast
  have "q \<in> local_completed (fst (and_then (case pk of Some pack \<Rightarrow> local_write os (local_pack_path q) pack s1 | None \<Rightarrow> (s1, Inr ()))
      (\<lambda>s _. case ix of Some idx \<Rightarrow> local_write os (local_idx_path q) idx s | None \<Rightarrow> (s, Inr ()))))"
    by (rule fst_and_then [where P = "\<lambda>t. q \<in> local_completed t"]) (use s1 pk ix in \<open>auto split: option.splits\<close>)
  then show ?thesis by (simp add: local_mark_def w r1 del: str_bytes_append)
qed

lemma local_lockout_files [simp]: "lw_files (fst (local_lockout os qs s)) = lw_files s"
  by (induction os qs s rule: local_lockout.induct) (simp_all add: Let_def)

lemma local_list_logs:
  assumes "local_inv s" "os_ok os (Fs_Stat [])" "local_list os s = Inr qs"
  shows "set qs = {q. local_logs s q \<noteq> None}"
proof -
  have "set qs = {q. \<exists>p. hm_get (lw_files s) p \<noteq> None \<and> file_number p = Some q}"
    using assms(2,3) unfolding local_list_def file_number_def [symmetric] hm_get_None_iff
    by (force simp: map_filter_def split: if_splits)
  also have "\<dots> = {q. local_logs s q \<noteq> None}"
  proof (intro set_eqI iffI; elim CollectE exE conjE; rule CollectI)
    fix q p assume p: "hm_get (lw_files s) p \<noteq> None" "file_number p = Some q"
    then have "p = local_log_path q" using assms(1) unfolding local_inv_def by blast
    then show "local_logs s q \<noteq> None" using p(1) by (simp add: local_logs_def)
  next
    fix q assume "local_logs s q \<noteq> None"
    then have "hm_get (lw_files s) (local_log_path q) \<noteq> None" "q \<le> u64_max"
      using assms(1) by (simp_all add: local_logs_def local_inv_def)
    then show "\<exists>p. hm_get (lw_files s) p \<noteq> None \<and> file_number p = Some q" using file_number_log by blast
  qed
  finally show ?thesis .
qed

interpretation local_store: exact_wal_store "local_wal_ops os C" local_logs local_completed local_inv "os_ok os (Fs_Stat [])" for os C
proof unfold_locales
  note beside = local_write_beside [OF file_number_other(1) local_path_log(1)]
    local_write_beside [OF file_number_other(2) local_path_log(2)] local_write_beside [OF file_number_other(3) local_path_log(3)]
  fix s q c pk ix qs r d
  assume inv: "local_inv s"
  show "wb_read (local_wal_ops os C) q s = Inr d \<Longrightarrow> local_logs s q = Some d"
    by (auto simp: local_wal_ops_def local_read_def local_logs_def split: option.splits dest: fs_read_Some)
  show "wb_is_done (local_wal_ops os C) q s = Inr True \<Longrightarrow> q \<in> local_completed s"
    by (simp add: local_wal_ops_def local_is_done_def local_completed_def fs_is_file_def)
  show "local_inv (fst (wb_mark (local_wal_ops os C) q c pk ix s))"
    using mark_steps [where P = local_inv, OF inv] beside(1,5,9) by (simp add: local_wal_ops_def)
  show "local_logs (fst (wb_mark (local_wal_ops os C) q c pk ix s)) = local_logs s"
    using mark_steps [where P = "\<lambda>t. local_logs t = local_logs s", OF refl] beside(2,6,10) by (simp add: local_wal_ops_def)
  show "r \<in> local_completed (fst (wb_mark (local_wal_ops os C) q c pk ix s)) \<longleftrightarrow> r \<in> local_completed s" if "r \<noteq> q"
    using mark_steps [where P = "\<lambda>t. r \<in> local_completed t \<longleftrightarrow> r \<in> local_completed s", OF refl] beside(3,7,11) that
    by (simp add: local_wal_ops_def)
  show "q \<in> local_completed (fst (wb_mark (local_wal_ops os C) q c pk ix s))"
    if "snd (wb_mark (local_wal_ops os C) q c pk ix s) = Inr ()"
    using local_mark_done that by (simp add: local_wal_ops_def)
  show "local_inv (fst (wb_lockout (local_wal_ops os C) qs s))" "local_logs (fst (wb_lockout (local_wal_ops os C) qs s)) = local_logs s"
    "local_completed (fst (wb_lockout (local_wal_ops os C) qs s)) = local_completed s"
    using inv by (simp_all add: local_wal_ops_def local_inv_def local_logs_def local_completed_def fun_eq_iff)
  show "set qs = {q. local_logs s q \<noteq> None}" if "os_ok os (Fs_Stat [])" "wb_list (local_wal_ops os C) s = Inr qs"
    using local_list_logs [OF inv that(1)] that(2) by (simp add: local_wal_ops_def)
  show "set qs \<subseteq> {q. local_logs s q \<noteq> None}" if "wb_list (local_wal_ops os C) s = Inr qs"
    using local_list_logs [OF inv] that by (cases "os_ok os (Fs_Stat [])") (auto simp: local_wal_ops_def local_list_def)
qed

lemma local_done_seen:
  "os_ok os (Fs_Stat (local_done_path q)) \<Longrightarrow> q \<in> local_completed s \<Longrightarrow> wb_is_done (local_wal_ops os C) q s = Inr True"
  by (simp add: local_wal_ops_def local_is_done_def local_completed_def fs_is_file_def)

definition local_handle :: "local_wal \<Rightarrow> path \<Rightarrow> nat \<Rightarrow> bytes \<Rightarrow> bool" where
  "local_handle s w q d \<longleftrightarrow> w = local_log_path q \<and> hm_get (lw_files s) w = Some d"

interpretation local_log: append_log "local_wal_ops os C" C local_logs local_handle for os C
  by unfold_locales
    (auto simp: local_wal_ops_def local_handle_def local_logs_def local_open_def local_append_def local_flush_def
      fs_append_def fs_is_file_def Let_def split: if_splits)

section \<open>The bucket meets the contract\<close>

definition gcs_logs :: "('g, 'w) gcs \<Rightarrow> string \<Rightarrow> 'g \<Rightarrow> nat \<Rightarrow> bytes option" where
  "gcs_logs G prefix g q = g_object G g (gcs_name prefix q ''.log'')"

definition gcs_completed :: "('g, 'w) gcs \<Rightarrow> string \<Rightarrow> 'g \<Rightarrow> nat set" where
  "gcs_completed G prefix g = {q. g_object G g (gcs_name prefix q ''.done'') \<noteq> None}"

definition gcs_handle :: "('g, 'w) gcs \<Rightarrow> string \<Rightarrow> 'g \<Rightarrow> 'w \<Rightarrow> nat \<Rightarrow> bytes \<Rightarrow> bool" where
  "gcs_handle G prefix g w q d \<longleftrightarrow> g_name G w = gcs_name prefix q ''.log'' \<and> g_pending G g w = d"

lemma suffix_ne: "last u \<noteq> last v \<Longrightarrow> u \<noteq> [] \<Longrightarrow> v \<noteq> [] \<Longrightarrow> x @ u \<noteq> y @ v"
  by (metis last_appendR)

lemma gcs_name_simps [simp]:
  "gcs_name prefix a ''.done'' \<noteq> gcs_name prefix b ''.log''" "gcs_name prefix a ''.pack'' \<noteq> gcs_name prefix b ''.log''"
  "gcs_name prefix a ''.idx'' \<noteq> gcs_name prefix b ''.log''" "gcs_name prefix a ''.pack'' \<noteq> gcs_name prefix b ''.done''"
  "gcs_name prefix a ''.idx'' \<noteq> gcs_name prefix b ''.done''"
  "gcs_name prefix a ext = gcs_name prefix b ext \<longleftrightarrow> a = b"
  unfolding gcs_name_def append_assoc [symmetric] by (intro suffix_ne, simp_all)+ (simp add: to_radix_inject)

lemma gcs_append_log: "gcs_write_laws G \<Longrightarrow> append_log (gcs_wal_ops G C prefix) C (gcs_logs G prefix) (gcs_handle G prefix)"
  by unfold_locales
    (auto simp: gcs_wal_ops_def gcs_handle_def gcs_logs_def dest: gcs_open gcs_append gcs_flush gcs_finalize)

lemma write_keeps_object:
  assumes "gcs_write_laws G" "m \<noteq> n" "g_object G g m = x"
  shows "g_object G (fst (write_rapid_object G n data g)) m = x"
  using write_rapid_object_spec(1) [OF assms(1) prod.collapse [symmetric], where name = n and data = data and g = g] assms(2,3)
  by (simp add: only_object_def)

lemma gcs_mark_keeps:
  assumes W: "gcs_write_laws G" and m: "m \<notin> {gcs_name prefix q ''.done'', gcs_name prefix q ''.pack'', gcs_name prefix q ''.idx''}"
  shows "g_object G (fst (gcs_mark G prefix q c pk ix g)) m = g_object G g m"
  unfolding gcs_mark_def using m
  by (intro fst_and_then [where P = "\<lambda>g'. g_object G g' m = g_object G g m"])
    (auto intro!: write_keeps_object [OF W] split: option.splits)

lemma gcs_mark_done:
  assumes W: "gcs_write_laws G" and ok: "snd (gcs_mark G prefix q c pk ix g) = Inr ()"
  shows "g_object G (fst (gcs_mark G prefix q c pk ix g)) (gcs_name prefix q ''.done'') \<noteq> None"
proof -
  let ?m = "gcs_name prefix q ''.done''"
  obtain g1 r1 where w: "write_rapid_object G ?m (str_bytes (c @ [CHR 0x0A])) g = (g1, r1)" by fastforce
  then obtain u where r1: "r1 = Inr u" using ok by (cases r1) (auto simp: gcs_mark_def)
  have "g_object G g1 ?m \<noteq> None" using write_rapid_object_spec(2) [OF W w] r1 by simp
  then have "g_object G (fst (and_then (case pk of Some pack \<Rightarrow> write_rapid_object G (gcs_name prefix q ''.pack'') pack g1 | None \<Rightarrow> (g1, Inr ()))
      (\<lambda>g _. case ix of Some idx \<Rightarrow> write_rapid_object G (gcs_name prefix q ''.idx'') idx g | None \<Rightarrow> (g, Inr ())))) ?m = g_object G g1 ?m"
    by (intro fst_and_then [where P = "\<lambda>g'. g_object G g' ?m = g_object G g1 ?m"])
      (auto intro!: write_keeps_object [OF W] gcs_name_simps [symmetric] split: option.splits)
  then show ?thesis using \<open>g_object G g1 ?m \<noteq> None\<close> by (simp add: gcs_mark_def w r1 del: str_bytes_append)
qed

lemma gcs_lockout_objects:
  assumes W: "gcs_write_laws G" and R: "gcs_reopen_laws G"
  shows "g_object G (fst (gcs_lockout G prefix qs g)) = g_object G g"
proof (induction qs arbitrary: g)
  case (Cons q qs)
  let ?n = "gcs_name prefix q ''.log''"
  show ?case
  proof (cases "g_generation G ?n g")
    case (Inr k)
    obtain g1 r where re: "g_reopen G ?n k g = (g1, r)" by fastforce
    have o: "g_object G g1 = g_object G g" using R re unfolding gcs_reopen_laws_def by blast
    show ?thesis
    proof (cases r)
      case w: (Inr w)
      obtain g2 r2 where f: "g_finalize G w g1 = (g2, r2)" by fastforce
      have n: "g_name G w = ?n" "g_object G g ?n = Some (g_pending G g1 w)"
        using R re w unfolding gcs_reopen_laws_def by blast+
      have "g_object G g2 ?n = g_object G g1 ?n" using R f n o unfolding gcs_reopen_laws_def by metis
      then have "g_object G g2 = g_object G g" using gcs_finalize(1) [OF W f] n(1) o unfolding only_object_def fun_eq_iff by metis
      then show ?thesis using Cons by (simp add: Inr re w f)
    qed (use Cons o in \<open>simp add: Inr re\<close>)
  qed (use Cons in simp)
qed simp

lemma gcs_wal_store:
  assumes laws: "gcs_read_laws G" "gcs_write_laws G" "gcs_reopen_laws G"
  shows "wal_store (gcs_wal_ops G C prefix) (gcs_logs G prefix) (gcs_completed G prefix) (\<lambda>_. True)"
proof
  fix s q c pk ix qs r d
  show "wb_read (gcs_wal_ops G C prefix) q s = Inr d \<Longrightarrow> gcs_logs G prefix s q = Some d"
    using laws(1) by (simp add: gcs_wal_ops_def gcs_logs_def gcs_read_laws_def)
  show "wb_is_done (gcs_wal_ops G C prefix) q s = Inr True \<Longrightarrow> q \<in> gcs_completed G prefix s"
    using laws(3) by (auto simp: gcs_wal_ops_def gcs_is_done_def gcs_completed_def gcs_reopen_laws_def split: sum.splits)
  show "gcs_logs G prefix (fst (wb_mark (gcs_wal_ops G C prefix) q c pk ix s)) = gcs_logs G prefix s"
    by (simp add: gcs_wal_ops_def gcs_logs_def gcs_mark_keeps [OF laws(2)] gcs_name_simps(1-3) [symmetric] fun_eq_iff)
  show "r \<in> gcs_completed G prefix (fst (wb_mark (gcs_wal_ops G C prefix) q c pk ix s)) \<longleftrightarrow> r \<in> gcs_completed G prefix s"
    if "r \<noteq> q"
    using that by (simp add: gcs_wal_ops_def gcs_completed_def gcs_mark_keeps [OF laws(2)] gcs_name_simps(4,5) [symmetric])
  show "q \<in> gcs_completed G prefix (fst (wb_mark (gcs_wal_ops G C prefix) q c pk ix s))"
    if "snd (wb_mark (gcs_wal_ops G C prefix) q c pk ix s) = Inr ()"
    using gcs_mark_done [OF laws(2)] that by (simp add: gcs_wal_ops_def gcs_completed_def)
  show "gcs_logs G prefix (fst (wb_lockout (gcs_wal_ops G C prefix) qs s)) = gcs_logs G prefix s"
    "gcs_completed G prefix (fst (wb_lockout (gcs_wal_ops G C prefix) qs s)) = gcs_completed G prefix s"
    by (simp_all add: gcs_wal_ops_def gcs_logs_def gcs_completed_def gcs_lockout_objects [OF laws(2,3)] fun_eq_iff)
qed simp_all

interpretation bucket_store: wal_store "gcs_wal_ops demo_gcs C prefix" "gcs_logs demo_gcs prefix"
  "gcs_completed demo_gcs prefix" "\<lambda>_. True" for C prefix
  by (rule gcs_wal_store) simp_all

interpretation bucket_log: append_log "gcs_wal_ops demo_gcs C prefix" C "gcs_logs demo_gcs prefix" "gcs_handle demo_gcs prefix"
  for C prefix
  by (rule gcs_append_log) simp

end
