(* ===== verification/Recovery.thy ===== *)
theory Recovery
  imports Git_Engine Tree_Builder Wal_Proto Vfs_Spec Pack_Writer
begin

text \<open>
  Crash recovery, \<^verbatim>\<open>src/src/wal/recovery.rs\<close>: log entries are replayed on an inode table, a
  staging area and the git engine, together the record \<open>world\<close>, and a commit is packed from the
  result. A replay may read blobs from a bucket, so it is \<open>None\<close> when the fuel of the engine runs
  out. The recency order of the memory cache is not changed by what the inode table looks up there.
\<close>

section \<open>The state\<close>

record ('c, 'b, 'g) world =
  wd_vfs :: vfs
  wd_staging :: staging
  wd_engine :: "('c, 'b, 'g) git_engine"

definition on_vfs ::
  "('c, 'b, 'g, 'w) env \<Rightarrow> (repo_view \<Rightarrow> vfs \<Rightarrow> vfs \<times> 'a result) \<Rightarrow> ('c, 'b, 'g) world \<Rightarrow>
   ('c, 'b, 'g) world \<times> 'a result" where
  "on_vfs ev f w =
     (case f (engine_view ev (wd_engine w)) (wd_vfs w) of (v, r) \<Rightarrow> (w\<lparr>wd_vfs := v\<rparr>, r))"

definition on_staging ::
  "(staging \<Rightarrow> staging \<times> 'a result) \<Rightarrow> ('c, 'b, 'g) world \<Rightarrow> ('c, 'b, 'g) world \<times> 'a result" where
  "on_staging f w = (case f (wd_staging w) of (s, r) \<Rightarrow> (w\<lparr>wd_staging := s\<rparr>, r))"

definition changed :: "string \<Rightarrow> ('c, 'b, 'g) world \<Rightarrow> ('c, 'b, 'g) world" where
  "changed path w = w\<lparr>wd_staging := record_changed_path path (wd_staging w)\<rparr>"

definition deleted :: "nat \<Rightarrow> ('c, 'b, 'g) world \<Rightarrow> ('c, 'b, 'g) world" where
  "deleted i w = w\<lparr>wd_staging := mark_deleted i (wd_staging w)\<rparr>"

definition resized :: "nat \<Rightarrow> nat \<Rightarrow> ('c, 'b, 'g) world \<Rightarrow> ('c, 'b, 'g) world" where
  "resized i n w = w\<lparr>wd_vfs := update_file_size i n (wd_vfs w)\<rparr>"

text \<open>\<open>.ok()\<close> drops an error, but not a panic.\<close>

definition ok_option :: "'a result \<Rightarrow> 'a option result" where
  "ok_option r = (case r of Inr x \<Rightarrow> Inr (Some x) | Inl e \<Rightarrow> if e = Panic then Inl Panic else Inr None)"

text \<open>The committed content of a node, fetched when a first write is to change it.\<close>

definition base_data ::
  "('c, 'b, 'g, 'w) env \<Rightarrow> nat \<Rightarrow> string \<Rightarrow> ('c, 'b, 'g) world \<Rightarrow> (('c, 'b, 'g) world \<times> bytes option result) option" where
  "base_data ev i oid w =
     (if is_staged (wd_staging w) i \<or> oid = [] then Some (w, Inr None)
      else map_option (\<lambda>(e, r). (w\<lparr>wd_engine := e\<rparr>, ok_option r)) (get_blob ev oid (wd_engine w)))"

section \<open>Replaying one entry\<close>

fun replay_mode :: "inode_type \<Rightarrow> tree_entry_mode" where
  "replay_mode Executable_Inode = ExecutableFile"
| "replay_mode Symlink_Inode = Symlink"
| "replay_mode _ = RegularFile"

definition replay_create ::
  "('c, 'b, 'g, 'w) env \<Rightarrow> io \<Rightarrow> string \<Rightarrow> tree_entry_mode \<Rightarrow> ('c, 'b, 'g) world \<Rightarrow> ('c, 'b, 'g) world \<times> nat result" where
  "replay_create ev io path mode w =
     and_then (on_vfs ev (\<lambda>rv. ensure_parent_dirs rv path) w) (\<lambda>w (parent_id, name).
     and_then (on_vfs ev (\<lambda>rv. vfs_create_file rv parent_id name mode) w) (\<lambda>w node.
     and_then (on_staging (staging_create_file io (vn_id node)) w) (\<lambda>w _. (w, Inr (vn_id node)))))"

definition replay_mkdir ::
  "('c, 'b, 'g, 'w) env \<Rightarrow> string \<Rightarrow> ('c, 'b, 'g) world \<Rightarrow> ('c, 'b, 'g) world \<times> unit result" where
  "replay_mkdir ev path w =
     and_then (on_vfs ev (\<lambda>rv. ensure_parent_dirs rv path) w) (\<lambda>w (parent_id, name).
     and_then (on_vfs ev (\<lambda>rv. vfs_mkdir rv parent_id name) w) (\<lambda>w _. (w, Inr ())))"

text \<open>The node of a path, created when there is none.\<close>

definition replay_node ::
  "('c, 'b, 'g, 'w) env \<Rightarrow> io \<Rightarrow> string \<Rightarrow> ('c, 'b, 'g) world \<Rightarrow> ('c, 'b, 'g) world \<times> nat result" where
  "replay_node ev io path w =
     (case on_vfs ev (\<lambda>rv. lookup_path rv path) w of
        (w, Inr i) \<Rightarrow> (w, Inr i)
      | (w, Inl _) \<Rightarrow> replay_create ev io path RegularFile w)"

definition write_node ::
  "('c, 'b, 'g, 'w) env \<Rightarrow> io \<Rightarrow> nat \<Rightarrow> string \<Rightarrow> nat \<Rightarrow> bytes \<Rightarrow> ('c, 'b, 'g) world \<Rightarrow>
   (('c, 'b, 'g) world \<times> unit result) option" where
  "write_node ev io i oid offset data w =
     fuel_then (base_data ev i oid w) (\<lambda>w base.
       Some (and_then (on_staging (staging_write_at io i offset data base) w) (\<lambda>w new_len.
         (resized i new_len w, Inr ()))))"

definition truncate_node ::
  "('c, 'b, 'g, 'w) env \<Rightarrow> io \<Rightarrow> nat \<Rightarrow> string \<Rightarrow> nat \<Rightarrow> ('c, 'b, 'g) world \<Rightarrow>
   (('c, 'b, 'g) world \<times> unit result) option" where
  "truncate_node ev io i oid new_size w =
     fuel_then (base_data ev i oid w) (\<lambda>w base.
       Some (and_then (on_staging (staging_truncate io i new_size base) w) (\<lambda>w _.
         (resized i new_size w, Inr ()))))"

definition replay_write ::
  "('c, 'b, 'g, 'w) env \<Rightarrow> io \<Rightarrow> string \<Rightarrow> nat \<Rightarrow> bytes \<Rightarrow> ('c, 'b, 'g) world \<Rightarrow>
   (('c, 'b, 'g) world \<times> unit result) option" where
  "replay_write ev io path offset data w =
     fuel_then (Some (replay_node ev io path w)) (\<lambda>w i.
       case get_node (wd_vfs w) i of
         None \<Rightarrow> Some (w, Inl (E_Vfs Vfs_NoNode))
       | Some node \<Rightarrow> write_node ev io i (vn_oid node) offset data w)"

definition replay_truncate ::
  "('c, 'b, 'g, 'w) env \<Rightarrow> io \<Rightarrow> string \<Rightarrow> nat \<Rightarrow> ('c, 'b, 'g) world \<Rightarrow> (('c, 'b, 'g) world \<times> unit result) option" where
  "replay_truncate ev io path new_size w =
     (case on_vfs ev (\<lambda>rv. lookup_path rv path) w of
        (w, Inl _) \<Rightarrow> Some (w, Inr ())
      | (w, Inr i) \<Rightarrow>
          (case get_node (wd_vfs w) i of
             None \<Rightarrow> Some (w, Inl (E_Vfs Vfs_NoNode))
           | Some node \<Rightarrow> truncate_node ev io i (vn_oid node) new_size w))"

definition replay_remove :: "('c, 'b, 'g, 'w) env \<Rightarrow> string \<Rightarrow> ('c, 'b, 'g) world \<Rightarrow> ('c, 'b, 'g) world" where
  "replay_remove ev path w =
     (case on_vfs ev (\<lambda>rv. lookup_path rv path) w of
        (w, Inl _) \<Rightarrow> w
      | (w, Inr i) \<Rightarrow>
          deleted i
            (case on_vfs ev (\<lambda>rv. ensure_parent_dirs rv path) w of
               (w, Inl _) \<Rightarrow> w
             | (w, Inr (parent_id, name)) \<Rightarrow> fst (on_vfs ev (\<lambda>rv. vfs_remove rv parent_id name) w)))"

definition replay_rename ::
  "('c, 'b, 'g, 'w) env \<Rightarrow> string \<Rightarrow> string \<Rightarrow> ('c, 'b, 'g) world \<Rightarrow> ('c, 'b, 'g) world" where
  "replay_rename ev from_path to_path w =
     (case on_vfs ev (\<lambda>rv. ensure_parent_dirs rv from_path) w of
        (w, Inl _) \<Rightarrow> w
      | (w, Inr (from_parent, from_name)) \<Rightarrow>
          (case on_vfs ev (\<lambda>rv. ensure_parent_dirs rv to_path) w of
             (w, Inl _) \<Rightarrow> w
           | (w, Inr (to_parent, to_name)) \<Rightarrow>
               fst (on_vfs ev (\<lambda>rv. vfs_rename rv from_parent from_name to_parent to_name) w)))"

fun replay_payload ::
  "('c, 'b, 'g, 'w) env \<Rightarrow> io \<Rightarrow> wal_payload \<Rightarrow> ('c, 'b, 'g) world \<Rightarrow> (('c, 'b, 'g) world \<times> unit result) option" where
  "replay_payload ev io (Wal_Header h) w = Some (w, Inr ())"
| "replay_payload ev io (Wal_Create_File path kind mode) w =
     Some (and_then (replay_create ev io path (replay_mode (inode_type_of kind)) (changed path w)) (\<lambda>w _. (w, Inr ())))"
| "replay_payload ev io (Wal_Mkdir path) w = Some (replay_mkdir ev path (changed path w))"
| "replay_payload ev io (Wal_Write path offset data) w = replay_write ev io path offset data (changed path w)"
| "replay_payload ev io (Wal_Truncate path new_size) w = replay_truncate ev io path new_size (changed path w)"
| "replay_payload ev io (Wal_Remove path) w = Some (replay_remove ev path (changed path w), Inr ())"
| "replay_payload ev io (Wal_Rename from_path to_path) w =
     Some (replay_rename ev from_path to_path (changed to_path (changed from_path w)), Inr ())"

section \<open>Replaying a log\<close>

fun replay_wal_entries ::
  "('c, 'b, 'g, 'w) env \<Rightarrow> io \<Rightarrow> wal_entry list \<Rightarrow> ('c, 'b, 'g) world \<Rightarrow> (('c, 'b, 'g) world \<times> unit result) option" where
  "replay_wal_entries ev io [] w = Some (w, Inr ())"
| "replay_wal_entries ev io (entry # es) w =
     (case we_payload entry of
        None \<Rightarrow> replay_wal_entries ev io es w
      | Some payload \<Rightarrow> fuel_then (replay_payload ev io payload w) (\<lambda>w _. replay_wal_entries ev io es w))"

record recovered_pack =
  rp_commit :: string
  rp_root :: string
  rp_pack :: bytes
  rp_idx :: bytes
  rp_sha :: string
  rp_objects :: "git_object_to_pack list"

definition build_pack_from_recovered_state ::
  "('c, 'b, 'g, 'w) env \<Rightarrow> io \<Rightarrow> nat \<Rightarrow> string \<Rightarrow> string \<Rightarrow> string \<Rightarrow> ('c, 'b, 'g) world \<Rightarrow>
   (('c, 'b, 'g) world \<times> recovered_pack option result) option" where
  "build_pack_from_recovered_state ev io timestamp base_commit_oid author commit_message w =
     (if \<not> has_modifications (wd_staging w) then Some (w, Inr None)
      else
        map_option (\<lambda>(v, r). (w\<lparr>wd_vfs := v\<rparr>,
            res_bind r (\<lambda>(commit, root, objects).
            res_bind (create_pack_and_index_bytes (ev_ext ev) objects) (\<lambda>(pack, idx, sha).
              Inr (Some \<lparr>rp_commit = commit, rp_root = root, rp_pack = pack, rp_idx = idx, rp_sha = sha, rp_objects = objects\<rparr>)))))
          (rebuild_git_objects (ev_ext ev) (engine_view ev (wd_engine w)) io timestamp (wd_staging w)
             base_commit_oid author commit_message (wd_vfs w)))"

section \<open>Lemmas\<close>

lemma world_fields [simp]:
  "wd_vfs (changed p w) = wd_vfs w" "wd_engine (changed p w) = wd_engine w"
  "wd_staging (changed p w) = record_changed_path p (wd_staging w)"
  "wd_vfs (deleted i w) = wd_vfs w" "wd_engine (deleted i w) = wd_engine w"
  "wd_staging (deleted i w) = mark_deleted i (wd_staging w)"
  "wd_staging (resized i n w) = wd_staging w" "wd_engine (resized i n w) = wd_engine w"
  "wd_vfs (resized i n w) = update_file_size i n (wd_vfs w)"
  by (simp_all add: changed_def deleted_def resized_def)

lemma on_vfs_fields [simp]:
  "wd_staging (fst (on_vfs ev f w)) = wd_staging w" "wd_engine (fst (on_vfs ev f w)) = wd_engine w"
  by (simp_all add: on_vfs_def split: prod.split)

lemma on_staging_fields [simp]:
  "wd_vfs (fst (on_staging f w)) = wd_vfs w" "wd_engine (fst (on_staging f w)) = wd_engine w"
  by (simp_all add: on_staging_def split: prod.split)

lemma on_vfs_vfs: "wd_vfs (fst (on_vfs ev f w)) = fst (f (engine_view ev (wd_engine w)) (wd_vfs w))"
  by (simp add: on_vfs_def split: prod.split)

lemma fuel_then_result:
  assumes "fuel_then r f = Some (w', q)"
    "\<And>w e. r = Some (w, Inl e) \<Longrightarrow> P w" "\<And>w x. r = Some (w, Inr x) \<Longrightarrow> f w x = Some (w', q) \<Longrightarrow> P w'"
  shows "P w'"
proof (cases r)
  case (Some p)
  then show ?thesis using assms by (cases p; cases "snd p") auto
qed (use assms in simp)

text \<open>An invariant of the inode table is kept by a replay, whatever the log contains and whatever fails.\<close>

locale replay_invariant =
  fixes I :: "vfs \<Rightarrow> bool"
  assumes table: "vfs_invariant rv I"
begin

lemma on_vfs_keeps: "(\<And>rv v. I v \<Longrightarrow> I (fst (f rv v))) \<Longrightarrow> I (wd_vfs w) \<Longrightarrow> I (wd_vfs (fst (on_vfs ev f w)))"
  by (simp add: on_vfs_vfs)

lemma vfs_steps:
  assumes "I (wd_vfs w)"
  shows "I (wd_vfs (fst (on_vfs ev (\<lambda>rv. lookup_path rv path) w)))"
    "I (wd_vfs (fst (on_vfs ev (\<lambda>rv. ensure_parent_dirs rv path) w)))"
    "I (wd_vfs (fst (on_vfs ev (\<lambda>rv. vfs_create_file rv d name mode) w)))"
    "I (wd_vfs (fst (on_vfs ev (\<lambda>rv. vfs_mkdir rv d name) w)))"
    "I (wd_vfs (fst (on_vfs ev (\<lambda>rv. vfs_remove rv d name) w)))"
    "I (wd_vfs (fst (on_vfs ev (\<lambda>rv. vfs_rename rv d name d' name') w)))"
  using assms table by (auto intro!: on_vfs_keeps intro: vfs_invariant.lookup_path_keeps vfs_invariant.ensure_parent_keeps
      vfs_invariant.create_keeps vfs_invariant.mkdir_keeps vfs_invariant.remove_keeps vfs_invariant.rename_keeps)

lemma create_keeps: "I (wd_vfs w) \<Longrightarrow> I (wd_vfs (fst (replay_create ev io path mode w)))"
  unfolding replay_create_def
  by (intro fst_and_then [where P = "\<lambda>w. I (wd_vfs w)"]) (auto intro: vfs_steps intro!: fst_and_then [where P = "\<lambda>w. I (wd_vfs w)"])

lemma mkdir_keeps: "I (wd_vfs w) \<Longrightarrow> I (wd_vfs (fst (replay_mkdir ev path w)))"
  unfolding replay_mkdir_def
  by (intro fst_and_then [where P = "\<lambda>w. I (wd_vfs w)"]) (auto intro: vfs_steps intro!: fst_and_then [where P = "\<lambda>w. I (wd_vfs w)"])

lemma node_keeps: "I (wd_vfs w) \<Longrightarrow> I (wd_vfs (fst (replay_node ev io path w)))"
proof -
  assume w: "I (wd_vfs w)"
  obtain w1 r1 where l: "on_vfs ev (\<lambda>rv. lookup_path rv path) w = (w1, r1)" by fastforce
  have "I (wd_vfs (fst (on_vfs ev (\<lambda>rv. lookup_path rv path) w)))" by (rule vfs_steps(1)) (rule w)
  then show ?thesis by (auto simp: replay_node_def l create_keeps split: sum.split)
qed

lemma remove_keeps: "I (wd_vfs w) \<Longrightarrow> I (wd_vfs (replay_remove ev path w))"
proof -
  assume w: "I (wd_vfs w)"
  obtain w1 r1 where l: "on_vfs ev (\<lambda>rv. lookup_path rv path) w = (w1, r1)" by fastforce
  obtain w2 r2 where e: "on_vfs ev (\<lambda>rv. ensure_parent_dirs rv path) w1 = (w2, r2)" by fastforce
  have "I (wd_vfs (fst (on_vfs ev (\<lambda>rv. lookup_path rv path) w)))" by (rule vfs_steps(1)) (rule w)
  then have w1: "I (wd_vfs w1)" by (simp add: l)
  then have "I (wd_vfs (fst (on_vfs ev (\<lambda>rv. ensure_parent_dirs rv path) w1)))" by (rule vfs_steps(2))
  then have "I (wd_vfs w2)" by (simp add: e)
  then show ?thesis using w1 by (auto simp: replay_remove_def l e vfs_steps split: sum.split)
qed

lemma rename_keeps: "I (wd_vfs w) \<Longrightarrow> I (wd_vfs (replay_rename ev from_path to_path w))"
proof -
  assume w: "I (wd_vfs w)"
  obtain w1 r1 where l: "on_vfs ev (\<lambda>rv. ensure_parent_dirs rv from_path) w = (w1, r1)" by fastforce
  obtain w2 r2 where e: "on_vfs ev (\<lambda>rv. ensure_parent_dirs rv to_path) w1 = (w2, r2)" by fastforce
  have "I (wd_vfs (fst (on_vfs ev (\<lambda>rv. ensure_parent_dirs rv from_path) w)))" by (rule vfs_steps(2)) (rule w)
  then have w1: "I (wd_vfs w1)" by (simp add: l)
  then have "I (wd_vfs (fst (on_vfs ev (\<lambda>rv. ensure_parent_dirs rv to_path) w1)))" by (rule vfs_steps(2))
  then have "I (wd_vfs w2)" by (simp add: e)
  then show ?thesis using w1 by (auto simp: replay_rename_def l e vfs_steps split: sum.split)
qed

lemma base_data_vfs: "base_data ev i oid w = Some (w', r) \<Longrightarrow> wd_vfs w' = wd_vfs w"
  by (auto simp: base_data_def split: if_splits)

lemma resized_keeps: "I (wd_vfs w) \<Longrightarrow> I (wd_vfs (resized i n w))"
  using vfs_invariant.size_keeps [OF table] by simp

lemma staged_keeps:
  "I (wd_vfs w) \<Longrightarrow> I (wd_vfs (fst (and_then (on_staging f w) (\<lambda>w x. (resized i (g x) w, Inr ())))))"
  by (intro fst_and_then [where P = "\<lambda>w. I (wd_vfs w)"]) (auto intro: resized_keeps simp del: world_fields)

lemma write_keeps:
  assumes "I (wd_vfs w)" "write_node ev io i oid off data w = Some (w', r)"
  shows "I (wd_vfs w')"
  using assms(2) unfolding write_node_def
proof (rule fuel_then_result)
  fix w1 base
  assume b: "base_data ev i oid w = Some (w1, Inr base)"
    and "Some (and_then (on_staging (staging_write_at io i off data base) w1) (\<lambda>w n. (resized i n w, Inr ()))) = Some (w', r)"
  then have "w' = fst (and_then (on_staging (staging_write_at io i off data base) w1) (\<lambda>w n. (resized i n w, Inr ())))"
    by (metis fst_conv option.inject)
  then show "I (wd_vfs w')" using assms(1) by (simp add: staged_keeps base_data_vfs [OF b] del: world_fields)
qed (use base_data_vfs assms(1) in metis)

lemma truncate_keeps:
  assumes "I (wd_vfs w)" "truncate_node ev io i oid n w = Some (w', r)"
  shows "I (wd_vfs w')"
  using assms(2) unfolding truncate_node_def
proof (rule fuel_then_result)
  fix w1 base
  assume b: "base_data ev i oid w = Some (w1, Inr base)"
    and "Some (and_then (on_staging (staging_truncate io i n base) w1) (\<lambda>w _. (resized i n w, Inr ()))) = Some (w', r)"
  then have "w' = fst (and_then (on_staging (staging_truncate io i n base) w1) (\<lambda>w _. (resized i n w, Inr ())))"
    by (metis fst_conv option.inject)
  then show "I (wd_vfs w')" using assms(1) by (simp add: staged_keeps base_data_vfs [OF b] del: world_fields)
qed (use base_data_vfs assms(1) in metis)

lemma payload_keeps:
  assumes w: "I (wd_vfs w)" and run: "replay_payload ev io payload w = Some (w', r)"
  shows "I (wd_vfs w')"
proof (cases payload)
  case (Wal_Create_File path kind mode)
  have "I (wd_vfs (fst (and_then (replay_create ev io path (replay_mode (inode_type_of kind)) (changed path w)) (\<lambda>w _. (w, Inr ())))))"
    by (rule fst_and_then [where P = "\<lambda>w. I (wd_vfs w)"]) (simp_all add: w create_keeps)
  then show ?thesis using run Wal_Create_File by simp
next
  case (Wal_Mkdir path)
  then show ?thesis using run mkdir_keeps [of "changed path w"] w by (metis fst_conv option.inject replay_payload.simps(3) world_fields(1))
next
  case (Wal_Write path off data)
  have n: "I (wd_vfs (fst (replay_node ev io path (changed path w))))" by (simp add: node_keeps w)
  have "replay_write ev io path off data (changed path w) = Some (w', r)" using run Wal_Write by simp
  then show ?thesis unfolding replay_write_def
    by (rule fuel_then_result) (use n write_keeps in \<open>auto split: option.splits\<close>)
next
  case (Wal_Truncate path n)
  have "I (wd_vfs (fst (on_vfs ev (\<lambda>rv. lookup_path rv path) (changed path w))))" by (rule vfs_steps(1)) (simp add: w)
  then show ?thesis using run Wal_Truncate truncate_keeps
    by (auto simp: replay_truncate_def split: prod.splits sum.splits option.splits)
qed (use w run in \<open>auto simp: remove_keeps rename_keeps\<close>)

lemma replay_keeps: "I (wd_vfs w) \<Longrightarrow> replay_wal_entries ev io es w = Some (w', r) \<Longrightarrow> I (wd_vfs w')"
proof (induction es arbitrary: w)
  case (Cons e es)
  show ?case
  proof (cases "we_payload e")
    case None
    then show ?thesis using Cons by simp
  next
    case (Some payload)
    then have "fuel_then (replay_payload ev io payload w) (\<lambda>w _. replay_wal_entries ev io es w) = Some (w', r)"
      using Cons.prems by simp
    then show ?thesis by (rule fuel_then_result) (use Cons payload_keeps in blast)+
  qed
qed simp

end

interpretation wf_replay: replay_invariant vfs_wf
  by (rule replay_invariant.intro) (rule wf.vfs_invariant_axioms)

end
