(* ===== verification/Wal_Manager.thy ===== *)
theory Wal_Manager
  imports Wal_Backend Recovery Engine_Spec
begin

text \<open>
  The manager of the write-ahead log, \<^verbatim>\<open>src/src/wal/mod.rs\<close>: the log that the running session
  appends to, and the recovery of the logs that earlier sessions left without a done marker. The
  backend \<open>B\<close> is any implementation of the traits, with its state \<open>wm_store\<close>; the bucket of the
  log and the bucket of the repository have separate states (their objects have different names).
  The clock is the argument \<open>now\<close>, in nanoseconds; one call reads one instant.
\<close>

section \<open>The session's log\<close>

record ('s, 'w) wal_manager =
  wm_store :: 's
  wm_active_seq :: nat
  wm_writer :: "'w option"
  wm_entry_seq :: nat

definition wal_manager_new :: "'s \<Rightarrow> nat \<Rightarrow> ('s, 'w) wal_manager" where
  "wal_manager_new s active_seq = \<lparr>wm_store = s, wm_active_seq = active_seq, wm_writer = None, wm_entry_seq = 1\<rparr>"

text \<open>\<open>fetch_add\<close> of a 64-bit counter wraps.\<close>

definition wrap64 :: "nat \<Rightarrow> nat" where
  "wrap64 n = n mod 2 ^ 64"

definition advance_seq :: "('s, 'w) wal_manager \<Rightarrow> ('s, 'w) wal_manager \<times> nat" where
  "advance_seq m =
     (m\<lparr>wm_entry_seq := 1, wm_active_seq := wrap64 (wm_active_seq m + 1)\<rparr>, wrap64 (wm_active_seq m + 1))"

definition on_store :: "('s \<Rightarrow> 's \<times> 'a result) \<Rightarrow> ('s, 'w) wal_manager \<Rightarrow> ('s, 'w) wal_manager \<times> 'a result" where
  "on_store f m = (case f (wm_store m) of (s, r) \<Rightarrow> (m\<lparr>wm_store := s\<rparr>, r))"

definition new_entry :: "nat \<Rightarrow> wal_payload \<Rightarrow> ('s, 'w) wal_manager \<Rightarrow> wal_entry" where
  "new_entry now payload m =
     \<lparr>we_seq = wm_entry_seq m, we_timestamp = wrap64 now, we_payload = Some payload\<rparr>"

definition count_entry :: "('s, 'w) wal_manager \<Rightarrow> ('s, 'w) wal_manager" where
  "count_entry m = m\<lparr>wm_entry_seq := wrap64 (wm_entry_seq m + 1)\<rparr>"

text \<open>An entry appended and made durable.\<close>

definition append_durably ::
  "('s, 'w) wal_ops \<Rightarrow> 'w \<Rightarrow> wal_entry \<Rightarrow> ('s, 'w) wal_manager \<Rightarrow> ('s, 'w) wal_manager \<times> unit result" where
  "append_durably B writer entry m =
     and_then (on_store (ww_append B writer entry) m) (\<lambda>m _. on_store (ww_flush B writer) m)"

definition session_header :: "nat \<Rightarrow> string \<Rightarrow> string \<Rightarrow> string \<Rightarrow> string \<Rightarrow> nat \<Rightarrow> wal_header" where
  "session_header now repo_url base_commit_oid author commit_message seq =
     \<lparr>wh_repo_url = repo_url, wh_base_commit_oid = base_commit_oid, wh_author = author,
      wh_commit_message = commit_message, wh_started_at = now div 1000000000, wh_wal_seq = seq\<rparr>"

definition start_active_wal ::
  "('s, 'w) wal_ops \<Rightarrow> nat \<Rightarrow> string \<Rightarrow> string \<Rightarrow> string \<Rightarrow> string \<Rightarrow> ('s, 'w) wal_manager \<Rightarrow>
   ('s, 'w) wal_manager \<times> unit result" where
  "start_active_wal B now repo_url base_commit_oid author commit_message m =
     and_then (on_store (wb_open B (wm_active_seq m)) m) (\<lambda>m writer.
       let header = session_header now repo_url base_commit_oid author commit_message (wm_active_seq m)
       in and_then (append_durably B writer (new_entry now (Wal_Header header) m) (count_entry m)) (\<lambda>m _.
            (m\<lparr>wm_writer := Some writer\<rparr>, Inr ())))"

definition log_mutation ::
  "('s, 'w) wal_ops \<Rightarrow> nat \<Rightarrow> wal_payload \<Rightarrow> ('s, 'w) wal_manager \<Rightarrow> ('s, 'w) wal_manager \<times> unit result" where
  "log_mutation B now payload m =
     (case wm_writer m of
        Some writer \<Rightarrow> append_durably B writer (new_entry now payload m) (count_entry m)
      | None \<Rightarrow> (count_entry m, Inr ()))"

text \<open>The writer is taken out first, so a finalize that fails leaves none.\<close>

definition finalize_active_wal ::
  "('s, 'w) wal_ops \<Rightarrow> ('s, 'w) wal_manager \<Rightarrow> ('s, 'w) wal_manager \<times> unit result" where
  "finalize_active_wal B m =
     (case wm_writer m of
        Some writer \<Rightarrow> on_store (ww_finalize B writer) (m\<lparr>wm_writer := None\<rparr>)
      | None \<Rightarrow> (m, Inr ()))"

section \<open>Recovery\<close>

fun uncommitted_seqs :: "('s, 'w) wal_ops \<Rightarrow> nat list \<Rightarrow> 's \<Rightarrow> nat list result" where
  "uncommitted_seqs B [] s = Inr []"
| "uncommitted_seqs B (seq # seqs) s =
     res_bind (wb_is_done B seq s) (\<lambda>done.
     res_bind (uncommitted_seqs B seqs s) (\<lambda>rest. Inr (if done then rest else seq # rest)))"

text \<open>What the commit will say: base, author and message, from the headers of the logs.\<close>

record commit_info =
  ci_base :: string
  ci_author :: string
  ci_message :: string

fun header_info :: "wal_entry list \<Rightarrow> commit_info \<Rightarrow> commit_info" where
  "header_info [] i = i"
| "header_info (entry # es) i =
     header_info es
       (case we_payload entry of
          Some (Wal_Header h) \<Rightarrow>
            \<lparr>ci_base = (if wh_base_commit_oid h \<noteq> [] then wh_base_commit_oid h else ci_base i),
             ci_author = (if wh_author h \<noteq> [] then wh_author h else ci_author i),
             ci_message = (if wh_commit_message h \<noteq> [] then ''Recovered from crash: '' @ wh_commit_message h
                           else ci_message i)\<rparr>
        | _ \<Rightarrow> i)"

fun replay_logs ::
  "('s, 'w) wal_ops \<Rightarrow> codec \<Rightarrow> ('c, 'b, 'g, 'v) env \<Rightarrow> io \<Rightarrow> 's \<Rightarrow> nat list \<Rightarrow> commit_info \<Rightarrow> ('c, 'b, 'g) world \<Rightarrow>
   (('c, 'b, 'g) world \<times> commit_info result) option" where
  "replay_logs B C ev io s [] i w = Some (w, Inr i)"
| "replay_logs B C ev io s (seq # seqs) i w =
     (case wb_read B seq s of
        Inl e \<Rightarrow> Some (w, Inl e)
      | Inr log_bytes \<Rightarrow>
          (let entries = fst (decode_all_framed C log_bytes)
           in fuel_then (replay_wal_entries ev io entries w) (\<lambda>w _.
                replay_logs B C ev io s seqs (header_info entries i) w)))"

text \<open>Steps 3 to 5: a fresh table and staging area, the replay, the pack.\<close>

definition recovered_state ::
  "('s, 'w) wal_ops \<Rightarrow> codec \<Rightarrow> ('c, 'b, 'g, 'v) env \<Rightarrow> io \<Rightarrow> nat \<Rightarrow> string \<Rightarrow> commit_info \<Rightarrow> nat list \<Rightarrow> 's \<Rightarrow>
   ('c, 'b, 'g) git_engine \<Rightarrow> (('c, 'b, 'g) git_engine \<times> recovered_pack option result) option" where
  "recovered_state B C ev io now root_oid defaults seqs s e =
     (case staging_new io of
        Inl err \<Rightarrow> Some (e, Inl err)
      | Inr staging \<Rightarrow>
          map_option (\<lambda>(w, r). (wd_engine w, r))
            (fuel_then (replay_logs B C ev io s seqs defaults
                \<lparr>wd_vfs = vfs_new root_oid, wd_staging = staging, wd_engine = e\<rparr>) (\<lambda>w i.
              build_pack_from_recovered_state ev io (now div 1000000000) (ci_base i) (ci_author i) (ci_message i) w)))"

definition publish_pack ::
  "('c, 'b, 'g, 'v) env \<Rightarrow> string option \<Rightarrow> recovered_pack \<Rightarrow> ('c, 'b, 'g) git_engine \<Rightarrow> ('c, 'b, 'g) git_engine \<times> unit result" where
  "publish_pack ev branch res e =
     (case ge_source e of
        Http_Source _ \<Rightarrow> (e, Inr ())
      | Gcs_Source storage \<Rightarrow>
          (case write_completed_commit (ev_os ev) (ev_gcs ev) (rp_commit res) (rp_sha res) (rp_pack res) (rp_idx res) branch storage of
             (storage, r) \<Rightarrow> (e\<lparr>ge_source := Gcs_Source storage\<rparr>, r)))"

fun mark_logs_done ::
  "('s, 'w) wal_ops \<Rightarrow> string \<Rightarrow> bytes option \<Rightarrow> bytes option \<Rightarrow> nat list \<Rightarrow> 's \<Rightarrow> 's \<times> unit result" where
  "mark_logs_done B commit_oid pack idx [] s = (s, Inr ())"
| "mark_logs_done B commit_oid pack idx (seq # seqs) s =
     and_then (wb_mark B seq commit_oid pack idx s) (\<lambda>s _. mark_logs_done B commit_oid pack idx seqs s)"

text \<open>Step 6: publish, then mark.\<close>

definition finish_recovery ::
  "('s, 'w) wal_ops \<Rightarrow> ('c, 'b, 'g, 'v) env \<Rightarrow> string option \<Rightarrow> nat list \<Rightarrow> recovered_pack option \<Rightarrow>
   's \<times> ('c, 'b, 'g) git_engine \<Rightarrow> ('s \<times> ('c, 'b, 'g) git_engine) \<times> recovered_pack option result" where
  "finish_recovery B ev branch seqs pack_result st =
     (case st of (s, e) \<Rightarrow>
       (case pack_result of
          Some res \<Rightarrow>
            (case publish_pack ev branch res e of
               (e, Inl err) \<Rightarrow> ((s, e), Inl err)
             | (e, Inr _) \<Rightarrow>
                 (case mark_logs_done B (rp_commit res) (Some (rp_pack res)) (Some (rp_idx res)) seqs s of
                    (s, r) \<Rightarrow> ((s, e), res_bind r (\<lambda>_. Inr (Some res)))))
        | None \<Rightarrow>
            (case mark_logs_done B ''empty'' None None seqs s of
               (s, r) \<Rightarrow> ((s, e), res_bind r (\<lambda>_. Inr None)))))"

definition recover_and_replay_uncommitted ::
  "('s, 'w) wal_ops \<Rightarrow> codec \<Rightarrow> ('c, 'b, 'g, 'v) env \<Rightarrow> io \<Rightarrow> nat \<Rightarrow> string \<Rightarrow> commit_info \<Rightarrow> string option \<Rightarrow>
   's \<times> ('c, 'b, 'g) git_engine \<Rightarrow> (('s \<times> ('c, 'b, 'g) git_engine) \<times> recovered_pack option result) option" where
  "recover_and_replay_uncommitted B C ev io now root_oid defaults branch st =
     (case st of (s, e) \<Rightarrow>
       (case wb_list B s of
          Inl err \<Rightarrow> Some ((s, e), Inl err)
        | Inr all_seqs \<Rightarrow>
            (if all_seqs = [] then Some ((s, e), Inr None)
             else
               (case wb_lockout B all_seqs s of
                  (s, Inl err) \<Rightarrow> Some ((s, e), Inl err)
                | (s, Inr _) \<Rightarrow>
                    (case uncommitted_seqs B all_seqs s of
                       Inl err \<Rightarrow> Some ((s, e), Inl err)
                     | Inr seqs \<Rightarrow>
                         (if seqs = [] then Some ((s, e), Inr None)
                          else
                            (case recovered_state B C ev io now root_oid defaults seqs s e of
                               None \<Rightarrow> None
                             | Some (e, Inl err) \<Rightarrow> Some ((s, e), Inl err)
                             | Some (e, Inr pack_result) \<Rightarrow>
                                 Some (finish_recovery B ev branch seqs pack_result (s, e)))))))))"

text \<open>
  What comes before the markers \<open>new\<close> of a recovery, with the logs \<open>dn\<close> done before it: the logs were
  locked out; every listed log whose marker was not seen was replayed, in the order of the listing, one
  after the other on a fresh table, and packed; only those got a marker; and the pack, if there is one, was published.
\<close>

definition replayed_before_marking ::
  "('s, 'w) wal_ops \<Rightarrow> codec \<Rightarrow> ('c, 'b, 'g, 'v) env \<Rightarrow> io \<Rightarrow> nat \<Rightarrow> string \<Rightarrow> commit_info \<Rightarrow> string option \<Rightarrow>
   's \<Rightarrow> ('c, 'b, 'g) git_engine \<Rightarrow> nat set \<Rightarrow> nat set \<Rightarrow> bool" where
  "replayed_before_marking B C ev io now root defaults branch s e dn new \<longleftrightarrow>
     (\<exists>qs s1 seqs e1 res. wb_list B s = Inr qs \<and> wb_lockout B qs s = (s1, Inr ()) \<and>
        seqs = filter (\<lambda>q. wb_is_done B q s1 = Inr False) qs \<and> set qs - set seqs \<subseteq> dn \<and> new \<subseteq> set seqs \<and>
        recovered_state B C ev io now root defaults seqs s1 e = Some (e1, Inr res) \<and>
        (\<forall>p. res = Some p \<longrightarrow> snd (publish_pack ev branch p e1) = Inr ()))"

section \<open>What recovery keeps, for any store\<close>

context wal_store
begin

lemma uncommitted_done:
  "inv s \<Longrightarrow> uncommitted_seqs B qs s = Inr us \<Longrightarrow> set us \<subseteq> set qs \<and> set qs - set us \<subseteq> completed s"
proof (induction qs arbitrary: us)
  case (Cons q qs)
  then obtain d rest where d: "wb_is_done B q s = Inr d" "uncommitted_seqs B qs s = Inr rest"
    "us = (if d then rest else q # rest)" by (auto simp: res_bind_Inr_iff)
  then show ?case using Cons done_exists [OF Cons.prems(1)] by auto
qed simp

lemma uncommitted_filter:
  "uncommitted_seqs B qs s = Inr us \<Longrightarrow> us = filter (\<lambda>q. wb_is_done B q s = Inr False) qs"
  by (induction qs arbitrary: us) (auto simp: res_bind_Inr_iff)

lemma marks:
  assumes "inv s"
  shows "inv (fst (mark_logs_done B c pk ix qs s)) \<and> logs (fst (mark_logs_done B c pk ix qs s)) = logs s \<and>
    completed s \<subseteq> completed (fst (mark_logs_done B c pk ix qs s)) \<union> set qs \<and>
    completed (fst (mark_logs_done B c pk ix qs s)) \<subseteq> completed s \<union> set qs \<and>
    (snd (mark_logs_done B c pk ix qs s) = Inr () \<longrightarrow> set qs \<subseteq> completed (fst (mark_logs_done B c pk ix qs s)))"
  using assms
proof (induction qs arbitrary: s)
  case (Cons q qs)
  obtain s1 r where m: "wb_mark B q c pk ix s = (s1, r)" by fastforce
  have s1: "inv s1" "logs s1 = logs s" "\<And>j. j \<noteq> q \<Longrightarrow> j \<in> completed s1 \<longleftrightarrow> j \<in> completed s" "r = Inr () \<Longrightarrow> q \<in> completed s1"
    using mark_inv [OF Cons.prems] mark_logs [OF Cons.prems] mark_other [OF Cons.prems] mark_done [OF Cons.prems] m
    by (metis fst_conv snd_conv)+
  show ?case
  proof (cases r)
    case (Inl e)
    then show ?thesis using s1(1-3) by (auto simp: m)
  next
    case (Inr u)
    let ?s2 = "fst (mark_logs_done B c pk ix qs s1)"
    note ih = Cons.IH [OF s1(1)]
    have sub: "completed s \<subseteq> completed ?s2 \<union> set (q # qs)" "completed ?s2 \<subseteq> completed s \<union> set (q # qs)"
      using ih s1(3) by auto
    moreover have "q \<notin> set qs \<Longrightarrow> q \<in> completed ?s2" using ih s1(4) Inr by auto
    ultimately show ?thesis using ih s1(2) by (cases "q \<in> set qs") (auto simp: m Inr)
  qed
qed simp

lemma marks_run:
  assumes "mark_logs_done B c pk ix qs s = (s', r)" "inv s"
  shows "inv s' \<and> logs s' = logs s \<and> completed s \<subseteq> completed s' \<union> set qs \<and> completed s' \<subseteq> completed s \<union> set qs \<and>
    (\<forall>u. r = Inr u \<longrightarrow> set qs \<subseteq> completed s')"
  using marks [OF assms(2), of c pk ix qs] assms(1) by simp

lemma finish_marks:
  assumes "inv s" "finish_recovery B ev branch seqs res (s, e) = ((s', e'), r)"
  shows "inv s'" "logs s' = logs s" "completed s \<subseteq> completed s' \<union> set seqs" "completed s' \<subseteq> completed s \<union> set seqs"
    "r = Inr x \<Longrightarrow> set seqs \<subseteq> completed s' \<and> x = res"
    "q \<in> completed s' - completed s \<Longrightarrow> res = Some p \<Longrightarrow> snd (publish_pack ev branch p e) = Inr ()"
proof -
  have "inv s' \<and> logs s' = logs s \<and> completed s \<subseteq> completed s' \<union> set seqs \<and> completed s' \<subseteq> completed s \<union> set seqs \<and>
      (r = Inr x \<longrightarrow> set seqs \<subseteq> completed s' \<and> x = res) \<and>
      (q \<in> completed s' - completed s \<longrightarrow> res = Some p \<longrightarrow> snd (publish_pack ev branch p e) = Inr ())"
  proof (cases res)
    case None
    obtain t r1 where m: "mark_logs_done B ''empty'' None None seqs s = (t, r1)" by fastforce
    then show ?thesis using marks_run [OF m assms(1)] assms(2) None by (auto simp: finish_recovery_def res_bind_Inr_iff)
  next
    case (Some pk)
    obtain e1 r1 where pb: "publish_pack ev branch pk e = (e1, r1)" by fastforce
    obtain t r2 where m: "mark_logs_done B (rp_commit pk) (Some (rp_pack pk)) (Some (rp_idx pk)) seqs s = (t, r2)" by fastforce
    show ?thesis
    proof (cases r1)
      case (Inl err)
      then show ?thesis using assms Some pb by (auto simp: finish_recovery_def)
    next
      case (Inr u)
      then show ?thesis using marks_run [OF m assms(1)] assms(2) Some pb m by (auto simp: finish_recovery_def res_bind_Inr_iff)
    qed
  qed
  then show "inv s'" "logs s' = logs s" "completed s \<subseteq> completed s' \<union> set seqs" "completed s' \<subseteq> completed s \<union> set seqs"
    "r = Inr x \<Longrightarrow> set seqs \<subseteq> completed s' \<and> x = res"
    "q \<in> completed s' - completed s \<Longrightarrow> res = Some p \<Longrightarrow> snd (publish_pack ev branch p e) = Inr ()"
    by blast+
qed

text \<open>How a recovery can end: before anything is marked, or after the replay of what was listed and not done.\<close>

lemma recover_cases:
  assumes inv: "inv s" and run: "recover_and_replay_uncommitted B C ev io now root defaults branch (s, e) = Some ((s', e'), r)"
  obtains (early) "inv s'" "logs s' = logs s" "completed s' = completed s"
      "\<And>qs x. wb_list B s = Inr qs \<Longrightarrow> r = Inr x \<Longrightarrow> set qs \<subseteq> completed s' \<and> x = None \<and> e' = e"
  | (replayed) s1 qs seqs e1 res where "inv s1" "logs s1 = logs s" "completed s1 = completed s" "wb_list B s = Inr qs"
      "set seqs \<subseteq> set qs" "set qs - set seqs \<subseteq> completed s"
      "wb_lockout B qs s = (s1, Inr ())" "uncommitted_seqs B qs s1 = Inr seqs"
      "recovered_state B C ev io now root defaults seqs s1 e = Some (e1, Inr res)"
      "finish_recovery B ev branch seqs res (s1, e1) = ((s', e'), r)"
proof (cases "wb_list B s")
  case (Inl err)
  then show ?thesis using run inv by (intro early) (simp_all add: recover_and_replay_uncommitted_def)
next
  case qs: (Inr qs)
  show ?thesis
  proof (cases "qs = []")
    case True
    then show ?thesis using run inv qs by (intro early) (auto simp: recover_and_replay_uncommitted_def)
  next
    case False
    obtain s1 r1 where l: "wb_lockout B qs s = (s1, r1)" by fastforce
    have s1: "inv s1" "logs s1 = logs s" "completed s1 = completed s"
      using lockout_inv [OF inv, of qs] lockout_logs [OF inv, of qs] lockout_done [OF inv, of qs] l by simp_all
    show ?thesis
    proof (cases r1)
      case (Inl err)
      then show ?thesis using run s1 qs False l by (intro early) (auto simp: recover_and_replay_uncommitted_def)
    next
      case (Inr u)
      show ?thesis
      proof (cases "uncommitted_seqs B qs s1")
        case (Inl err)
        then show ?thesis using run s1 qs False l \<open>r1 = Inr u\<close> by (intro early) (auto simp: recover_and_replay_uncommitted_def)
      next
        case us: (Inr seqs)
        note d = uncommitted_done [OF s1(1) us]
        show ?thesis
        proof (cases "seqs = []")
          case True
          then show ?thesis using run s1 qs False l \<open>r1 = Inr u\<close> us d
            by (intro early) (auto simp: recover_and_replay_uncommitted_def)
        next
          case ne: False
          show ?thesis
          proof (cases "recovered_state B C ev io now root defaults seqs s1 e")
            case None
            then show ?thesis using run qs False l \<open>r1 = Inr u\<close> us ne by (simp add: recover_and_replay_uncommitted_def)
          next
            case (Some p)
            obtain e1 res where p: "p = (e1, res)" by fastforce
            show ?thesis
            proof (cases res)
              case (Inl err)
              then show ?thesis using run s1 qs False l \<open>r1 = Inr u\<close> us ne Some p
                by (intro early) (auto simp: recover_and_replay_uncommitted_def)
            next
              case (Inr x)
              then have rs: "recovered_state B C ev io now root defaults seqs s1 e = Some (e1, Inr x)" using Some p by simp
              have fin: "finish_recovery B ev branch seqs x (s1, e1) = ((s', e'), r)"
                using run qs False l \<open>r1 = Inr u\<close> us ne rs by (simp add: recover_and_replay_uncommitted_def)
              have "set qs - set seqs \<subseteq> completed s" using d s1(3) by simp
              moreover have "wb_lockout B qs s = (s1, Inr ())" using l \<open>r1 = Inr u\<close> by simp
              ultimately show ?thesis using replayed [OF s1 qs conjunct1 [OF d] _ _ us rs fin] by blast
            qed
          qed
        qed
      qed
    qed
  qed
qed

lemma recover_marks:
  assumes "inv s" "recover_and_replay_uncommitted B C ev io now root defaults branch (s, e) = Some ((s', e'), r)"
  shows "inv s'" "logs s' = logs s" "wb_list B s = Inr qs \<Longrightarrow> r = Inr x \<Longrightarrow> set qs \<subseteq> completed s'"
    "completed s' \<subseteq> completed s \<or>
     replayed_before_marking B C ev io now root defaults branch s e (completed s) (completed s' - completed s)"
proof -
  have "inv s' \<and> logs s' = logs s \<and> (wb_list B s = Inr qs \<longrightarrow> r = Inr x \<longrightarrow> set qs \<subseteq> completed s') \<and>
    (completed s' \<subseteq> completed s \<or>
     replayed_before_marking B C ev io now root defaults branch s e (completed s) (completed s' - completed s))"
    using assms
  proof (cases rule: recover_cases)
    case early
    then show ?thesis by auto
  next
    case (replayed s1 qs' seqs e1 res)
    note f = finish_marks [OF replayed(1,10)]
    have "wb_list B s = Inr qs \<Longrightarrow> r = Inr x \<Longrightarrow> set qs \<subseteq> completed s'"
      using f(3) f(5) replayed(3,4,6) by auto
    moreover have "completed s' \<subseteq> completed s \<or> (\<forall>p. res = Some p \<longrightarrow> snd (publish_pack ev branch p e1) = Inr ())"
      using f(6) replayed(3) by blast
    then have "completed s' \<subseteq> completed s \<or>
        replayed_before_marking B C ev io now root defaults branch s e (completed s) (completed s' - completed s)"
      using f(4) replayed(3,4,6,7,9) uncommitted_filter [OF replayed(8)] unfolding replayed_before_marking_def by blast
    ultimately show ?thesis using f(1,2) replayed(2) by simp
  qed
  then show "inv s'" "logs s' = logs s" "wb_list B s = Inr qs \<Longrightarrow> r = Inr x \<Longrightarrow> set qs \<subseteq> completed s'"
    "completed s' \<subseteq> completed s \<or>
     replayed_before_marking B C ev io now root defaults branch s e (completed s) (completed s' - completed s)"
    by blast+
qed

end

context exact_wal_store
begin

lemma recover_completes:
  assumes "inv s" "recover_and_replay_uncommitted B C ev io now root defaults branch (s, e) = Some ((s', e'), Inr x)"
    "visible" "logs s' q \<noteq> None"
  shows "q \<in> completed s'"
proof -
  obtain qs where qs: "wb_list B s = Inr qs"
    using assms(2) by (cases "wb_list B s") (auto simp: recover_and_replay_uncommitted_def)
  have "set qs \<subseteq> completed s'" using recover_marks(3) [OF assms(1,2) qs refl] .
  then show ?thesis using list_all_logs [OF assms(1,3) qs] recover_marks(2) [OF assms(1,2)] assms(4) by auto
qed

lemma all_done: "(\<And>q. q \<in> set qs \<Longrightarrow> wb_is_done B q s = Inr True) \<Longrightarrow> uncommitted_seqs B qs s = Inr []"
  by (induction qs) simp_all

text \<open>With every log done and every marker seen, recovery does nothing but lock out.\<close>

lemma recover_idle:
  assumes inv: "inv s" and all: "\<And>q. logs s q \<noteq> None \<Longrightarrow> q \<in> completed s"
    and seen: "\<And>t q. logs s q \<noteq> None \<Longrightarrow> q \<in> completed t \<Longrightarrow> wb_is_done B q t = Inr True"
    and run: "recover_and_replay_uncommitted B C ev io now root defaults branch (s, e) = Some ((s', e'), r)"
  shows "e' = e \<and> completed s' = completed s \<and> (\<forall>x. r = Inr x \<longrightarrow> x = None)"
proof (cases "wb_list B s")
  case (Inl err)
  then show ?thesis using run by (auto simp: recover_and_replay_uncommitted_def)
next
  case (Inr qs)
  obtain s1 r1 where l: "wb_lockout B qs s = (s1, r1)" by fastforce
  have s1: "inv s1" "completed s1 = completed s"
    using lockout_inv [OF inv, of qs] lockout_done [OF inv, of qs] l by simp_all
  have "uncommitted_seqs B qs s1 = Inr []"
    using list_logs [OF inv Inr] all seen s1(2) by (intro all_done) auto
  then show ?thesis using run Inr l s1(2)
    by (cases r1) (auto simp: recover_and_replay_uncommitted_def split: if_splits)
qed

end

section \<open>What the session logs\<close>

lemma wm_fields [simp]:
  "wm_store (count_entry m) = wm_store m" "wm_writer (count_entry m) = wm_writer m"
  "wm_active_seq (count_entry m) = wm_active_seq m" "wm_entry_seq (count_entry m) = wrap64 (wm_entry_seq m + 1)"
  by (simp_all add: count_entry_def)

text \<open>Mutations logged one after the other, and the entries they should leave.\<close>

fun log_mutations ::
  "('s, 'w) wal_ops \<Rightarrow> (nat \<times> wal_payload) list \<Rightarrow> ('s, 'w) wal_manager \<Rightarrow> ('s, 'w) wal_manager \<times> unit result" where
  "log_mutations B [] m = (m, Inr ())"
| "log_mutations B ((now, payload) # ps) m = and_then (log_mutation B now payload m) (\<lambda>m _. log_mutations B ps m)"

fun numbered_entries :: "nat \<Rightarrow> (nat \<times> wal_payload) list \<Rightarrow> wal_entry list" where
  "numbered_entries k [] = []"
| "numbered_entries k ((now, payload) # ps) =
     \<lparr>we_seq = k, we_timestamp = wrap64 now, we_payload = Some payload\<rparr> # numbered_entries (wrap64 (k + 1)) ps"

definition log_bytes :: "codec \<Rightarrow> wal_entry list \<Rightarrow> bytes" where
  "log_bytes C es = concat (map (encode_framed C) es)"

lemma log_bytes_simps [simp]:
  "log_bytes C [] = []" "log_bytes C (e # es) = encode_framed C e @ log_bytes C es"
  "log_bytes C (es @ fs) = log_bytes C es @ log_bytes C fs"
  by (simp_all add: log_bytes_def)

lemma decode_log: "codec_laws C \<Longrightarrow> list_all (small_entry C) es \<Longrightarrow> decode_all_framed C (log_bytes C es) = (es, length (log_bytes C es))"
  using decode_frames [of C es "[]"] by (simp add: log_bytes_def decode_loop.simps)

context append_log
begin

lemma append_durable:
  assumes "handle (wm_store m) w q d" "append_durably B w e m = (m', Inr ())"
  shows "handle (wm_store m') w q (d @ encode_framed C e) \<and> logs (wm_store m') q = Some (d @ encode_framed C e) \<and>
    wm_writer m' = wm_writer m \<and> wm_entry_seq m' = wm_entry_seq m \<and> wm_active_seq m' = wm_active_seq m"
proof -
  obtain s1 r1 where a: "ww_append B w e (wm_store m) = (s1, r1)" by fastforce
  obtain s2 r2 where f: "ww_flush B w s1 = (s2, r2)" by fastforce
  have r: "r1 = Inr ()" "r2 = Inr ()" "m' = m\<lparr>wm_store := s2\<rparr>"
    using assms(2) a f by (cases r1; auto simp: append_durably_def on_store_def)+
  have "handle s1 w q (d @ encode_framed C e)" using append_handle [OF assms(1)] a r(1) by simp
  then show ?thesis using flush_handle f r by auto
qed

lemma start_logs_header:
  assumes "logs (wm_store m) (wm_active_seq m) = None" "start_active_wal B now url base author msg m = (m', Inr ())"
  shows "\<exists>w. wm_writer m' = Some w \<and> wm_entry_seq m' = wrap64 (wm_entry_seq m + 1) \<and>
    handle (wm_store m') w (wm_active_seq m) (log_bytes C (numbered_entries (wm_entry_seq m)
      [(now, Wal_Header (session_header now url base author msg (wm_active_seq m)))])) \<and>
    logs (wm_store m') (wm_active_seq m) = Some (log_bytes C (numbered_entries (wm_entry_seq m)
      [(now, Wal_Header (session_header now url base author msg (wm_active_seq m)))]))"
proof -
  obtain s1 r1 where o: "wb_open B (wm_active_seq m) (wm_store m) = (s1, r1)" by fastforce
  then obtain w where w: "r1 = Inr w" using assms(2) by (cases r1) (auto simp: start_active_wal_def on_store_def)
  define h where "h = session_header now url base author msg (wm_active_seq m)"
  define m1 where "m1 = m\<lparr>wm_store := s1\<rparr>"
  obtain m2 r2 where a: "append_durably B w (new_entry now (Wal_Header h) m1) (count_entry m1) = (m2, r2)" by fastforce
  have r2: "r2 = Inr ()" "m' = m2\<lparr>wm_writer := Some w\<rparr>"
    using assms(2) o w a by (cases r2; auto simp: start_active_wal_def on_store_def h_def m1_def Let_def)+
  have "handle (wm_store (count_entry m1)) w (wm_active_seq m) []"
    using open_new [OF assms(1)] o w by (simp add: m1_def)
  from append_durable [OF this] a r2 show ?thesis
    by (intro exI [of _ w]) (simp add: m1_def new_entry_def h_def)
qed

lemma log_mutations_append:
  assumes "log_mutations B ps m = (m', Inr ())" "wm_writer m = Some w" "handle (wm_store m) w q (log_bytes C es)"
    "logs (wm_store m) q = Some (log_bytes C es)"
  shows "wm_writer m' = Some w \<and> wm_active_seq m' = wm_active_seq m \<and>
    handle (wm_store m') w q (log_bytes C (es @ numbered_entries (wm_entry_seq m) ps)) \<and>
    logs (wm_store m') q = Some (log_bytes C (es @ numbered_entries (wm_entry_seq m) ps))"
  using assms
proof (induction ps arbitrary: m es)
  case (Cons p ps)
  obtain now payload where p: "p = (now, payload)" by fastforce
  obtain m1 r1 where a: "append_durably B w (new_entry now payload m) (count_entry m) = (m1, r1)" by fastforce
  have r1: "r1 = Inr ()" "log_mutations B ps m1 = (m', Inr ())"
    using Cons.prems(1,2) a by (cases r1; auto simp: p log_mutation_def)+
  let ?e = "\<lparr>we_seq = wm_entry_seq m, we_timestamp = wrap64 now, we_payload = Some payload\<rparr>"
  have h: "handle (wm_store (count_entry m)) w q (log_bytes C es)" using Cons.prems(3) by simp
  have "wm_writer m1 = Some w" "wm_active_seq m1 = wm_active_seq m" "wm_entry_seq m1 = wrap64 (wm_entry_seq m + 1)"
    "handle (wm_store m1) w q (log_bytes C (es @ [?e]))" "logs (wm_store m1) q = Some (log_bytes C (es @ [?e]))"
    using append_durable [OF h] a r1(1) Cons.prems(2) by (simp_all add: new_entry_def)
  from Cons.IH [OF r1(2) this(1,4,5)] this show ?case by (simp add: p)
qed simp

lemma session_logged:
  assumes "logs (wm_store m) (wm_active_seq m) = None"
    "and_then (start_active_wal B now url base author msg m) (\<lambda>m _. log_mutations B ps m) = (m', Inr ())"
  shows "logs (wm_store m') (wm_active_seq m) = Some (log_bytes C (numbered_entries (wm_entry_seq m)
    ((now, Wal_Header (session_header now url base author msg (wm_active_seq m))) # ps)))"
proof -
  obtain m1 r1 where st: "start_active_wal B now url base author msg m = (m1, r1)" by fastforce
  have r1: "r1 = Inr ()" "log_mutations B ps m1 = (m', Inr ())" using assms(2) st by (cases r1; auto)+
  from start_logs_header [OF assms(1)] st r1(1) obtain w where m1: "wm_writer m1 = Some w"
    "wm_entry_seq m1 = wrap64 (wm_entry_seq m + 1)"
    "handle (wm_store m1) w (wm_active_seq m) (log_bytes C (numbered_entries (wm_entry_seq m)
      [(now, Wal_Header (session_header now url base author msg (wm_active_seq m)))]))"
    "logs (wm_store m1) (wm_active_seq m) = Some (log_bytes C (numbered_entries (wm_entry_seq m)
      [(now, Wal_Header (session_header now url base author msg (wm_active_seq m)))]))"
    by blast
  from log_mutations_append [OF r1(2) m1(1,3,4)] m1(2) show ?thesis by simp
qed

end

section \<open>Correctness\<close>

text \<open>
  C10: a log is marked done only when all logs not done were recovered: with a local directory and with a bucket
  of logs, whenever recovery leaves a marker that was not there, every listed log whose marker was not seen
  (so every listed log without one) had been replayed, in the order of the listing, only those were marked, the
  result was packed, and the pack was published, which in a bucket means pack, index and references written.
  In the local directory, whose listing is complete when the directory can be examined, these are all logs. Until then recovery may stop with any error and the logs
  stay to be recovered. No log is changed.
\<close>

theorem log_done_only_after_recovery:
  assumes "local_inv s"
    "recover_and_replay_uncommitted (local_wal_ops os C) C ev io now root defaults branch (s, e) = Some ((s', e'), r)"
    and "gcs_read_laws G" "gcs_write_laws G" "gcs_reopen_laws G"
    "recover_and_replay_uncommitted (gcs_wal_ops G C prefix) C ev io now root defaults branch (g, eg) = Some ((g', eg'), rg)"
  shows "local_logs s' = local_logs s \<and>
    (local_completed s' \<subseteq> local_completed s \<or>
     replayed_before_marking (local_wal_ops os C) C ev io now root defaults branch s e (local_completed s)
       (local_completed s' - local_completed s)) \<and>
    (\<forall>qs. os_ok os (Fs_Stat []) \<and> wb_list (local_wal_ops os C) s = Inr qs \<longrightarrow> set qs = {q. local_logs s q \<noteq> None}) \<and>
    gcs_logs G prefix g' = gcs_logs G prefix g \<and>
    (gcs_completed G prefix g' \<subseteq> gcs_completed G prefix g \<or>
     replayed_before_marking (gcs_wal_ops G C prefix) C ev io now root defaults branch g eg (gcs_completed G prefix g)
       (gcs_completed G prefix g' - gcs_completed G prefix g))"
  using local_store.recover_marks(2,4) [OF assms(1,2)] local_store.list_all_logs [OF assms(1)]
    wal_store.recover_marks(2,4) [OF gcs_wal_store [OF assms(3-5)] TrueI assms(6)] by blast

text \<open>
  Recovery is idempotent: after a recovery that succeeded and saw the directory every log has its done marker, and
  running it again, with whatever failures (except that the markers can be seen), recovers nothing, leaves
  the engine as it is and adds no marker.
\<close>

theorem recovery_idempotent:
  assumes "local_inv s"
    "recover_and_replay_uncommitted (local_wal_ops os C) C ev io now root defaults branch (s, e) = Some ((s', e'), Inr x)"
    "os_ok os (Fs_Stat [])" "\<And>q. os_ok os' (Fs_Stat (local_done_path q))"
    "recover_and_replay_uncommitted (local_wal_ops os' C) C ev' io' now' root' defaults' branch' (s', e') = Some ((s'', e''), r)"
  shows "(\<forall>q. local_logs s' q \<noteq> None \<longrightarrow> q \<in> local_completed s') \<and> e'' = e' \<and>
    local_completed s'' = local_completed s' \<and> (\<forall>y. r = Inr y \<longrightarrow> y = None)"
  using local_store.recover_completes [OF assms(1-3)]
    local_store.recover_idle [OF local_store.recover_marks(1) [OF assms(1,2)] _ local_done_seen [OF assms(4)] assms(5)] by blast

text \<open>
  C7: what was acknowledged survives a crash: when a session was started on a new log of the local directory and each of its
  mutations was logged without error, then the log, also with any part of one more record behind it,
  decodes to exactly the session's header and its mutations in their order, numbered one by one.
\<close>

theorem acknowledged_entries_survive:
  assumes "codec_laws C" "local_logs (wm_store m) (wm_active_seq m) = None"
    "and_then (start_active_wal (local_wal_ops os C) now url base author msg m)
       (\<lambda>m _. log_mutations (local_wal_ops os C) ps m) = (m', Inr ())"
    "es = numbered_entries (wm_entry_seq m)
       ((now, Wal_Header (session_header now url base author msg (wm_active_seq m))) # ps)"
    "list_all (small_entry C) es" "small_entry C e" "k < length (encode_framed C e)"
  shows "\<exists>d. local_logs (wm_store m') (wm_active_seq m) = Some d \<and>
    decode_all_framed C (d @ take k (encode_framed C e)) = (es, length d)"
  using local_log.session_logged [OF assms(2,3)] decode_crashed_log [OF assms(1,5,6,7)] assms(4)
  by (simp add: log_bytes_def)

section \<open>Witnesses\<close>

text \<open>A directory with the log 0, which is empty.\<close>

definition demo_wal :: local_wal where
  "demo_wal = \<lparr>lw_files = [(local_log_path 0, [])], lw_readonly = []\<rparr>"

definition demo_wal_done :: local_wal where
  "demo_wal_done = \<lparr>lw_files = [(local_log_path 0, []), (local_done_path 0, str_bytes (''empty'' @ [CHR 0x0A]))],
     lw_readonly = [local_log_path 0]\<rparr>"

lemma demo_number: "log_number (from_utf8_lossy (str_bytes (last (local_log_path 0)))) = Some 0"
  using file_number_log [of 0] by (simp add: file_number_def)

lemma demo_wal_inv: "local_inv demo_wal"
  using demo_number by (auto simp: local_inv_def demo_wal_def file_number_def split: if_splits)

lemma demo_local_names: "local_log_path q \<noteq> local_done_path r" "(local_log_path 0 = local_log_path q) = (q = 0)"
  using local_path_log(1) [of r q] by (auto simp del: local_path_log)

lemma demo_recovery:
  "recover_and_replay_uncommitted (local_wal_ops os_fine C) C (demo_env os_fine) all_ok 7 ''r'' \<lparr>ci_base = ''b'', ci_author = ''a'', ci_message = []\<rparr>
     None (demo_wal, demo_engine []) = Some ((demo_wal_done, demo_engine []), Inr None)"
proof -
  have l: "local_list os_fine demo_wal = Inr [0]"
    by (simp add: local_list_def demo_wal_def os_fine_def map_filter_def demo_number)
  have lk: "local_lockout os_fine [0] demo_wal = (demo_wal\<lparr>lw_readonly := [local_log_path 0]\<rparr>, Inr ())"
    by (simp add: demo_wal_def os_fine_def fs_is_file_def Let_def)
  have un: "uncommitted_seqs (local_wal_ops os_fine C) [0] (demo_wal\<lparr>lw_readonly := [local_log_path 0]\<rparr>) = Inr [0]"
    by (simp add: local_wal_ops_def local_is_done_def fs_is_file_def os_fine_def demo_wal_def demo_local_names)
  have rd: "local_read os_fine 0 (demo_wal\<lparr>lw_readonly := [local_log_path 0]\<rparr>) = Inr []"
    by (simp add: local_read_def fs_read_def os_fine_def demo_wal_def)
  have rs: "recovered_state (local_wal_ops os_fine C) C (demo_env os_fine) all_ok 7 ''r'' \<lparr>ci_base = ''b'', ci_author = ''a'', ci_message = []\<rparr> [0]
      (demo_wal\<lparr>lw_readonly := [local_log_path 0]\<rparr>) (demo_engine []) = Some (demo_engine [], Inr None)"
    using rd by (simp add: recovered_state_def staging_new_def remaining_files_def local_wal_ops_def decode_all_framed_def decode_loop.simps
        build_pack_from_recovered_state_def has_modifications_def)
  have mk: "mark_logs_done (local_wal_ops os_fine C) ''empty'' None None [0] (demo_wal\<lparr>lw_readonly := [local_log_path 0]\<rparr>) = (demo_wal_done, Inr ())"
    by (simp add: local_wal_ops_def local_mark_def local_write_def fs_write_def os_fine_def demo_wal_def demo_wal_done_def demo_local_names)
  show ?thesis
    using l lk un rs mk unfolding recover_and_replay_uncommitted_def finish_recovery_def
    by (simp add: local_wal_ops_def)
qed

text \<open>A bucket with the log 0 under \<open>w/\<close>, which is empty.\<close>

definition demo_log_bucket :: bucket where
  "demo_log_bucket = [(gcs_name ''w/'' 0 ''.log'', [])]"

lemma demo_gcs_recovery:
  "\<exists>g. recover_and_replay_uncommitted (gcs_wal_ops demo_gcs C ''w/'') C (demo_env os_fine) all_ok 7 ''r''
      \<lparr>ci_base = ''b'', ci_author = ''a'', ci_message = []\<rparr> None (demo_log_bucket, demo_engine []) = Some ((g, demo_engine []), Inr None) \<and>
     gcs_completed demo_gcs ''w/'' g = {0}"
proof -
  let ?log = "gcs_name ''w/'' 0 ''.log''"
  have n: "log_number (drop 2 ?log) = Some 0" using log_number_log [of 0] by (simp add: gcs_name_def numeral_2_eq_2)
  have l: "gcs_list demo_gcs ''w/'' demo_log_bucket = Inr [0]"
    using n by (simp add: gcs_list_def demo_gcs_def demo_log_bucket_def map_filter_def strip_prefix_def starts_with_def gcs_name_def)
  have k: "gcs_lockout demo_gcs ''w/'' [0] demo_log_bucket = (demo_log_bucket, Inr ())"
    by (simp add: demo_gcs_def demo_log_bucket_def bucket_read_def bucket_content_def)
  have un: "uncommitted_seqs (gcs_wal_ops demo_gcs C ''w/'') [0] demo_log_bucket = Inr [0]"
    by (simp add: gcs_wal_ops_def gcs_is_done_def demo_gcs_def demo_log_bucket_def bucket_read_def)
  have rd: "wb_read (gcs_wal_ops demo_gcs C ''w/'') 0 demo_log_bucket = Inr []"
    by (simp add: gcs_wal_ops_def demo_gcs_def demo_log_bucket_def bucket_read_def)
  have rs: "recovered_state (gcs_wal_ops demo_gcs C ''w/'') C (demo_env os_fine) all_ok 7 ''r'' \<lparr>ci_base = ''b'', ci_author = ''a'', ci_message = []\<rparr> [0]
      demo_log_bucket (demo_engine []) = Some (demo_engine [], Inr None)"
    using rd by (simp add: recovered_state_def staging_new_def remaining_files_def decode_all_framed_def decode_loop.simps
        build_pack_from_recovered_state_def has_modifications_def)
  obtain g r where mk: "mark_logs_done (gcs_wal_ops demo_gcs C ''w/'') ''empty'' None None [0] demo_log_bucket = (g, r)" by fastforce
  have "\<exists>g'. write_rapid_object demo_gcs nm d g = (g', Inr ())" for nm d g
    by (cases "d = []") (simp_all add: write_rapid_object_def demo_gcs_def)
  then obtain h where "write_rapid_object demo_gcs nm d g = (h nm d g, Inr ())" for nm d g by metis
  then have r: "r = Inr ()" using mk by (simp add: gcs_wal_ops_def gcs_mark_def)
  have "gcs_completed demo_gcs ''w/'' demo_log_bucket = {}"
    by (simp add: gcs_completed_def demo_gcs_def demo_log_bucket_def gcs_name_simps(1) [symmetric])
  then have "gcs_completed demo_gcs ''w/'' g = {0}" using bucket_store.marks_run [OF mk] r by auto
  then show ?thesis
    using l k un rs mk r unfolding recover_and_replay_uncommitted_def finish_recovery_def
    by (simp add: gcs_wal_ops_def)
qed

theorem log_done_only_after_recovery_witness:
  "replayed_before_marking (local_wal_ops os_fine demo_codec) demo_codec (demo_env os_fine) all_ok 7 ''r''
     \<lparr>ci_base = ''b'', ci_author = ''a'', ci_message = []\<rparr> None demo_wal (demo_engine []) {} {0} \<and>
   replayed_before_marking (gcs_wal_ops demo_gcs demo_codec ''w/'') demo_codec (demo_env os_fine) all_ok 7 ''r''
     \<lparr>ci_base = ''b'', ci_author = ''a'', ci_message = []\<rparr> None demo_log_bucket (demo_engine []) {} {0}"
proof -
  have l: "local_completed demo_wal_done = {0}" "local_completed demo_wal = {}"
    by (auto simp: local_completed_def demo_wal_done_def demo_wal_def demo_local_names split: if_splits)
  obtain g where g: "recover_and_replay_uncommitted (gcs_wal_ops demo_gcs demo_codec ''w/'') demo_codec (demo_env os_fine) all_ok 7 ''r''
      \<lparr>ci_base = ''b'', ci_author = ''a'', ci_message = []\<rparr> None (demo_log_bucket, demo_engine []) = Some ((g, demo_engine []), Inr None)"
    "gcs_completed demo_gcs ''w/'' g = {0}" using demo_gcs_recovery by blast
  have b: "gcs_completed demo_gcs ''w/'' demo_log_bucket = {}"
    by (simp add: gcs_completed_def demo_gcs_def demo_log_bucket_def gcs_name_simps(1) [symmetric])
  from log_done_only_after_recovery [OF demo_wal_inv demo_recovery demo_gcs_laws demo_gcs_reopen_laws g(1)] show ?thesis
    using l g(2) b by simp
qed

lemma demo_recovery_again:
  "\<exists>t. recover_and_replay_uncommitted (local_wal_ops os_fine C) C (demo_env os_fine) all_ok 7 ''r''
      \<lparr>ci_base = ''b'', ci_author = ''a'', ci_message = []\<rparr> None (demo_wal_done, demo_engine []) = Some ((t, demo_engine []), Inr None)"
proof -
  have "uncommitted_seqs (local_wal_ops os_fine C) [0] t = Inr []" if "lw_files t = lw_files demo_wal_done" for t
    using that by (simp add: local_wal_ops_def local_is_done_def fs_is_file_def os_fine_def demo_wal_done_def)
  moreover have "local_list os_fine demo_wal_done = Inr [0]"
    using demo_number file_number_other(1) [of 0]
    by (simp add: local_list_def demo_wal_done_def os_fine_def map_filter_def file_number_def)
  moreover obtain t where "local_lockout os_fine [0] demo_wal_done = (t, Inr ())" "lw_files t = lw_files demo_wal_done"
    using local_lockout_files [of os_fine "[0]" demo_wal_done] by (simp add: Let_def)
  ultimately show ?thesis
    unfolding recover_and_replay_uncommitted_def by (simp add: local_wal_ops_def)
qed

theorem recovery_idempotent_witness:
  "\<exists>st r. recover_and_replay_uncommitted (local_wal_ops os_fine demo_codec) demo_codec (demo_env os_fine) all_ok 7 ''r''
      \<lparr>ci_base = ''b'', ci_author = ''a'', ci_message = []\<rparr> None (demo_wal_done, demo_engine []) = Some (st, r) \<and>
     local_completed (fst st) = {0}"
proof -
  obtain t where run: "recover_and_replay_uncommitted (local_wal_ops os_fine demo_codec) demo_codec (demo_env os_fine) all_ok 7 ''r''
      \<lparr>ci_base = ''b'', ci_author = ''a'', ci_message = []\<rparr> None (demo_wal_done, demo_engine []) = Some ((t, demo_engine []), Inr None)"
    using demo_recovery_again by blast
  have "local_completed demo_wal_done = {0}"
    by (auto simp: local_completed_def fs_is_file_def demo_wal_done_def demo_local_names split: if_splits)
  then show ?thesis using recovery_idempotent [OF demo_wal_inv demo_recovery _ _ run] run by (auto simp: os_fine_def)
qed

definition demo_manager :: "(local_wal, path) wal_manager" where
  "demo_manager = wal_manager_new \<lparr>lw_files = [], lw_readonly = []\<rparr> 0"

theorem acknowledged_entries_survive_witness:
  "\<exists>m' d es. log_mutations (local_wal_ops os_fine demo_codec) [(0, Wal_Mkdir ''d'')]
      (fst (start_active_wal (local_wal_ops os_fine demo_codec) 0 ''u'' ''b'' ''a'' [] demo_manager)) = (m', Inr ()) \<and>
     local_logs (wm_store m') 0 = Some d \<and> length es = 2 \<and>
     decode_all_framed demo_codec (d @ take 6 (encode_framed demo_codec demo_entry)) = (es, length d)"
proof -
  let ?B = "local_wal_ops os_fine demo_codec" and ?h = "session_header 0 ''u'' ''b'' ''a'' [] 0"
  let ?es = "numbered_entries 1 [(0, Wal_Header ?h), (0, Wal_Mkdir ''d'')]"
  obtain m' where run: "and_then (start_active_wal ?B 0 ''u'' ''b'' ''a'' [] demo_manager)
      (\<lambda>m _. log_mutations ?B [(0, Wal_Mkdir ''d'')] m) = (m', Inr ())"
    and run2: "log_mutations ?B [(0, Wal_Mkdir ''d'')] (fst (start_active_wal ?B 0 ''u'' ''b'' ''a'' [] demo_manager)) = (m', Inr ())"
    by (simp add: start_active_wal_def on_store_def local_wal_ops_def local_open_def os_fine_def fs_is_file_def append_durably_def
        local_append_def fs_append_def local_flush_def demo_manager_def wal_manager_new_def Let_def log_mutation_def)
  have small: "list_all (small_entry demo_codec) ?es"
    by (simp add: small_entry_def demo_codec_def demo_put_entry_def session_header_def put_nat_def put_str_def put_bytes_def wrap64_def)
  have k: "small_entry demo_codec demo_entry" "6 < length (encode_framed demo_codec demo_entry)"
    using demo_entry_small
    by (simp_all add: encode_framed_def demo_codec_def demo_put_entry_def demo_entry_def put_nat_def put_str_def put_bytes_def)
  have none: "local_logs (wm_store demo_manager) (wm_active_seq demo_manager) = None"
    by (simp add: demo_manager_def wal_manager_new_def local_logs_def)
  have es: "?es = numbered_entries (wm_entry_seq demo_manager) ((0, Wal_Header (session_header 0 ''u'' ''b'' ''a'' [] (wm_active_seq demo_manager))) # [(0, Wal_Mkdir ''d'')])"
    by (simp add: demo_manager_def wal_manager_new_def)
  have "length ?es = 2" by simp
  with acknowledged_entries_survive [OF demo_codec_laws none run es small k] run2 show ?thesis
    by (simp only: demo_manager_def wal_manager_new_def wal_manager.simps) blast
qed

end
