(* ===== verification/Nfs_Fs.thy ===== *)
theory Nfs_Fs
  imports Wal_Manager
begin

text \<open>
  The handlers of the NFS file system, \<^verbatim>\<open>src/src/nfs/fs.rs\<close>, over the inode table, the staging
  area and the engine (the record \<open>world\<close>) and the manager of the log. A handler is one atomic
  step: the mutating ones hold the commit lock, and requests that run concurrently are steps in some
  order. Its result is an NFS status or a value; it is \<open>None\<close> when it does not return (the path of
  a node on a cycle, or a read out of the bucket without enough fuel).
\<close>

section \<open>State\<close>

record ('c, 'b, 'g, 's, 'w) nfs =
  nf_world :: "('c, 'b, 'g) world"
  nf_wal :: "('s, 'w) wal_manager option"
  nf_uid :: nat
  nf_gid :: nat
  nf_epoch :: nat
  nf_last_mutation :: nat
  nf_uncommitted :: bool

text \<open>What the handlers are run with: the engine's environment, the log backend and the staging directory.\<close>

record ('c, 'b, 'g, 'v, 's, 'w) server =
  sv_env :: "('c, 'b, 'g, 'v) env"
  sv_wal :: "('s, 'w) wal_ops"
  sv_io :: io

definition nfs_new :: "nat \<Rightarrow> nat \<Rightarrow> nat \<Rightarrow> ('c, 'b, 'g) world \<Rightarrow> ('s, 'w) wal_manager option \<Rightarrow> ('c, 'b, 'g, 's, 'w) nfs" where
  "nfs_new uid gid now w wal =
     \<lparr>nf_world = w, nf_wal = wal, nf_uid = uid, nf_gid = gid, nf_epoch = now div 1000000000 mod 2 ^ 32,
      nf_last_mutation = 0, nf_uncommitted = False\<rparr>"

text \<open>Attributes; the three times are the same, \<open>rdev\<close> and \<open>fsid\<close> are constant.\<close>

datatype file_type = Nf3_Dir | Nf3_Lnk | Nf3_Reg

record fattr =
  fa_type :: file_type
  fa_mode :: nat
  fa_nlink :: nat
  fa_uid :: nat
  fa_gid :: nat
  fa_size :: nat
  fa_used :: nat
  fa_fileid :: nat
  fa_seconds :: nat

definition world_view :: "('c, 'b, 'g, 'v, 's, 'w) server \<Rightarrow> ('c, 'b, 'g, 's, 'w) nfs \<Rightarrow> repo_view" where
  "world_view sv nf = engine_view (sv_env sv) (wd_engine (nf_world nf))"

text \<open>The shared node as it stands now.\<close>

definition node_now :: "('c, 'b, 'g, 's, 'w) nfs \<Rightarrow> vfs_node \<Rightarrow> vfs_node" where
  "node_now nf node = (case hm_get (vs_nodes (wd_vfs (nf_world nf))) (vn_id node) of Some n \<Rightarrow> n | None \<Rightarrow> node)"

definition node_size :: "('c, 'b, 'g, 'v, 's, 'w) server \<Rightarrow> ('c, 'b, 'g, 's, 'w) nfs \<Rightarrow> vfs_node \<Rightarrow> nat" where
  "node_size sv nf node =
     (case get_size (wd_staging (nf_world nf)) (vn_id node) of
        Some n \<Rightarrow> n
      | None \<Rightarrow>
          (case rv_mem (world_view sv nf) (vn_oid node) of
             Some d \<Rightarrow> length d
           | None \<Rightarrow>
               (case rv_disk_size (world_view sv nf) (vn_oid node) of Some n \<Rightarrow> n | None \<Rightarrow> vn_size node)))"

definition node_to_fattr3 :: "('c, 'b, 'g, 'v, 's, 'w) server \<Rightarrow> ('c, 'b, 'g, 's, 'w) nfs \<Rightarrow> vfs_node \<Rightarrow> fattr" where
  "node_to_fattr3 sv nf node0 =
     (let node = node_now nf node0; len = node_size sv nf node in
      \<lparr>fa_type = (if vn_is_dir node then Nf3_Dir else if mode_is_symlink (vn_mode node) then Nf3_Lnk else Nf3_Reg),
       fa_mode = posix_mode (vn_mode node) AND 511, fa_nlink = (if vn_is_dir node then 2 else 1),
       fa_uid = nf_uid nf, fa_gid = nf_gid nf, fa_size = len, fa_used = len, fa_fileid = vn_id node,
       fa_seconds = nf_epoch nf\<rparr>)"

section \<open>Shared steps\<close>

text \<open>\<open>map_err\<close> to a status; a panic stays one.\<close>

definition with_status :: "nfs_status \<Rightarrow> 'a result \<Rightarrow> 'a result" where
  "with_status st r = (case r of Inr x \<Rightarrow> Inr x | Inl e \<Rightarrow> Inl (if e = Panic then Panic else E_Nfs st))"

definition on_world ::
  "nfs_status \<Rightarrow> (('c, 'b, 'g) world \<Rightarrow> ('c, 'b, 'g) world \<times> 'a result) \<Rightarrow> ('c, 'b, 'g, 's, 'w) nfs \<Rightarrow>
   ('c, 'b, 'g, 's, 'w) nfs \<times> 'a result" where
  "on_world st f nf = (case f (nf_world nf) of (w, r) \<Rightarrow> (nf\<lparr>nf_world := w\<rparr>, with_status st r))"

definition on_world_fuel ::
  "nfs_status \<Rightarrow> (('c, 'b, 'g) world \<Rightarrow> (('c, 'b, 'g) world \<times> 'a result) option) \<Rightarrow> ('c, 'b, 'g, 's, 'w) nfs \<Rightarrow>
   (('c, 'b, 'g, 's, 'w) nfs \<times> 'a result) option" where
  "on_world_fuel st f nf = map_option (\<lambda>(w, r). (nf\<lparr>nf_world := w\<rparr>, with_status st r)) (f (nf_world nf))"

definition record_mutation :: "nat \<Rightarrow> string \<Rightarrow> ('c, 'b, 'g, 's, 'w) nfs \<Rightarrow> ('c, 'b, 'g, 's, 'w) nfs" where
  "record_mutation now path nf =
     nf\<lparr>nf_world := changed path (nf_world nf), nf_last_mutation := now div 1000000000, nf_uncommitted := True\<rparr>"

text \<open>The result of logging is ignored.\<close>

definition log_to_wal ::
  "('c, 'b, 'g, 'v, 's, 'w) server \<Rightarrow> nat \<Rightarrow> wal_payload \<Rightarrow> ('c, 'b, 'g, 's, 'w) nfs \<Rightarrow> ('c, 'b, 'g, 's, 'w) nfs" where
  "log_to_wal sv now payload nf =
     nf\<lparr>nf_wal := map_option (\<lambda>m. fst (log_mutation (sv_wal sv) now payload m)) (nf_wal nf)\<rparr>"

text \<open>The end of a handler that has a path: record it and log the payload made of it.\<close>

definition log_path ::
  "('c, 'b, 'g, 'v, 's, 'w) server \<Rightarrow> nat \<Rightarrow> string \<Rightarrow> wal_payload \<Rightarrow> ('c, 'b, 'g, 's, 'w) nfs \<Rightarrow> ('c, 'b, 'g, 's, 'w) nfs" where
  "log_path sv now path payload nf = log_to_wal sv now payload (record_mutation now path nf)"

definition log_node ::
  "('c, 'b, 'g, 'v, 's, 'w) server \<Rightarrow> nat \<Rightarrow> nat \<Rightarrow> (string \<Rightarrow> wal_payload) \<Rightarrow> ('c, 'b, 'g, 's, 'w) nfs \<Rightarrow>
   ('c, 'b, 'g, 's, 'w) nfs option" where
  "log_node sv now i payload nf =
     map_option (\<lambda>r. case r of Inr path \<Rightarrow> log_path sv now path (payload path) nf | Inl _ \<Rightarrow> nf)
       (get_path (wd_vfs (nf_world nf)) i)"

text \<open>\<open>get_path(dirid).unwrap_or_default()\<close> and the name joined to it.\<close>

definition child_path :: "('c, 'b, 'g, 's, 'w) nfs \<Rightarrow> nat \<Rightarrow> string \<Rightarrow> string option" where
  "child_path nf dirid name =
     map_option (\<lambda>r. let parent_path = (case r of Inr p \<Rightarrow> p | Inl _ \<Rightarrow> [])
                     in if parent_path = [] then name else parent_path @ ''/'' @ name)
       (get_path (wd_vfs (nf_world nf)) dirid)"

text \<open>The live, not deleted node a handler works on.\<close>

definition live_node :: "('c, 'b, 'g, 's, 'w) nfs \<Rightarrow> nat \<Rightarrow> vfs_node result" where
  "live_node nf i =
     (if is_deleted (wd_staging (nf_world nf)) i then Inl (E_Nfs Nfs_Noent)
      else case get_node (wd_vfs (nf_world nf)) i of None \<Rightarrow> Inl (E_Nfs Nfs_Noent) | Some n \<Rightarrow> Inr n)"

section \<open>Handlers\<close>

definition nfs_lookup ::
  "('c, 'b, 'g, 'v, 's, 'w) server \<Rightarrow> nat \<Rightarrow> bytes \<Rightarrow> ('c, 'b, 'g, 's, 'w) nfs \<Rightarrow> ('c, 'b, 'g, 's, 'w) nfs \<times> nat result" where
  "nfs_lookup sv dirid filename nf =
     and_then (on_world Nfs_Noent (on_vfs (sv_env sv) (\<lambda>rv. vfs_lookup rv dirid (from_utf8_lossy filename))) nf)
       (\<lambda>nf child_id.
         if is_deleted (wd_staging (nf_world nf)) child_id then (nf, Inl (E_Nfs Nfs_Noent)) else (nf, Inr child_id))"

text \<open>A size learned from the memory cache, the disk cache or a fetch; a failed fetch is ignored.\<close>

definition learn_size ::
  "('c, 'b, 'g, 'v) env \<Rightarrow> nat \<Rightarrow> string \<Rightarrow> ('c, 'b, 'g) world \<Rightarrow> (('c, 'b, 'g) world \<times> unit result) option" where
  "learn_size ev i oid w =
     (case memory_lookup ev oid (wd_engine w) of
        (e, Some blob) \<Rightarrow> Some (resized i (length blob) (w\<lparr>wd_engine := e\<rparr>), Inr ())
      | (e, None) \<Rightarrow>
          (case disk_blob_size (ev_os ev) (ge_disk e) oid of
             Some len \<Rightarrow> Some (resized i len (w\<lparr>wd_engine := e\<rparr>), Inr ())
           | None \<Rightarrow>
               map_option (\<lambda>(e, r). case ok_option r of
                   Inl err \<Rightarrow> (w\<lparr>wd_engine := e\<rparr>, Inl err)
                 | Inr None \<Rightarrow> (w\<lparr>wd_engine := e\<rparr>, Inr ())
                 | Inr (Some data) \<Rightarrow> (resized i (length data) (w\<lparr>wd_engine := e\<rparr>), Inr ()))
                 (get_blob ev oid e)))"

definition nfs_getattr ::
  "('c, 'b, 'g, 'v, 's, 'w) server \<Rightarrow> nat \<Rightarrow> ('c, 'b, 'g, 's, 'w) nfs \<Rightarrow> (('c, 'b, 'g, 's, 'w) nfs \<times> fattr result) option" where
  "nfs_getattr sv i nf =
     fuel_then (Some (nf, live_node nf i)) (\<lambda>nf node.
     fuel_then
       (if vn_is_dir node \<or> is_staged (wd_staging (nf_world nf)) i \<or> vn_oid node = [] then Some (nf, Inr ())
        else on_world_fuel Nfs_Io (learn_size (sv_env sv) i (vn_oid node)) nf) (\<lambda>nf _.
     Some (nf, Inr (node_to_fattr3 sv nf node))))"

text \<open>Only the size is looked at; the other attributes are accepted and ignored.\<close>

definition nfs_setattr ::
  "('c, 'b, 'g, 'v, 's, 'w) server \<Rightarrow> nat \<Rightarrow> nat \<Rightarrow> nat option \<Rightarrow> ('c, 'b, 'g, 's, 'w) nfs \<Rightarrow>
   (('c, 'b, 'g, 's, 'w) nfs \<times> fattr result) option" where
  "nfs_setattr sv now i setattr_size nf =
     fuel_then (Some (nf, live_node nf i)) (\<lambda>nf node.
       case setattr_size of
         None \<Rightarrow> Some (nf, Inr (node_to_fattr3 sv nf node))
       | Some new_size \<Rightarrow>
           (if vn_is_dir node then Some (nf, Inl (E_Nfs Nfs_Isdir))
            else
              fuel_then (on_world_fuel Nfs_Io (truncate_node (sv_env sv) (sv_io sv) i (vn_oid node) new_size) nf) (\<lambda>nf _.
                map_option (\<lambda>nf. (nf, Inr (node_to_fattr3 sv nf node)))
                  (log_node sv now i (\<lambda>path. Wal_Truncate path new_size) nf))))"

text \<open>The rest of a directory is fetched with the first blob of it that is missing.\<close>

definition prefetch_companions ::
  "('c, 'b, 'g, 'v) env \<Rightarrow> vfs_node \<Rightarrow> ('c, 'b, 'g) world \<Rightarrow> (('c, 'b, 'g) world \<times> unit result) option" where
  "prefetch_companions ev node w =
     (case memory_lookup ev (vn_oid node) (wd_engine w) of
        (e, cached) \<Rightarrow>
          (if cached \<noteq> None \<or> disk_has_blob (ev_os ev) (ge_disk e) (vn_oid node) then Some (w\<lparr>wd_engine := e\<rparr>, Inr ())
           else
             (case get_node (wd_vfs w) (vn_parent node) of
                None \<Rightarrow> Some (w\<lparr>wd_engine := e\<rparr>, Inr ())
              | Some parent_node \<Rightarrow>
                  map_option (\<lambda>(e, r). (w\<lparr>wd_engine := e\<rparr>, res_bind (ok_option r) (\<lambda>_. Inr ())))
                    (prefetch_directory_blobs ev (vn_oid parent_node) e))))"

definition read_blob ::
  "('c, 'b, 'g, 'v) env \<Rightarrow> nat \<Rightarrow> vfs_node \<Rightarrow> ('c, 'b, 'g) world \<Rightarrow> (('c, 'b, 'g) world \<times> bytes result) option" where
  "read_blob ev i node w =
     fuel_then (prefetch_companions ev node w) (\<lambda>w _.
       map_option (\<lambda>(e, r). case r of
           Inl err \<Rightarrow> (w\<lparr>wd_engine := e\<rparr>, Inl err)
         | Inr data \<Rightarrow> (resized i (length data) (w\<lparr>wd_engine := e\<rparr>), Inr data))
         (get_blob ev (vn_oid node) (wd_engine w)))"

definition nfs_read ::
  "('c, 'b, 'g, 'v, 's, 'w) server \<Rightarrow> nat \<Rightarrow> nat \<Rightarrow> nat \<Rightarrow> ('c, 'b, 'g, 's, 'w) nfs \<Rightarrow>
   (('c, 'b, 'g, 's, 'w) nfs \<times> (bytes \<times> bool) result) option" where
  "nfs_read sv i offset count nf =
     fuel_then (Some (nf, live_node nf i)) (\<lambda>nf node.
       if vn_is_dir node then Some (nf, Inl (E_Nfs Nfs_Isdir))
       else
         (case staging_read_at (sv_io sv) i offset count (wd_staging (nf_world nf)) of
            Inr (Some (data, eof)) \<Rightarrow> Some (nf, Inr (data, eof))
          | _ \<Rightarrow>
              (if vn_oid node = [] then Some (nf, Inr ([], True))
               else
                 fuel_then (on_world_fuel Nfs_Io (read_blob (sv_env sv) i node) nf) (\<lambda>nf data.
                   Some (nf, Inr (read_range data offset count))))))"

definition nfs_write ::
  "('c, 'b, 'g, 'v, 's, 'w) server \<Rightarrow> nat \<Rightarrow> nat \<Rightarrow> nat \<Rightarrow> bytes \<Rightarrow> ('c, 'b, 'g, 's, 'w) nfs \<Rightarrow>
   (('c, 'b, 'g, 's, 'w) nfs \<times> fattr result) option" where
  "nfs_write sv now i offset data nf =
     fuel_then (Some (nf, live_node nf i)) (\<lambda>nf node.
       if vn_is_dir node then Some (nf, Inl (E_Nfs Nfs_Isdir))
       else
         fuel_then (on_world_fuel Nfs_Io (write_node (sv_env sv) (sv_io sv) i (vn_oid node) offset data) nf) (\<lambda>nf _.
           map_option (\<lambda>nf. (nf, Inr (node_to_fattr3 sv nf node)))
             (log_node sv now i (\<lambda>path. Wal_Write path offset data) nf)))"

text \<open>\<open>create\<close> and \<open>create_exclusive\<close>, up to the reply.\<close>

definition create_node ::
  "('c, 'b, 'g, 'v, 's, 'w) server \<Rightarrow> nat \<Rightarrow> nat \<Rightarrow> bytes \<Rightarrow> ('c, 'b, 'g, 's, 'w) nfs \<Rightarrow>
   (('c, 'b, 'g, 's, 'w) nfs \<times> vfs_node result) option" where
  "create_node sv now dirid filename nf =
     (let name = from_utf8_lossy filename in
      fuel_then (Some (on_world Nfs_Io (on_vfs (sv_env sv) (\<lambda>rv. vfs_create_file rv dirid name RegularFile)) nf)) (\<lambda>nf node.
      fuel_then (Some (on_world Nfs_Io (on_staging (staging_create_file (sv_io sv) (vn_id node))) nf)) (\<lambda>nf _.
        map_option (\<lambda>path. (log_path sv now path (Wal_Create_File path 0 33188) nf, Inr node)) (child_path nf dirid name))))"

definition nfs_create ::
  "('c, 'b, 'g, 'v, 's, 'w) server \<Rightarrow> nat \<Rightarrow> nat \<Rightarrow> bytes \<Rightarrow> ('c, 'b, 'g, 's, 'w) nfs \<Rightarrow>
   (('c, 'b, 'g, 's, 'w) nfs \<times> (nat \<times> fattr) result) option" where
  "nfs_create sv now dirid filename nf =
     fuel_then (create_node sv now dirid filename nf) (\<lambda>nf node.
       Some (nf, Inr (vn_id node, node_to_fattr3 sv nf node)))"

definition nfs_create_exclusive ::
  "('c, 'b, 'g, 'v, 's, 'w) server \<Rightarrow> nat \<Rightarrow> nat \<Rightarrow> bytes \<Rightarrow> ('c, 'b, 'g, 's, 'w) nfs \<Rightarrow>
   (('c, 'b, 'g, 's, 'w) nfs \<times> nat result) option" where
  "nfs_create_exclusive sv now dirid filename nf =
     fuel_then (create_node sv now dirid filename nf) (\<lambda>nf node. Some (nf, Inr (vn_id node)))"

definition nfs_mkdir ::
  "('c, 'b, 'g, 'v, 's, 'w) server \<Rightarrow> nat \<Rightarrow> nat \<Rightarrow> bytes \<Rightarrow> ('c, 'b, 'g, 's, 'w) nfs \<Rightarrow>
   (('c, 'b, 'g, 's, 'w) nfs \<times> (nat \<times> fattr) result) option" where
  "nfs_mkdir sv now dirid dirname nf =
     (let name = from_utf8_lossy dirname in
      fuel_then (Some (on_world Nfs_Io (on_vfs (sv_env sv) (\<lambda>rv. vfs_mkdir rv dirid name)) nf)) (\<lambda>nf node.
        map_option (\<lambda>path.
            let nf = log_path sv now path (Wal_Mkdir path) nf
            in (nf, Inr (vn_id node, node_to_fattr3 sv nf node))) (child_path nf dirid name)))"

definition nfs_remove ::
  "('c, 'b, 'g, 'v, 's, 'w) server \<Rightarrow> nat \<Rightarrow> nat \<Rightarrow> bytes \<Rightarrow> ('c, 'b, 'g, 's, 'w) nfs \<Rightarrow>
   (('c, 'b, 'g, 's, 'w) nfs \<times> unit result) option" where
  "nfs_remove sv now dirid filename nf =
     (let name = from_utf8_lossy filename in
      fuel_then (Some (on_world Nfs_Noent (on_vfs (sv_env sv) (\<lambda>rv. vfs_remove rv dirid name)) nf)) (\<lambda>nf node.
        let nf = nf\<lparr>nf_world := deleted (vn_id node) (nf_world nf)\<rparr>
        in map_option (\<lambda>path. (log_path sv now path (Wal_Remove path) nf, Inr ())) (child_path nf dirid name)))"

definition nfs_rename ::
  "('c, 'b, 'g, 'v, 's, 'w) server \<Rightarrow> nat \<Rightarrow> nat \<Rightarrow> bytes \<Rightarrow> nat \<Rightarrow> bytes \<Rightarrow> ('c, 'b, 'g, 's, 'w) nfs \<Rightarrow>
   (('c, 'b, 'g, 's, 'w) nfs \<times> unit result) option" where
  "nfs_rename sv now from_dirid from_filename to_dirid to_filename nf =
     (let from_name = from_utf8_lossy from_filename; to_name = from_utf8_lossy to_filename in
      Option.bind (child_path nf from_dirid from_name) (\<lambda>from_path.
      Option.bind (child_path nf to_dirid to_name) (\<lambda>to_path.
      fuel_then (Some (on_world Nfs_Io (on_vfs (sv_env sv) (\<lambda>rv. vfs_rename rv from_dirid from_name to_dirid to_name)) nf)) (\<lambda>nf _.
        Some (log_to_wal sv now (Wal_Rename from_path to_path)
                (record_mutation now to_path (record_mutation now from_path nf)), Inr ())))))"

text \<open>Listing: the entries of a directory with the two special ones, and a page of them.\<close>

record dir_entry =
  de_fileid :: nat
  de_name :: bytes
  de_attr :: fattr

definition dir_entries ::
  "('c, 'b, 'g, 'v, 's, 'w) server \<Rightarrow> ('c, 'b, 'g, 's, 'w) nfs \<Rightarrow> vfs_node \<Rightarrow> vfs_node list \<Rightarrow> dir_entry list" where
  "dir_entries sv nf dir_node0 children =
     (let dir_node = node_now nf dir_node0; parent_id = vn_parent dir_node;
          parent_node = (case get_node (wd_vfs (nf_world nf)) parent_id of Some n \<Rightarrow> n | None \<Rightarrow> dir_node)
      in [\<lparr>de_fileid = vn_id dir_node, de_name = str_bytes ''.'', de_attr = node_to_fattr3 sv nf dir_node\<rparr>,
          \<lparr>de_fileid = parent_id, de_name = str_bytes ''..'', de_attr = node_to_fattr3 sv nf parent_node\<rparr>]
         @ map (\<lambda>child. \<lparr>de_fileid = vn_id child, de_name = str_bytes (vn_name child), de_attr = node_to_fattr3 sv nf child\<rparr>)
             (filter (\<lambda>child. \<not> is_deleted (wd_staging (nf_world nf)) (vn_id child)) children))"

definition page_start :: "nat \<Rightarrow> dir_entry list \<Rightarrow> nat" where
  "page_start start_after entries =
     (if start_after = 0 then 0
      else case position (\<lambda>e. de_fileid e = start_after) entries of Some idx \<Rightarrow> idx + 1 | None \<Rightarrow> 0)"

definition dir_page :: "nat \<Rightarrow> nat \<Rightarrow> dir_entry list \<Rightarrow> dir_entry list \<times> bool" where
  "dir_page start_after max_entries entries =
     (let start_idx = page_start start_after entries; end_idx = min (start_idx + max_entries) (length entries)
      in (slice start_idx end_idx entries, end_idx \<ge> length entries))"

definition nfs_readdir ::
  "('c, 'b, 'g, 'v, 's, 'w) server \<Rightarrow> nat \<Rightarrow> nat \<Rightarrow> nat \<Rightarrow> ('c, 'b, 'g, 's, 'w) nfs \<Rightarrow>
   ('c, 'b, 'g, 's, 'w) nfs \<times> (dir_entry list \<times> bool) result" where
  "nfs_readdir sv dirid start_after max_entries nf =
     (case get_node (wd_vfs (nf_world nf)) dirid of
        None \<Rightarrow> (nf, Inl (E_Nfs Nfs_Noent))
      | Some dir_node \<Rightarrow>
          (if \<not> vn_is_dir dir_node then (nf, Inl (E_Nfs Nfs_Notdir))
           else
             and_then (on_world Nfs_Io (on_vfs (sv_env sv) (\<lambda>rv. list_dir rv dirid)) nf) (\<lambda>nf children.
               (nf, Inr (dir_page start_after max_entries (dir_entries sv nf dir_node children))))))"

text \<open>The task that the first page of a listing starts in the background, a step of its own.\<close>

definition readdir_prefetch ::
  "('c, 'b, 'g, 'v, 's, 'w) server \<Rightarrow> string \<Rightarrow> ('c, 'b, 'g, 's, 'w) nfs \<Rightarrow> ('c, 'b, 'g, 's, 'w) nfs option" where
  "readdir_prefetch sv dir_oid nf =
     map_option (\<lambda>(e, _). nf\<lparr>nf_world := (nf_world nf)\<lparr>wd_engine := e\<rparr>\<rparr>)
       (prefetch_directory_blobs (sv_env sv) dir_oid (wd_engine (nf_world nf)))"

definition nfs_symlink :: "('c, 'b, 'g, 's, 'w) nfs \<Rightarrow> ('c, 'b, 'g, 's, 'w) nfs \<times> (nat \<times> fattr) result" where
  "nfs_symlink nf = (nf, Inl (E_Nfs Nfs_Rofs))"

definition nfs_readlink ::
  "('c, 'b, 'g, 'v, 's, 'w) server \<Rightarrow> nat \<Rightarrow> ('c, 'b, 'g, 's, 'w) nfs \<Rightarrow> (('c, 'b, 'g, 's, 'w) nfs \<times> bytes result) option" where
  "nfs_readlink sv i nf =
     (case get_node (wd_vfs (nf_world nf)) i of
        None \<Rightarrow> Some (nf, Inl (E_Nfs Nfs_Noent))
      | Some node \<Rightarrow>
          (if \<not> mode_is_symlink (vn_mode node) then Some (nf, Inl (E_Nfs Nfs_Inval))
           else
             on_world_fuel Nfs_Io (\<lambda>w. map_option (\<lambda>(e, r). (w\<lparr>wd_engine := e\<rparr>, r))
               (get_blob (sv_env sv) (vn_oid node) (wd_engine w))) nf))"

end
