(* ===== verification/Nfs_Session.thy ===== *)
theory Nfs_Session
  imports Nfs_Fs
begin

text \<open>
  What a session of NFS requests leaves in the log, and what the log is worth: the mutations of a
  session, each logged by path after it was done by inode, replayed by recovery on the state at the
  start of the session, lead to the state at its end.
\<close>

section \<open>Paths of the log\<close>

text \<open>A node reached from the root by names.\<close>

definition reached :: "vfs \<Rightarrow> nat \<Rightarrow> bool" where
  "reached v i \<longleftrightarrow> (\<exists>nms. walk v root_inode nms = Some i \<and> list_all name_ok nms)"

lemma ensure_parts_walk:
  "walk v d nms = Some i \<Longrightarrow> list_all name_ok nms \<Longrightarrow> ensure_parts rv d nms v = (v, Inr i)"
  by (induction nms arbitrary: d) (auto simp: name_ok_def lookup_live split: option.splits)

lemma join_snoc: "join sep (nms @ [nm]) = (if nms = [] then nm else join sep nms @ sep @ nm)"
  by (induction sep nms rule: join.induct) auto

lemma split_path:
  assumes "nms \<noteq> []" "list_all name_ok nms"
  shows "split_on (CHR ''/'') (trim_char (CHR ''/'') (join ''/'' nms)) = nms"
proof -
  note j = join_ends [OF assms]
  have "trim_char (CHR ''/'') (join ''/'' nms) = join ''/'' nms"
    using j by (simp add: trim_char_def trim_start_char_id trim_end_char_id)
  then show ?thesis using assms by (simp add: split_on_join list_all_iff name_ok_def)
qed

lemma ensure_parent_walk:
  assumes "walk v root_inode nms = Some d" "list_all name_ok (nms @ [nm])"
  shows "ensure_parent_dirs rv (join ''/'' (nms @ [nm])) v = (v, Inr (d, nm))"
proof -
  have "filter (\<lambda>p. p \<noteq> []) (nms @ [nm]) = nms @ [nm]"
    using assms(2) by (intro filter_True) (auto simp: list_all_iff name_ok_def)
  then show ?thesis
    using split_path [OF _ assms(2)] ensure_parts_walk [OF assms(1)] assms(2)
    by (simp add: ensure_parent_dirs_def Let_def del: filter_append)
qed

lemma child_path_walk:
  assumes "vfs_wf (wd_vfs (nf_world nf))" "walk (wd_vfs (nf_world nf)) root_inode nms = Some d" "list_all name_ok nms"
  shows "child_path nf d nm = Some (join ''/'' (nms @ [nm]))"
proof -
  have "join ''/'' nms = [] \<longleftrightarrow> nms = []" using join_ends [OF _ assms(3)] by (cases "nms = []") auto
  then show ?thesis by (simp add: child_path_def get_path_walk [OF assms(1,2)] Let_def join_snoc)
qed

section \<open>A changed path is independent of the other steps\<close>

lemma record_changed: "record_changed_path p s = s\<lparr>sg_changed := sg_changed (record_changed_path p s)\<rparr>"
  by (simp add: record_changed_path_def Let_def)

lemma ensure_changed:
  "ensure_file io i b (s\<lparr>sg_changed := c\<rparr>) = map_prod (sg_changed_update (\<lambda>_. c)) id (ensure_file io i b s)"
  by (simp add: ensure_file_def existing_file_def Let_def split: option.split)

lemma staging_changed:
  "staging_create_file io i (s\<lparr>sg_changed := c\<rparr>) = map_prod (sg_changed_update (\<lambda>_. c)) id (staging_create_file io i s)"
  "staging_write_at io i off d base (s\<lparr>sg_changed := c\<rparr>) = map_prod (sg_changed_update (\<lambda>_. c)) id (staging_write_at io i off d base s)"
  "staging_truncate io i n base (s\<lparr>sg_changed := c\<rparr>) = map_prod (sg_changed_update (\<lambda>_. c)) id (staging_truncate io i n base s)"
proof -
  show "staging_create_file io i (s\<lparr>sg_changed := c\<rparr>) = map_prod (sg_changed_update (\<lambda>_. c)) id (staging_create_file io i s)"
    by (simp add: staging_create_file_def)
  obtain s1 r where e: "ensure_file io i base s = (s1, r)" by fastforce
  show "staging_write_at io i off d base (s\<lparr>sg_changed := c\<rparr>) = map_prod (sg_changed_update (\<lambda>_. c)) id (staging_write_at io i off d base s)"
    "staging_truncate io i n base (s\<lparr>sg_changed := c\<rparr>) = map_prod (sg_changed_update (\<lambda>_. c)) id (staging_truncate io i n base s)"
    by (cases r; simp add: staging_write_at_def staging_truncate_def ensure_changed e Let_def)+
qed

lemma staging_keeps_changed:
  "sg_changed (fst (staging_create_file io i s)) = sg_changed s"
  "sg_changed (fst (staging_write_at io i off d base s)) = sg_changed s"
  "sg_changed (fst (staging_truncate io i n base s)) = sg_changed s"
  by (auto simp: staging_create_file_def staging_write_at_def staging_truncate_def ensure_file_def Let_def split: option.split)

definition keeps_changed :: "(staging \<Rightarrow> staging \<times> 'a result) \<Rightarrow> bool" where
  "keeps_changed f \<longleftrightarrow> (\<forall>s c. f (s\<lparr>sg_changed := c\<rparr>) = map_prod (sg_changed_update (\<lambda>_. c)) id (f s)) \<and>
     (\<forall>s. sg_changed (fst (f s)) = sg_changed s)"

lemma keeps_changed_ops [simp]:
  "keeps_changed (staging_create_file io i)" "keeps_changed (staging_write_at io i off d base)"
  "keeps_changed (staging_truncate io i n base)"
  by (simp_all add: keeps_changed_def staging_changed staging_keeps_changed)

lemma keeps_changed_record:
  assumes "keeps_changed f"
  shows "f (record_changed_path p s) = map_prod (record_changed_path p) id (f s)"
proof -
  obtain s' r where f: "f s = (s', r)" by fastforce
  have c: "sg_changed s' = sg_changed s" using assms f unfolding keeps_changed_def by (metis fst_conv)
  have "f (record_changed_path p s) = map_prod (sg_changed_update (\<lambda>_. sg_changed (record_changed_path p s))) id (f s)"
    using assms unfolding keeps_changed_def by (metis record_changed)
  then show ?thesis using c by (simp add: f record_changed_path_def Let_def)
qed

lemma on_staging_changed [simp]:
  "keeps_changed f \<Longrightarrow> on_staging f (changed p w) = map_prod (changed p) id (on_staging f w)"
  by (cases "f (wd_staging w)") (simp add: on_staging_def changed_def keeps_changed_record)

lemma changed_commutes [simp]:
  "on_vfs ev g (changed p w) = map_prod (changed p) id (on_vfs ev g w)"
  "resized i n (changed p w) = changed p (resized i n w)" "deleted i (changed p w) = changed p (deleted i w)"
  by (simp_all add: on_vfs_def changed_def resized_def deleted_def mark_deleted_def record_changed_path_def Let_def
      split: prod.split)

lemma base_changed:
  "base_data ev i oid (changed p w) = map_option (map_prod (changed p) id) (base_data ev i oid w)"
  by (auto simp: base_data_def is_staged_def record_changed_path_def changed_def Let_def map_option_case split: option.split)

lemma node_changed [simp]:
  "write_node ev io i oid off d (changed p w) = map_option (map_prod (changed p) id) (write_node ev io i oid off d w)"
  "truncate_node ev io i oid n (changed p w) = map_option (map_prod (changed p) id) (truncate_node ev io i oid n w)"
  unfolding write_node_def truncate_node_def base_changed
  by (auto simp: fuel_then_def and_then_def map_prod_def split: option.split prod.split sum.split)

section \<open>Operations keep the paths of the nodes there are\<close>

definition same_ancestry :: "vfs \<Rightarrow> vfs \<Rightarrow> bool" where
  "same_ancestry v v' \<longleftrightarrow> (\<forall>j n. hm_get (vs_nodes v) j = Some n \<longrightarrow>
     (\<exists>n'. hm_get (vs_nodes v') j = Some n' \<and> vn_parent n' = vn_parent n \<and> vn_name n' = vn_name n))"

lemma same_ancestry_refl [simp]: "same_ancestry v v"
  by (simp add: same_ancestry_def)

lemma same_ancestry_trans: "same_ancestry u v \<Longrightarrow> same_ancestry v w \<Longrightarrow> same_ancestry u w"
  unfolding same_ancestry_def by metis

lemma path_loop_ancestry:
  assumes "same_ancestry v v'" "path_loop v i acc = Some (Inr r)"
  shows "path_loop v' i acc = Some (Inr r)"
proof -
  have "w = v \<longrightarrow> (\<forall>r. q = Inr r \<longrightarrow> path_loop v' j acc = Some (Inr r))" if run: "path_loop w j acc = Some q" for w j acc q
  proof (rule path_loop.raw_induct [where P = "\<lambda>w j acc q. w = v \<longrightarrow> (\<forall>r. q = Inr r \<longrightarrow> path_loop v' j acc = Some (Inr r))", OF _ run])
    fix loop w j acc and q :: "string list result"
    assume ih: "\<And>w j acc q. loop w j acc = Some q \<Longrightarrow> w = v \<longrightarrow> (\<forall>r. q = Inr r \<longrightarrow> path_loop v' j acc = Some (Inr r))"
      and body: "(if j = root_inode then Some (Inr acc)
        else case hm_get (vs_nodes w) j of None \<Rightarrow> Some (Inl (E_Vfs Vfs_NoNode))
          | Some n \<Rightarrow> if vn_parent n = j then Some (Inr (acc @ [vn_name n]))
              else loop w (vn_parent n) (acc @ [vn_name n])) = Some q"
    show "w = v \<longrightarrow> (\<forall>r. q = Inr r \<longrightarrow> path_loop v' j acc = Some (Inr r))"
    proof (intro impI allI)
      fix r assume w: "w = v" and q: "q = Inr r"
      show "path_loop v' j acc = Some (Inr r)"
      proof (cases "j = root_inode")
        case True
        then show ?thesis using body q by (simp add: path_loop.simps [of v'])
      next
        case False
        then obtain n where n: "hm_get (vs_nodes v) j = Some n" using body w q by (auto split: option.splits)
        then obtain n' where n': "hm_get (vs_nodes v') j = Some n'" "vn_parent n' = vn_parent n" "vn_name n' = vn_name n"
          using assms(1) unfolding same_ancestry_def by metis
        show ?thesis using False n n' body w q ih by (auto simp: path_loop.simps [of v' j] split: if_splits)
      qed
    qed
  qed
  then show ?thesis using assms(2) by blast
qed

lemma get_path_ancestry: "same_ancestry v v' \<Longrightarrow> get_path v i = Some (Inr p) \<Longrightarrow> get_path v' i = Some (Inr p)"
  by (auto simp: get_path_def map_sum_def path_loop_ancestry split: if_splits sum.splits)

lemma ensure_ancestry: "vfs_wf v \<Longrightarrow> same_ancestry v (fst (ensure_dir_populated rv d v))"
  using ensure_grows [of v rv d] by (simp add: grows_def same_ancestry_def)

lemma add_ancestry: "vfs_wf v \<Longrightarrow> vn_id n = vs_next v \<Longrightarrow> same_ancestry v (add_node n v)"
  using wf_fresh [of v "vs_next v"] by (auto simp: same_ancestry_def add_node_def)

lemma update_ancestry:
  "(\<And>n. vn_parent (f n) = vn_parent n \<and> vn_name (f n) = vn_name n) \<Longrightarrow> same_ancestry v (node_update i f v)"
  by (simp add: same_ancestry_def get_node_update)

lemma create_ancestry:
  assumes "vfs_wf v" "vfs_create_file rv d nm mode v = (v', Inr node)"
  shows "same_ancestry v v'"
proof -
  obtain v1 r where e: "ensure_dir_populated rv d v = (v1, r)" by fastforce
  have v1: "vfs_wf v1" "same_ancestry v v1" using ensure_wf [OF assms(1)] ensure_ancestry [OF assms(1)] e by (metis fst_conv)+
  have r: "r = Inr ()" using assms(2) e by (cases r) (auto simp: vfs_create_file_def)
  have "same_ancestry v1 v'"
  proof (cases "\<exists>i m. hm_get (vs_child v1) (d, nm) = Some i \<and> hm_get (vs_nodes v1) i = Some m")
    case True
    then obtain i m where i: "hm_get (vs_child v1) (d, nm) = Some i" "hm_get (vs_nodes v1) i = Some m" by blast
    then have "v' = node_update i (\<lambda>_. m\<lparr>vn_deleted := False, vn_size := 0\<rparr>) v1"
      using assms(2) e r by (auto simp: vfs_create_file_def Let_def)
    then show ?thesis using i(2) by (auto simp: same_ancestry_def get_node_update)
  next
    case False
    then have "v' = add_node \<lparr>vn_id = vs_next v1, vn_parent = d, vn_name = nm, vn_oid = [], vn_mode = mode, vn_is_dir = False,
        vn_size = 0, vn_deleted = False\<rparr> v1"
      using assms(2) e r by (auto simp: vfs_create_file_def Let_def split: option.splits)
    then show ?thesis using add_ancestry [OF v1(1)] by simp
  qed
  then show ?thesis using v1(2) same_ancestry_trans by blast
qed

lemma mkdir_ancestry:
  assumes "vfs_wf v" "vfs_mkdir rv d nm v = (v', Inr node)"
  shows "same_ancestry v v'"
proof -
  obtain v1 r where e: "ensure_dir_populated rv d v = (v1, r)" by fastforce
  have v1: "vfs_wf v1" "same_ancestry v v1" using ensure_wf [OF assms(1)] ensure_ancestry [OF assms(1)] e by (metis fst_conv)+
  define n where "n = \<lparr>vn_id = vs_next v1, vn_parent = d, vn_name = nm, vn_oid = [], vn_mode = Directory, vn_is_dir = True,
      vn_size = 4096, vn_deleted = False\<rparr>"
  have "r = Inr ()" using assms(2) e by (cases r) (auto simp: vfs_mkdir_def)
  then have "vs_nodes v' = vs_nodes (add_node n v1)" using assms(2) e by (auto simp: vfs_mkdir_def Let_def n_def)
  moreover have "same_ancestry v1 (add_node n v1)" using add_ancestry [OF v1(1)] by (simp add: n_def)
  ultimately have "same_ancestry v1 v'" by (simp add: same_ancestry_def)
  then show ?thesis using v1(2) same_ancestry_trans by blast
qed

lemma remove_ancestry:
  assumes "vfs_wf v" "vfs_remove rv d nm v = (v', Inr node)"
  shows "same_ancestry v v'"
proof -
  obtain v1 r where e: "ensure_dir_populated rv d v = (v1, r)" by fastforce
  have v1: "same_ancestry v v1" using ensure_ancestry [OF assms(1)] e by (metis fst_conv)
  have "r = Inr ()" using assms(2) e by (cases r) (auto simp: remove_eq)
  then obtain i where "v' = removed i d nm v1" using assms(2) e by (auto simp: remove_eq split: option.splits)
  then have "same_ancestry v1 v'" by (simp add: same_ancestry_def removed_fields)
  then show ?thesis using v1 same_ancestry_trans by blast
qed

section \<open>One mutation and its replay\<close>

datatype nfs_op =
  Op_Write nat nat bytes | Op_Truncate nat nat | Op_Create nat bytes | Op_Mkdir nat bytes | Op_Remove nat bytes
| Op_Rename nat bytes nat bytes

definition reply :: "('st \<times> 'a result) option \<Rightarrow> ('st \<times> unit result) option" where
  "reply r = map_option (\<lambda>(st, q). (st, res_bind q (\<lambda>_. Inr ()))) r"

fun nfs_do ::
  "('c, 'b, 'g, 'v, 's, 'w) server \<Rightarrow> nat \<Rightarrow> nfs_op \<Rightarrow> ('c, 'b, 'g, 's, 'w) nfs \<Rightarrow>
   (('c, 'b, 'g, 's, 'w) nfs \<times> unit result) option" where
  "nfs_do sv now (Op_Write i off d) nf = reply (nfs_write sv now i off d nf)"
| "nfs_do sv now (Op_Truncate i n) nf = reply (nfs_setattr sv now i (Some n) nf)"
| "nfs_do sv now (Op_Create d nm) nf = reply (nfs_create sv now d nm nf)"
| "nfs_do sv now (Op_Mkdir d nm) nf = reply (nfs_mkdir sv now d nm nf)"
| "nfs_do sv now (Op_Remove d nm) nf = nfs_remove sv now d nm nf"
| "nfs_do sv now (Op_Rename f fn t tn) nf = nfs_rename sv now f fn t tn nf"

text \<open>The nodes of a request were reached by names; what is removed was looked up.\<close>

fun op_addressed :: "vfs \<Rightarrow> nfs_op \<Rightarrow> bool" where
  "op_addressed v (Op_Write i off d) \<longleftrightarrow> reached v i"
| "op_addressed v (Op_Truncate i n) \<longleftrightarrow> reached v i"
| "op_addressed v (Op_Create d nm) \<longleftrightarrow> reached v d \<and> name_ok (from_utf8_lossy nm)"
| "op_addressed v (Op_Mkdir d nm) \<longleftrightarrow> reached v d \<and> name_ok (from_utf8_lossy nm)"
| "op_addressed v (Op_Remove d nm) \<longleftrightarrow> reached v d \<and> name_ok (from_utf8_lossy nm) \<and> dir_map v (d, from_utf8_lossy nm) \<noteq> None"
| "op_addressed v (Op_Rename f fn t tn) \<longleftrightarrow> reached v f \<and> reached v t \<and> name_ok (from_utf8_lossy fn) \<and> name_ok (from_utf8_lossy tn)"

lemma reply_Some: "reply r = Some (st, Inr ()) \<longleftrightarrow> (\<exists>x. r = Some (st, Inr x))"
  by (auto simp: reply_def res_bind_Inr_iff)

lemma with_status_Inr [simp]: "with_status st r = Inr x \<longleftrightarrow> r = Inr x"
  by (simp add: with_status_def split: sum.split)

lemma with_status_simps [simp]:
  "with_status st (Inr x) = Inr x" "with_status st (Inl e) = Inl (if e = Panic then Panic else E_Nfs st)"
  by (simp_all add: with_status_def)

lemma fuel_then_Inr: "fuel_then r f = Some (s, Inr y) \<longleftrightarrow> (\<exists>s' x. r = Some (s', Inr x) \<and> f s' x = Some (s, Inr y))"
  by (auto simp: fuel_then_def split: option.split prod.split sum.split)

lemma on_vfs_same: "f (engine_view ev (wd_engine w)) (wd_vfs w) = (wd_vfs w, r) \<Longrightarrow> on_vfs ev f w = (w, r)"
  by (simp add: on_vfs_def)

lemma log_path_fields [simp]:
  "nf_world (log_path sv now path p nf) = changed path (nf_world nf)"
  "nf_wal (log_path sv now path p nf) = map_option (\<lambda>m. fst (log_mutation (sv_wal sv) now p m)) (nf_wal nf)"
  by (simp_all add: log_path_def log_to_wal_def record_mutation_def)

lemma node_vfs:
  "write_node ev io i oid off d w = Some (w', Inr ()) \<Longrightarrow> \<exists>n. wd_vfs w' = update_file_size i n (wd_vfs w)"
  "truncate_node ev io i oid n w = Some (w', Inr ()) \<Longrightarrow> wd_vfs w' = update_file_size i n (wd_vfs w)"
proof -
  assume "write_node ev io i oid off d w = Some (w', Inr ())"
  then obtain w1 b where b: "base_data ev i oid w = Some (w1, Inr b)"
    and st: "and_then (on_staging (staging_write_at io i off d b) w1) (\<lambda>w n. (resized i n w, Inr ())) = (w', Inr ())"
    by (auto simp: write_node_def fuel_then_Inr)
  then show "\<exists>n. wd_vfs w' = update_file_size i n (wd_vfs w)"
    using wf_replay.base_data_vfs [OF b] by (auto simp: and_then_def on_staging_def split: prod.splits sum.splits)
next
  assume "truncate_node ev io i oid n w = Some (w', Inr ())"
  then obtain w1 b where b: "base_data ev i oid w = Some (w1, Inr b)"
    and st: "and_then (on_staging (staging_truncate io i n b) w1) (\<lambda>w _. (resized i n w, Inr ())) = (w', Inr ())"
    by (auto simp: truncate_node_def fuel_then_Inr)
  then show "wd_vfs w' = update_file_size i n (wd_vfs w)"
    using wf_replay.base_data_vfs [OF b] by (auto simp: and_then_def on_staging_def split: prod.splits sum.splits)
qed

lemma size_path:
  assumes "vfs_wf v" "walk v root_inode nms = Some i"
  shows "get_path (update_file_size j n v) i = Some (Inr (join ''/'' nms))"
  by (rule get_path_ancestry [OF _ get_path_walk [OF assms]]) (simp add: update_file_size_def update_ancestry)

text \<open>Finding the node again by its path changes nothing.\<close>

lemma replay_finds:
  assumes "walk (wd_vfs w) root_inode nms = Some i" "list_all name_ok nms"
  shows "on_vfs ev (\<lambda>rv. lookup_path rv (join ''/'' nms)) w = (w, Inr i)"
    "replay_node ev io (join ''/'' nms) w = (w, Inr i)"
  using lookup_path_walk [OF assms] by (simp_all add: on_vfs_same replay_node_def)

lemma replay_parent:
  assumes "walk (wd_vfs w) root_inode nms = Some d" "list_all name_ok nms" "name_ok nm"
  shows "on_vfs ev (\<lambda>rv. ensure_parent_dirs rv (join ''/'' (nms @ [nm]))) w = (w, Inr (d, nm))"
  by (rule on_vfs_same) (use ensure_parent_walk [OF assms(1)] assms(2,3) in simp)

definition replayed_by ::
  "('c, 'b, 'g, 'v, 's, 'w) server \<Rightarrow> nat \<Rightarrow> wal_payload \<Rightarrow> ('c, 'b, 'g, 's, 'w) nfs \<Rightarrow> ('c, 'b, 'g, 's, 'w) nfs \<Rightarrow> bool" where
  "replayed_by sv now p nf nf' \<longleftrightarrow>
     (\<forall>h. Wal_Header h \<noteq> p) \<and>
     replay_payload (sv_env sv) (sv_io sv) p (nf_world nf) = Some (nf_world nf', Inr ()) \<and>
     nf_wal nf' = map_option (\<lambda>m. fst (log_mutation (sv_wal sv) now p m)) (nf_wal nf)"

lemma write_replayed:
  assumes wf: "vfs_wf (wd_vfs (nf_world nf))" and i: "reached (wd_vfs (nf_world nf)) i"
    and run: "nfs_write sv now i off d nf = Some (nf', Inr a)"
  shows "\<exists>p. replayed_by sv now p nf nf'"
proof -
  obtain nms where nms: "walk (wd_vfs (nf_world nf)) root_inode nms = Some i" "list_all name_ok nms"
    using i by (auto simp: reached_def)
  obtain node where node: "get_node (wd_vfs (nf_world nf)) i = Some node"
    using run by (auto simp: nfs_write_def live_node_def split: if_splits option.splits)
  obtain w1 where w1: "write_node (sv_env sv) (sv_io sv) i (vn_oid node) off d (nf_world nf) = Some (w1, Inr ())"
    and l: "log_node sv now i (\<lambda>path. Wal_Write path off d) (nf\<lparr>nf_world := w1\<rparr>) = Some nf'"
    using run node by (auto simp: nfs_write_def live_node_def on_world_fuel_def fuel_then_Inr split: if_splits)
  obtain n where "wd_vfs w1 = update_file_size i n (wd_vfs (nf_world nf))" using node_vfs(1) [OF w1] by blast
  then have "nf' = log_path sv now (join ''/'' nms) (Wal_Write (join ''/'' nms) off d) (nf\<lparr>nf_world := w1\<rparr>)"
    using l size_path [OF wf nms(1)] by (simp add: log_node_def)
  moreover have "replay_node (sv_env sv) (sv_io sv) (join ''/'' nms) (changed (join ''/'' nms) (nf_world nf)) =
      (changed (join ''/'' nms) (nf_world nf), Inr i)"
    by (rule replay_finds(2)) (simp_all add: nms)
  ultimately show ?thesis
    using w1 node by (intro exI [of _ "Wal_Write (join ''/'' nms) off d"]) (simp add: replayed_by_def replay_write_def)
qed

lemma truncate_replayed:
  assumes wf: "vfs_wf (wd_vfs (nf_world nf))" and i: "reached (wd_vfs (nf_world nf)) i"
    and run: "nfs_setattr sv now i (Some n) nf = Some (nf', Inr a)"
  shows "\<exists>p. replayed_by sv now p nf nf'"
proof -
  obtain nms where nms: "walk (wd_vfs (nf_world nf)) root_inode nms = Some i" "list_all name_ok nms"
    using i by (auto simp: reached_def)
  obtain node where node: "get_node (wd_vfs (nf_world nf)) i = Some node"
    using run by (auto simp: nfs_setattr_def live_node_def split: if_splits option.splits)
  obtain w1 where w1: "truncate_node (sv_env sv) (sv_io sv) i (vn_oid node) n (nf_world nf) = Some (w1, Inr ())"
    and l: "log_node sv now i (\<lambda>path. Wal_Truncate path n) (nf\<lparr>nf_world := w1\<rparr>) = Some nf'"
    using run node by (auto simp: nfs_setattr_def live_node_def on_world_fuel_def fuel_then_Inr split: if_splits)
  have "nf' = log_path sv now (join ''/'' nms) (Wal_Truncate (join ''/'' nms) n) (nf\<lparr>nf_world := w1\<rparr>)"
    using l node_vfs(2) [OF w1] size_path [OF wf nms(1)] by (simp add: log_node_def)
  moreover have "on_vfs (sv_env sv) (\<lambda>rv. lookup_path rv (join ''/'' nms)) (changed (join ''/'' nms) (nf_world nf)) =
      (changed (join ''/'' nms) (nf_world nf), Inr i)"
    by (rule replay_finds(1)) (simp_all add: nms)
  ultimately show ?thesis
    using w1 node by (intro exI [of _ "Wal_Truncate (join ''/'' nms) n"]) (simp add: replayed_by_def replay_truncate_def del: changed_commutes)
qed

lemma on_world_Inr:
  "on_world st f nf = (nf', Inr x) \<longleftrightarrow> (\<exists>w. f (nf_world nf) = (w, Inr x) \<and> nf' = nf\<lparr>nf_world := w\<rparr>)"
  by (auto simp: on_world_def split: prod.split)

lemma on_vfs_Inr:
  "on_vfs ev f w = (w', Inr x) \<longleftrightarrow>
   (\<exists>v. f (engine_view ev (wd_engine w)) (wd_vfs w) = (v, Inr x) \<and> w' = w\<lparr>wd_vfs := v\<rparr>)"
  by (auto simp: on_vfs_def split: prod.split)

lemma child_path_after:
  assumes "vfs_wf v" "walk v root_inode nms = Some d" "list_all name_ok nms" "same_ancestry v (wd_vfs (nf_world nf))"
  shows "child_path nf d nm = Some (join ''/'' (nms @ [nm]))"
proof -
  have "get_path (wd_vfs (nf_world nf)) d = Some (Inr (join ''/'' nms))"
    by (rule get_path_ancestry [OF assms(4) get_path_walk [OF assms(1,2)]])
  moreover have "join ''/'' nms = [] \<longleftrightarrow> nms = []" using join_ends [OF _ assms(3)] by (cases "nms = []") auto
  ultimately show ?thesis by (simp add: child_path_def Let_def join_snoc)
qed

lemma create_replayed:
  assumes wf: "vfs_wf (wd_vfs (nf_world nf))" and d: "reached (wd_vfs (nf_world nf)) d" and nm: "name_ok (from_utf8_lossy filename)"
    and run: "nfs_create sv now d filename nf = Some (nf', Inr a)"
  shows "\<exists>p. replayed_by sv now p nf nf'"
proof -
  define name where "name = from_utf8_lossy filename"
  obtain nms where nms: "walk (wd_vfs (nf_world nf)) root_inode nms = Some d" "list_all name_ok nms"
    using d by (auto simp: reached_def)
  obtain w1 w2 node u path where w1: "on_vfs (sv_env sv) (\<lambda>rv. vfs_create_file rv d name RegularFile) (nf_world nf) = (w1, Inr node)"
    and w2: "on_staging (staging_create_file (sv_io sv) (vn_id node)) w1 = (w2, Inr u)"
    and path: "child_path (nf\<lparr>nf_world := w2\<rparr>) d name = Some path"
    and nf': "nf' = log_path sv now path (Wal_Create_File path 0 33188) (nf\<lparr>nf_world := w2\<rparr>)"
    using run by (auto simp: nfs_create_def create_node_def name_def Let_def fuel_then_Inr on_world_Inr)
  have "same_ancestry (wd_vfs (nf_world nf)) (wd_vfs w1)" using w1 create_ancestry [OF wf] by (auto simp: on_vfs_Inr)
  moreover have "wd_vfs w2 = wd_vfs w1"
    using on_staging_fields(1) [of "staging_create_file (sv_io sv) (vn_id node)" w1] w2 by simp
  ultimately have "path = join ''/'' (nms @ [name])"
    using path child_path_after [OF wf nms, of "nf\<lparr>nf_world := w2\<rparr>"] by simp
  then have "on_vfs (sv_env sv) (\<lambda>rv. ensure_parent_dirs rv path) (nf_world nf) = (nf_world nf, Inr (d, name))"
    using replay_parent [OF nms] nm by (simp add: name_def)
  then show ?thesis using w1 w2
    by (intro exI [of _ "Wal_Create_File path 0 33188"]) (simp add: replayed_by_def replay_create_def nf' inode_type_of_def)
qed

lemma mkdir_replayed:
  assumes wf: "vfs_wf (wd_vfs (nf_world nf))" and d: "reached (wd_vfs (nf_world nf)) d" and nm: "name_ok (from_utf8_lossy dirname)"
    and run: "nfs_mkdir sv now d dirname nf = Some (nf', Inr a)"
  shows "\<exists>p. replayed_by sv now p nf nf'"
proof -
  define name where "name = from_utf8_lossy dirname"
  obtain nms where nms: "walk (wd_vfs (nf_world nf)) root_inode nms = Some d" "list_all name_ok nms"
    using d by (auto simp: reached_def)
  obtain w1 node path where w1: "on_vfs (sv_env sv) (\<lambda>rv. vfs_mkdir rv d name) (nf_world nf) = (w1, Inr node)"
    and path: "child_path (nf\<lparr>nf_world := w1\<rparr>) d name = Some path"
    and nf': "nf' = log_path sv now path (Wal_Mkdir path) (nf\<lparr>nf_world := w1\<rparr>)"
    using run by (auto simp: nfs_mkdir_def name_def Let_def fuel_then_Inr on_world_Inr)
  have "same_ancestry (wd_vfs (nf_world nf)) (wd_vfs w1)" using w1 mkdir_ancestry [OF wf] by (auto simp: on_vfs_Inr)
  then have "path = join ''/'' (nms @ [name])"
    using path child_path_after [OF wf nms, of "nf\<lparr>nf_world := w1\<rparr>"] by simp
  then have "on_vfs (sv_env sv) (\<lambda>rv. ensure_parent_dirs rv path) (nf_world nf) = (nf_world nf, Inr (d, name))"
    using replay_parent [OF nms] nm by (simp add: name_def)
  then show ?thesis using w1
    by (intro exI [of _ "Wal_Mkdir path"]) (simp add: replayed_by_def replay_mkdir_def nf')
qed

text \<open>The removed node is the one its name led to.\<close>

lemma removed_id:
  assumes "vfs_wf v" "dir_map v (d, nm) = Some i" "vfs_remove rv d nm v = (v', Inr node)"
  shows "vn_id node = i"
proof -
  have c: "hm_get (vs_child v) (d, nm) = Some i"
    using assms(2) by (auto simp: dir_map_def live_child_def split: option.splits if_splits)
  then obtain ids where ids: "hm_get (vs_dirs v) d = Some ids" using wf_child [OF assms(1)] by metis
  then show ?thesis
    using assms(3) c wf_node [OF assms(1)] by (auto simp: remove_eq ensure_present split: option.splits)
qed

lemma remove_replayed:
  assumes wf: "vfs_wf (wd_vfs (nf_world nf))" and d: "reached (wd_vfs (nf_world nf)) d" and nm: "name_ok (from_utf8_lossy filename)"
    and ex: "dir_map (wd_vfs (nf_world nf)) (d, from_utf8_lossy filename) \<noteq> None"
    and run: "nfs_remove sv now d filename nf = Some (nf', Inr a)"
  shows "\<exists>p. replayed_by sv now p nf nf'"
proof -
  define name where "name = from_utf8_lossy filename"
  obtain i where i: "dir_map (wd_vfs (nf_world nf)) (d, name) = Some i" using ex by (auto simp: name_def)
  obtain nms where nms: "walk (wd_vfs (nf_world nf)) root_inode nms = Some d" "list_all name_ok nms"
    using d by (auto simp: reached_def)
  obtain w1 node path where w1: "on_vfs (sv_env sv) (\<lambda>rv. vfs_remove rv d name) (nf_world nf) = (w1, Inr node)"
    and path: "child_path (nf\<lparr>nf_world := deleted (vn_id node) w1\<rparr>) d name = Some path"
    and nf': "nf' = log_path sv now path (Wal_Remove path) (nf\<lparr>nf_world := deleted (vn_id node) w1\<rparr>)"
    using run by (auto simp: nfs_remove_def name_def Let_def fuel_then_Inr on_world_Inr)
  have "same_ancestry (wd_vfs (nf_world nf)) (wd_vfs w1)" using w1 remove_ancestry [OF wf] by (auto simp: on_vfs_Inr)
  then have p: "path = join ''/'' (nms @ [name])"
    using path child_path_after [OF wf nms, of "nf\<lparr>nf_world := deleted (vn_id node) w1\<rparr>"] by simp
  have par: "on_vfs (sv_env sv) (\<lambda>rv. ensure_parent_dirs rv path) (nf_world nf) = (nf_world nf, Inr (d, name))"
    using replay_parent [OF nms] nm by (simp add: name_def p)
  have "walk (wd_vfs (nf_world nf)) root_inode (nms @ [name]) = Some i" using nms(1) i by (simp add: walk_snoc)
  then have look: "on_vfs (sv_env sv) (\<lambda>rv. lookup_path rv path) (nf_world nf) = (nf_world nf, Inr i)"
    unfolding p by (rule replay_finds(1)) (use nms(2) nm in \<open>simp add: name_def\<close>)
  have "vn_id node = i" using removed_id [OF wf i] w1 by (auto simp: on_vfs_Inr)
  then show ?thesis using w1 par look
    by (intro exI [of _ "Wal_Remove path"]) (simp add: replayed_by_def replay_remove_def nf')
qed

lemma rename_replayed:
  assumes wf: "vfs_wf (wd_vfs (nf_world nf))" and d: "reached (wd_vfs (nf_world nf)) f" "reached (wd_vfs (nf_world nf)) t"
    and nm: "name_ok (from_utf8_lossy fn)" "name_ok (from_utf8_lossy tn)"
    and run: "nfs_rename sv now f fn t tn nf = Some (nf', Inr a)"
  shows "\<exists>p. replayed_by sv now p nf nf'"
proof -
  define from_name to_name where names: "from_name = from_utf8_lossy fn" "to_name = from_utf8_lossy tn"
  obtain fs ts where fs: "walk (wd_vfs (nf_world nf)) root_inode fs = Some f" "list_all name_ok fs"
    and ts: "walk (wd_vfs (nf_world nf)) root_inode ts = Some t" "list_all name_ok ts"
    using d by (auto simp: reached_def)
  define fp tp where paths: "fp = join ''/'' (fs @ [from_name])" "tp = join ''/'' (ts @ [to_name])"
  have cp: "child_path nf f from_name = Some fp" "child_path nf t to_name = Some tp"
    using child_path_walk [OF wf fs] child_path_walk [OF wf ts] by (simp_all add: paths)
  obtain w1 u where w1: "on_vfs (sv_env sv) (\<lambda>rv. vfs_rename rv f from_name t to_name) (nf_world nf) = (w1, Inr u)"
    and nf': "nf' = log_to_wal sv now (Wal_Rename fp tp) (record_mutation now tp (record_mutation now fp (nf\<lparr>nf_world := w1\<rparr>)))"
    using run cp by (auto simp: nfs_rename_def names [symmetric] Let_def fuel_then_Inr on_world_Inr)
  have par: "on_vfs (sv_env sv) (\<lambda>rv. ensure_parent_dirs rv fp) (nf_world nf) = (nf_world nf, Inr (f, from_name))"
    "on_vfs (sv_env sv) (\<lambda>rv. ensure_parent_dirs rv tp) (nf_world nf) = (nf_world nf, Inr (t, to_name))"
    using replay_parent [OF fs] replay_parent [OF ts] nm by (simp_all add: names paths)
  show ?thesis using w1 par
    by (intro exI [of _ "Wal_Rename fp tp"])
      (simp add: replayed_by_def replay_rename_def nf' log_to_wal_def record_mutation_def)
qed

lemma op_replayed:
  assumes "vfs_wf (wd_vfs (nf_world nf))" "op_addressed (wd_vfs (nf_world nf)) op" "nfs_do sv now op nf = Some (nf', Inr ())"
  shows "\<exists>p. replayed_by sv now p nf nf'"
proof (cases op)
  case (Op_Write i off d)
  then obtain a where "nfs_write sv now i off d nf = Some (nf', Inr a)" using assms(3) by (auto simp: reply_Some)
  then show ?thesis using write_replayed assms(1,2) Op_Write by auto
next
  case (Op_Truncate i n)
  then obtain a where "nfs_setattr sv now i (Some n) nf = Some (nf', Inr a)" using assms(3) by (auto simp: reply_Some)
  then show ?thesis using truncate_replayed assms(1,2) Op_Truncate by auto
next
  case (Op_Create d nm)
  then obtain a where "nfs_create sv now d nm nf = Some (nf', Inr a)" using assms(3) by (auto simp: reply_Some)
  then show ?thesis using create_replayed [OF assms(1)] assms(2) Op_Create by (cases a) auto
next
  case (Op_Mkdir d nm)
  then obtain a where "nfs_mkdir sv now d nm nf = Some (nf', Inr a)" using assms(3) by (auto simp: reply_Some)
  then show ?thesis using mkdir_replayed [OF assms(1)] assms(2) Op_Mkdir by (cases a) auto
next
  case (Op_Remove d nm)
  show ?thesis by (rule remove_replayed [OF assms(1), of d nm]) (use assms(2,3) Op_Remove in simp_all)
next
  case (Op_Rename f fn t tn)
  show ?thesis by (rule rename_replayed [OF assms(1), of f t fn tn]) (use assms(2,3) Op_Rename in simp_all)
qed

section \<open>Sessions\<close>

fun nfs_session ::
  "('c, 'b, 'g, 'v, 's, 'w) server \<Rightarrow> (nat \<times> nfs_op) list \<Rightarrow> ('c, 'b, 'g, 's, 'w) nfs \<Rightarrow>
   (('c, 'b, 'g, 's, 'w) nfs \<times> unit result) option" where
  "nfs_session sv [] nf = Some (nf, Inr ())"
| "nfs_session sv ((now, op) # ops) nf = fuel_then (nfs_do sv now op nf) (\<lambda>nf _. nfs_session sv ops nf)"

fun session_addressed ::
  "('c, 'b, 'g, 'v, 's, 'w) server \<Rightarrow> (nat \<times> nfs_op) list \<Rightarrow> ('c, 'b, 'g, 's, 'w) nfs \<Rightarrow> bool" where
  "session_addressed sv [] nf = True"
| "session_addressed sv ((now, op) # ops) nf \<longleftrightarrow>
     op_addressed (wd_vfs (nf_world nf)) op \<and>
     (case nfs_do sv now op nf of Some (nf', _) \<Rightarrow> session_addressed sv ops nf' | None \<Rightarrow> True)"

text \<open>What the ignored results of logging leave in the manager.\<close>

fun log_all :: "('s, 'w) wal_ops \<Rightarrow> (nat \<times> wal_payload) list \<Rightarrow> ('s, 'w) wal_manager \<Rightarrow> ('s, 'w) wal_manager" where
  "log_all B [] m = m"
| "log_all B ((now, p) # ps) m = log_all B ps (fst (log_mutation B now p m))"

lemma session_replayed:
  assumes "vfs_wf (wd_vfs (nf_world nf))" "session_addressed sv ops nf" "nfs_session sv ops nf = Some (nf', Inr ())"
  shows "\<exists>ps. map fst ps = map fst ops \<and> (\<forall>h. Wal_Header h \<notin> snd ` set ps) \<and> nf_wal nf' = map_option (log_all (sv_wal sv) ps) (nf_wal nf) \<and>
    (\<forall>k. replay_wal_entries (sv_env sv) (sv_io sv) (numbered_entries k ps) (nf_world nf) = Some (nf_world nf', Inr ()))"
  using assms
proof (induction ops arbitrary: nf)
  case Nil
  then show ?case by (intro exI [of _ "[]"]) (simp add: option.map_ident)
next
  case (Cons o1 ops)
  obtain now op where o1: "o1 = (now, op)" by fastforce
  obtain nf1 where run: "nfs_do sv now op nf = Some (nf1, Inr ())" "nfs_session sv ops nf1 = Some (nf', Inr ())"
    using Cons.prems(3) by (auto simp: o1 fuel_then_Inr)
  obtain p where p: "replayed_by sv now p nf nf1"
    using op_replayed [OF Cons.prems(1) _ run(1)] Cons.prems(2) by (auto simp: o1)
  have "vfs_wf (wd_vfs (nf_world nf1))"
    using wf_replay.payload_keeps [OF Cons.prems(1)] p by (auto simp: replayed_by_def)
  moreover have "session_addressed sv ops nf1" using Cons.prems(2) run(1) by (simp add: o1)
  ultimately obtain ps where ps: "map fst ps = map fst ops" "\<forall>h. Wal_Header h \<notin> snd ` set ps"
    "nf_wal nf' = map_option (log_all (sv_wal sv) ps) (nf_wal nf1)"
    "\<And>k. replay_wal_entries (sv_env sv) (sv_io sv) (numbered_entries k ps) (nf_world nf1) = Some (nf_world nf', Inr ())"
    using Cons.IH run(2) by blast
  then show ?case using p
    by (intro exI [of _ "(now, p) # ps"]) (simp add: o1 replayed_by_def option.map_comp comp_def)
qed

text \<open>A local log whose file takes every append.\<close>

lemma local_never_fails:
  assumes "\<And>p. os_ok os (Fs_Append p)" "\<And>p. os_ok os (Fs_Sync p)"
  shows "log_mutations (local_wal_ops os C) ps m = (log_all (local_wal_ops os C) ps m, Inr ())"
proof (induction ps arbitrary: m)
  case (Cons p ps)
  obtain now payload where p: "p = (now, payload)" by fastforce
  obtain m1 where "log_mutation (local_wal_ops os C) now payload m = (m1, Inr ())"
    using assms by (cases "wm_writer m")
      (auto simp: log_mutation_def append_durably_def on_store_def local_wal_ops_def local_append_def local_flush_def fs_append_def Let_def)
  then show ?case using Cons by (simp add: p)
qed simp

text \<open>The entries that a session leaves in its log.\<close>

definition session_entries :: "nat \<Rightarrow> string \<Rightarrow> string \<Rightarrow> string \<Rightarrow> string \<Rightarrow> ('s, 'w) wal_manager \<Rightarrow>
    (nat \<times> wal_payload) list \<Rightarrow> wal_entry list" where
  "session_entries now url base author msg m0 ps = numbered_entries (wm_entry_seq m0)
     ((now, Wal_Header (session_header now url base author msg (wm_active_seq m0))) # ps)"

lemma session_log:
  assumes "sv_wal sv = local_wal_ops os C" "\<And>p. os_ok os (Fs_Append p)" "\<And>p. os_ok os (Fs_Sync p)"
    "local_logs (wm_store m0) (wm_active_seq m0) = None"
    "start_active_wal (sv_wal sv) now url base author msg m0 = (m, Inr ())" "nf_wal nf = Some m"
    "vfs_wf (wd_vfs (nf_world nf))" "session_addressed sv ops nf" "nfs_session sv ops nf = Some (nf', Inr ())"
  shows "\<exists>m' ps. nf_wal nf' = Some m' \<and> length ps = length ops \<and> (\<forall>h. Wal_Header h \<notin> snd ` set ps) \<and>
    local_logs (wm_store m') (wm_active_seq m0) = Some (log_bytes C (session_entries now url base author msg m0 ps)) \<and>
    replay_wal_entries (sv_env sv) (sv_io sv) (session_entries now url base author msg m0 ps) (nf_world nf) =
      Some (nf_world nf', Inr ())"
proof -
  obtain ps where ps: "map fst ps = map fst ops" "\<forall>h. Wal_Header h \<notin> snd ` set ps"
    "nf_wal nf' = map_option (log_all (sv_wal sv) ps) (nf_wal nf)"
    "\<And>k. replay_wal_entries (sv_env sv) (sv_io sv) (numbered_entries k ps) (nf_world nf) = Some (nf_world nf', Inr ())"
    using session_replayed [OF assms(7-9)] by blast
  have "and_then (start_active_wal (local_wal_ops os C) now url base author msg m0)
      (\<lambda>m _. log_mutations (local_wal_ops os C) ps m) = (log_all (local_wal_ops os C) ps m, Inr ())"
    using assms(1,5) local_never_fails [OF assms(2,3)] by simp
  from local_log.session_logged [OF assms(4) this]
  have "local_logs (wm_store (log_all (local_wal_ops os C) ps m)) (wm_active_seq m0) =
      Some (log_bytes C (session_entries now url base author msg m0 ps))"
    by (simp add: session_entries_def)
  moreover have "length ps = length ops" using ps(1) by (metis length_map)
  moreover have "replay_wal_entries (sv_env sv) (sv_io sv) (session_entries now url base author msg m0 ps) (nf_world nf) =
      Some (nf_world nf', Inr ())"
    using ps(4) by (simp add: session_entries_def)
  ultimately show ?thesis using ps(2,3) assms(1,6) by (intro exI [of _ "log_all (local_wal_ops os C) ps m"] exI [of _ ps]) simp
qed

lemma length_session_entries: "length (session_entries now url base author msg m0 ps) = Suc (length ps)"
proof -
  have "length (numbered_entries j ps) = length ps" for j
    by (induction ps arbitrary: j) auto
  then show ?thesis by (simp add: session_entries_def)
qed

text \<open>
  C2: nothing acknowledged is lost in a crash: after a session of NFS mutations that all succeeded,
  with the log in a local directory, whatever record was being appended when the server died, the
  log decodes to entries whose replay on the state at the start of the session returns exactly the
  state at its end: the same inode table, staged contents, changed paths and caches. Every append and sync
  of the log succeeds, and the operations address nodes that a walk by names from the root reaches.
\<close>

theorem session_recovered:
  assumes "codec_laws C" "sv_wal sv = local_wal_ops os C" "\<And>p. os_ok os (Fs_Append p)" "\<And>p. os_ok os (Fs_Sync p)"
    "local_logs (wm_store m0) (wm_active_seq m0) = None"
    "start_active_wal (sv_wal sv) now url base author msg m0 = (m, Inr ())" "nf_wal nf = Some m"
    "vfs_wf (wd_vfs (nf_world nf))" "session_addressed sv ops nf" "nfs_session sv ops nf = Some (nf', Inr ())"
  shows "\<exists>m' d es. nf_wal nf' = Some m' \<and> local_logs (wm_store m') (wm_active_seq m0) = Some d \<and>
    length es = Suc (length ops) \<and>
    replay_wal_entries (sv_env sv) (sv_io sv) es (nf_world nf) = Some (nf_world nf', Inr ()) \<and>
    (\<forall>e k. list_all (small_entry C) (e # es) \<longrightarrow> k < length (encode_framed C e) \<longrightarrow>
       decode_all_framed C (d @ take k (encode_framed C e)) = (es, length d))"
proof -
  obtain m' ps where ps: "nf_wal nf' = Some m'" "length ps = length ops"
    "local_logs (wm_store m') (wm_active_seq m0) = Some (log_bytes C (session_entries now url base author msg m0 ps))"
    "replay_wal_entries (sv_env sv) (sv_io sv) (session_entries now url base author msg m0 ps) (nf_world nf) = Some (nf_world nf', Inr ())"
    using session_log [OF assms(2-10)] by blast
  have "decode_all_framed C (log_bytes C es @ take k (encode_framed C e)) = (es, length (log_bytes C es))"
    if "list_all (small_entry C) (e # es)" "k < length (encode_framed C e)" for e es k
    using decode_crashed_log [OF assms(1), of es e k] that by (simp add: log_bytes_def)
  then show ?thesis using ps by (metis length_session_entries)
qed

section \<open>Witnesses\<close>

text \<open>A server on an empty repository whose session creates the file \<open>a\<close> and writes one byte to it.\<close>

definition demo_server where
  "demo_server = \<lparr>sv_env = demo_env os_fine, sv_wal = local_wal_ops os_fine demo_codec, sv_io = all_ok\<rparr>"

definition demo_world where
  "demo_world = \<lparr>wd_vfs = vfs_new [], wd_staging = demo_staging, wd_engine = demo_engine []\<rparr>"

definition demo_ops :: "(nat \<times> nfs_op) list" where
  "demo_ops = [(0, Op_Create 1 (str_bytes ''a'')), (0, Op_Write 2 0 [7])]"

definition demo_manager_started :: "(local_wal, path) wal_manager" where
  "demo_manager_started = fst (start_active_wal (local_wal_ops os_fine demo_codec) 0 ''u'' ''b'' ''a'' [] demo_manager)"

definition demo_nfs where
  "demo_nfs = nfs_new 0 0 0 demo_world (Some demo_manager_started)"

lemma demo_start:
  "start_active_wal (local_wal_ops os_fine demo_codec) 0 ''u'' ''b'' ''a'' [] demo_manager = (demo_manager_started, Inr ())"
  by (simp add: demo_manager_started_def start_active_wal_def on_store_def local_wal_ops_def local_open_def os_fine_def
      fs_is_file_def append_durably_def local_append_def fs_append_def local_flush_def demo_manager_def wal_manager_new_def Let_def)

lemma demo_lossy: "from_utf8_lossy (str_bytes ''a'') = ''a''"
  by (rule from_utf8_lossy_str, rule utf8_valid_str_ascii) simp

lemma demo_creates:
  "rv_tree rv [] = None \<Longrightarrow> vfs_create_file rv 1 ''a'' RegularFile (vfs_new []) = (demo_vfs, Inr demo_node)"
  by (simp add: demo_vfs_def demo_node_def vfs_eval Let_def)

lemma demo_view_tree: "rv_tree (engine_view ev (demo_engine [])) oid = None"
  by (simp add: engine_view_def get_tree_def demo_engine_def fresh_engine_def)

definition demo_created where
  "demo_created = log_path demo_server 0 ''a'' (Wal_Create_File ''a'' 0 33188)
     (demo_nfs\<lparr>nf_world := demo_world\<lparr>wd_vfs := demo_vfs, wd_staging := demo_staging\<lparr>sg_files := [(2, [])], sg_staged := [(2, 0)]\<rparr>\<rparr>\<rparr>)"

lemma demo_do_create: "\<exists>a. nfs_create demo_server 0 1 (str_bytes ''a'') demo_nfs = Some (demo_created, Inr a)"
proof -
  let ?w = "demo_world\<lparr>wd_vfs := demo_vfs\<rparr>"
  have v: "on_vfs (sv_env demo_server) (\<lambda>rv. vfs_create_file rv 1 ''a'' RegularFile) (nf_world demo_nfs) = (?w, Inr demo_node)"
    by (simp only: on_vfs_def demo_nfs_def nfs_new_def demo_world_def nfs.simps world.simps demo_creates [OF demo_view_tree] prod.case)
  have st: "on_staging (staging_create_file (sv_io demo_server) 2) ?w =
      (?w\<lparr>wd_staging := demo_staging\<lparr>sg_files := [(2, [])], sg_staged := [(2, 0)]\<rparr>\<rparr>, Inr ())"
    by (simp add: on_staging_def staging_create_file_def demo_server_def demo_world_def demo_staging_def)
  have "create_node demo_server 0 1 (str_bytes ''a'') demo_nfs = Some (demo_created, Inr demo_node)"
    unfolding create_node_def demo_lossy Let_def on_world_def v
    by (simp add: demo_node_def st child_path_def get_path_def root_inode_def demo_created_def Let_def)
  then show ?thesis by (simp add: nfs_create_def)
qed

lemma demo_created_vfs: "wd_vfs (nf_world demo_created) = demo_vfs"
  by (simp add: demo_created_def)

lemma demo_reached: "reached demo_vfs 2"
  using demo_dir_map(1) by (intro exI [of _ "[''a'']"] reached_def [THEN iffD2]) (simp add: root_inode_def name_ok_def del: One_nat_def)

lemma demo_clean: "clean_path ''a'' = ''a''"
  by code_simp

lemma demo_do_write: "\<exists>nf a. nfs_write demo_server 0 2 0 [7] demo_created = Some (nf, Inr a) \<and>
  nf_world nf = \<lparr>wd_vfs = update_file_size 2 1 demo_vfs, wd_staging = \<lparr>sg_files = [(2, [7])], sg_staged = [(2, 1)],
    sg_deleted = [], sg_changed = [''a'']\<rparr>, wd_engine = demo_engine []\<rparr> \<and>
  nf_wal nf = Some (log_all (local_wal_ops os_fine demo_codec)
    [(0, Wal_Create_File ''a'' 0 33188), (0, Wal_Write ''a'' 0 [7])] demo_manager_started)"
proof -
  have n: "get_node demo_vfs 2 = Some demo_node"
    by (simp add: demo_vfs_def demo_node_def vfs_eval get_node_def Let_def)
  have p: "get_path (update_file_size 2 k demo_vfs) 2 = Some (Inr (join ''/'' [''a'']))" for k
    by (rule size_path [OF demo_vfs_wf(1)]) (simp add: root_inode_def demo_dir_map del: One_nat_def)
  show ?thesis
    by (simp add: nfs_write_def live_node_def n demo_created_vfs) (simp add: demo_created_def p
        record_changed_path_def is_deleted_def demo_world_def demo_staging_def demo_node_def write_node_def on_world_fuel_def base_data_def
        is_staged_def on_staging_def staging_write_at_def demo_server_def log_node_def Let_def overlay_def trim_char_def
        trim_start_char_def trim_end_char_def resized_def demo_nfs_def nfs_new_def changed_def demo_clean)
qed

theorem session_recovered_witness:
  "\<exists>nf' m' d es. nfs_session demo_server demo_ops demo_nfs = Some (nf', Inr ()) \<and>
     nf_wal nf' = Some m' \<and> local_logs (wm_store m') 0 = Some d \<and> length es = 3 \<and>
     replay_wal_entries (demo_env os_fine) all_ok es demo_world = Some (nf_world nf', Inr ())"
proof -
  obtain nf' a b where w: "nfs_write demo_server 0 2 0 [7] demo_created = Some (nf', Inr a)"
    and c: "nfs_create demo_server 0 1 (str_bytes ''a'') demo_nfs = Some (demo_created, Inr b)"
    using demo_do_write demo_do_create by blast
  have run: "nfs_session demo_server demo_ops demo_nfs = Some (nf', Inr ())"
    using w c by (simp add: demo_ops_def reply_def)
  have w0: "wd_vfs (nf_world demo_nfs) = vfs_new []" "nf_world demo_nfs = demo_world" by (simp_all add: demo_nfs_def nfs_new_def demo_world_def)
  have adr: "session_addressed demo_server demo_ops demo_nfs"
    using w c demo_reached
    by (auto simp: demo_ops_def reply_def w0 demo_created_vfs demo_lossy reached_def name_ok_def root_inode_def intro!: exI [of _ "[]"])
  have "local_logs (wm_store demo_manager) (wm_active_seq demo_manager) = None"
    by (simp add: demo_manager_def wal_manager_new_def local_logs_def)
  from session_recovered [OF demo_codec_laws _ _ _ this _ _ _ adr run, of os_fine 0 "''u''" "''b''" "''a''" "[]" demo_manager_started]
  obtain m' d es where "nf_wal nf' = Some m'" "local_logs (wm_store m') (wm_active_seq demo_manager) = Some d"
    "length es = Suc (length demo_ops)"
    "replay_wal_entries (sv_env demo_server) (sv_io demo_server) es (nf_world demo_nfs) = Some (nf_world nf', Inr ())"
    using demo_start vfs_new_wf(1) w0 by (auto simp: demo_server_def demo_nfs_def nfs_new_def os_fine_def)
  then show ?thesis using run
    by (intro exI [of _ nf'] exI [of _ m'] exI [of _ d] exI [of _ es])
      (simp add: w0 demo_server_def demo_manager_def wal_manager_new_def demo_ops_def)
qed

end
