(* ===== verification/Nfs_Spec.thy ===== *)
theory Nfs_Spec
  imports Nfs_Session
begin

text \<open>
  What the NFS handlers promise their clients: reads return what was written, and the pages of a
  listing make up the directory.
\<close>

section \<open>Reading back\<close>

lemma changed_fields [simp]:
  "sg_files (record_changed_path p s) = sg_files s" "sg_staged (record_changed_path p s) = sg_staged s"
  "sg_deleted (record_changed_path p s) = sg_deleted s"
  by (simp_all add: record_changed_path_def Let_def)

lemma staging_read_changed: "staging_read_at io i off n (record_changed_path p s) = staging_read_at io i off n s"
  by (simp add: staging_read_at_def is_staged_def)

lemma get_size_changed [simp]: "get_size (record_changed_path p s) i = get_size s i"
  by (simp add: get_size_def)

lemma is_deleted_changed [simp]: "is_deleted (record_changed_path p s) i = is_deleted s i"
  by (simp add: is_deleted_def)

lemma staging_deleted:
  "sg_deleted (fst (staging_write_at io i off d base s)) = sg_deleted s"
  by (auto simp: staging_write_at_def ensure_file_def Let_def and_then_def split: option.split prod.split sum.split)

lemma base_data_staging: "base_data ev i oid w = Some (w', r) \<Longrightarrow> wd_staging w' = wd_staging w"
  by (auto simp: base_data_def split: if_splits)

lemma write_node_run:
  assumes "write_node ev io i oid off d w = Some (w', Inr ())"
  obtains base n s where "staging_write_at io i off d base (wd_staging w) = (s, Inr n)" "wd_staging w' = s"
    "wd_vfs w' = update_file_size i n (wd_vfs w)" "sg_deleted s = sg_deleted (wd_staging w)"
proof -
  obtain w1 base where b: "base_data ev i oid w = Some (w1, Inr base)"
    and st: "and_then (on_staging (staging_write_at io i off d base) w1) (\<lambda>w n. (resized i n w, Inr ())) = (w', Inr ())"
    using assms by (auto simp: write_node_def fuel_then_Inr)
  obtain s r where s: "staging_write_at io i off d base (wd_staging w) = (s, r)" by fastforce
  then obtain n where "r = Inr n" using st base_data_staging [OF b] by (cases r) (auto simp: on_staging_def)
  then show thesis
    using that [of base s n] st s staging_deleted [of io i off d base "wd_staging w"]
      base_data_staging [OF b] wf_replay.base_data_vfs [OF b] by (auto simp: on_staging_def)
qed

lemma log_node_keeps:
  assumes "log_node sv now i p nf = Some nf'"
  obtains path where "nf_world nf' = changed path (nf_world nf)" | "nf' = nf"
proof -
  obtain r :: "string result" where r: "(case r of Inr path \<Rightarrow> log_path sv now path (p path) nf | Inl _ \<Rightarrow> nf) = nf'"
    using assms unfolding log_node_def map_option_eq_Some by blast
  show thesis
  proof (cases r)
    case (Inr q)
    then have "nf_world nf' = changed q (nf_world nf)" using r by auto
    then show thesis by (rule that(1))
  qed (use r that(2) in simp)
qed

lemma live_sized: "get_node v i = Some n \<Longrightarrow> \<exists>m. get_node (update_file_size i k v) i = Some m \<and> vn_is_dir m = vn_is_dir n"
  by (auto simp: get_node_def update_file_size_def get_node_update split: option.splits if_splits)

text \<open>
  C4: a client reads back what it wrote: after a successful WRITE of at least one byte, a READ of the
  same range returns exactly these bytes, with the end-of-file flag exactly when the size in the reply
  of the WRITE ends there, and what is staged for other files is not touched.
\<close>

theorem nfs_read_after_write:
  assumes "vfs_wf (wd_vfs (nf_world nf))" "nfs_write sv now i off d nf = Some (nf', Inr a)" "d \<noteq> []"
    "io_ok (sv_io sv') (Io_Open i)" "io_ok (sv_io sv') (Io_Stat i)" "io_ok (sv_io sv') (Io_Seek i)" "io_ok (sv_io sv') (Io_Read i)"
  shows "nfs_read sv' i off (length d) nf' = Some (nf', Inr (d, off + length d \<ge> fa_size a)) \<and>
    fa_fileid a = i \<and>
    (\<forall>j off' n. j \<noteq> i \<longrightarrow> staging_read_at (sv_io sv') j off' n (wd_staging (nf_world nf')) =
       staging_read_at (sv_io sv') j off' n (wd_staging (nf_world nf)))"
proof -
  obtain node where node: "get_node (wd_vfs (nf_world nf)) i = Some node" "\<not> is_deleted (wd_staging (nf_world nf)) i"
    "\<not> vn_is_dir node"
    using assms(2) by (auto simp: nfs_write_def live_node_def split: if_splits option.splits)
  obtain w1 where w1: "write_node (sv_env sv) (sv_io sv) i (vn_oid node) off d (nf_world nf) = Some (w1, Inr ())"
    and l: "log_node sv now i (\<lambda>path. Wal_Write path off d) (nf\<lparr>nf_world := w1\<rparr>) = Some nf'"
    and a: "a = node_to_fattr3 sv nf' node"
    using assms(2) node by (auto simp: nfs_write_def live_node_def on_world_fuel_def fuel_then_Inr)
  obtain base n s where s: "staging_write_at (sv_io sv) i off d base (wd_staging (nf_world nf)) = (s, Inr n)" "wd_staging w1 = s"
    "wd_vfs w1 = update_file_size i n (wd_vfs (nf_world nf))" "sg_deleted s = sg_deleted (wd_staging (nf_world nf))"
    by (rule write_node_run [OF w1])
  obtain path where st: "wd_staging (nf_world nf') = record_changed_path path s \<or> wd_staging (nf_world nf') = s"
    and v: "wd_vfs (nf_world nf') = wd_vfs w1"
    using log_node_keeps [OF l] s(2) by (metis nfs.select_convs(1) nfs.simps(10) nfs.surjective nfs.update_convs(1) world_fields(1,3))
  note rd = staging_write_read [OF s(1) assms(3-7)]
  have r: "staging_read_at (sv_io sv') j o' k (wd_staging (nf_world nf')) = staging_read_at (sv_io sv') j o' k s" for j o' k
    using st by (auto simp: staging_read_changed)
  have sz: "get_size (wd_staging (nf_world nf')) i = Some n" using rd st by auto
  have id: "vn_id node = i" using node(1) wf_node [OF assms(1)] by (auto simp: get_node_def split: option.splits if_splits)
  obtain m where m: "get_node (wd_vfs (nf_world nf')) i = Some m" "\<not> vn_is_dir m"
    using live_sized [OF node(1), of n] node(3) s(3) v by auto
  have "vn_id (node_now nf' node) = i"
    using id wf_node [OF size_wf [THEN conjunct1], OF assms(1)] m(1) v s(3)
    by (auto simp: node_now_def get_node_def split: option.splits if_splits)
  then have fa: "fa_size a = n" "fa_fileid a = i" using sz by (simp_all add: a node_to_fattr3_def Let_def node_size_def)
  have "\<not> is_deleted (wd_staging (nf_world nf')) i"
    using st node(2) s(4) by (auto simp: is_deleted_def)
  then have "nfs_read sv' i off (length d) nf' = Some (nf', Inr (d, off + length d \<ge> n))"
    using m r rd by (simp add: nfs_read_def live_node_def)
  then show ?thesis using fa r rd by simp
qed

section \<open>Listing a directory page by page\<close>

text \<open>A client that asks for page after page, each from the last entry of the page before.\<close>

fun read_all ::
  "('c, 'b, 'g, 'v, 's, 'w) server \<Rightarrow> nat \<Rightarrow> nat \<Rightarrow> nat \<Rightarrow> nat \<Rightarrow> ('c, 'b, 'g, 's, 'w) nfs \<Rightarrow> dir_entry list option" where
  "read_all sv dirid max_entries 0 start nf = None"
| "read_all sv dirid max_entries (Suc n) start nf =
     (case nfs_readdir sv dirid start max_entries nf of
        (nf, Inr (page, fin)) \<Rightarrow>
          (if fin then Some page
           else if page = [] then None
           else map_option (\<lambda>rest. page @ rest) (read_all sv dirid max_entries n (de_fileid (last page)) nf))
      | (nf, Inl _) \<Rightarrow> None)"

lemma position_nth: "distinct (map f xs) \<Longrightarrow> k < length xs \<Longrightarrow> position (\<lambda>x. f x = f (xs ! k)) xs = Some k"
proof (induction xs arbitrary: k)
  case (Cons x xs)
  then show ?case by (cases k) auto
qed simp

lemma page_step:
  assumes dist: "distinct (map de_fileid es)" and nz: "\<And>e. e \<in> set es \<Longrightarrow> de_fileid e \<noteq> 0" and k: "k \<le> length es"
    and start: "start = (if k = 0 then 0 else de_fileid (es ! (k - 1)))"
  shows "dir_page start mx es = (slice k (k + mx) es, k + mx \<ge> length es)"
proof -
  have "page_start start es = k"
  proof (cases "k = 0")
    case False
    then have "position (\<lambda>e. de_fileid e = start) es = Some (k - 1)" using position_nth [OF dist, of "k - 1"] k start by simp
    then show ?thesis using False start nz [of "es ! (k - 1)"] k by (simp add: page_start_def)
  qed (simp add: start page_start_def)
  then show ?thesis by (auto simp: dir_page_def Let_def slice_def min_def)
qed

lemma slice_last: "0 < mx \<Longrightarrow> k + mx < length es \<Longrightarrow> slice k (k + mx) es \<noteq> [] \<and> last (slice k (k + mx) es) = es ! (k + mx - 1)"
  by (simp add: slice_def last_conv_nth)

lemma read_all_pages:
  assumes stable: "\<And>start. nfs_readdir sv dirid start mx nf = (nf, Inr (dir_page start mx es))"
    and dist: "distinct (map de_fileid es)" and nz: "\<And>e. e \<in> set es \<Longrightarrow> de_fileid e \<noteq> 0" and mx: "0 < mx"
  shows "k \<le> length es \<Longrightarrow> start = (if k = 0 then 0 else de_fileid (es ! (k - 1))) \<Longrightarrow> length es - k < n \<Longrightarrow>
    read_all sv dirid mx n start nf = Some (drop k es)"
proof (induction n arbitrary: k start)
  case (Suc n)
  note page = page_step [OF dist nz Suc.prems(1,2)]
  show ?case
  proof (cases "k + mx \<ge> length es")
    case True
    then show ?thesis by (simp add: stable page slice_def)
  next
    case False
    note last = slice_last [OF mx, of k es]
    have "read_all sv dirid mx n (de_fileid (es ! (k + mx - 1))) nf = Some (drop (k + mx) es)"
      using Suc.prems(3) mx False by (intro Suc.IH) simp_all
    moreover have "slice k (k + mx) es @ drop (k + mx) es = drop k es"
      by (metis add_diff_cancel_left' append_take_drop_id drop_drop add.commute slice_def)
    ultimately show ?thesis using last False by (simp add: stable page)
  qed
qed simp

text \<open>A node reached by names is neither its parent nor the parent of its parent.\<close>

lemma reached_parent:
  assumes wf: "vfs_wf v" and i: "reached v i" "i \<noteq> root_inode" and n: "hm_get (vs_nodes v) i = Some n"
  obtains m where "hm_get (vs_nodes v) (vn_parent n) = Some m" "vn_parent n \<noteq> i" "vn_parent m \<noteq> i"
proof -
  obtain nms where nms: "walk v root_inode nms = Some i" using i(1) by (auto simp: reached_def)
  then have "nms \<noteq> []" using i(2) by auto
  then obtain ms nm where ms: "nms = ms @ [nm]" by (metis rev_exhaust)
  then obtain c where c: "walk v root_inode ms = Some c" "dir_map v (c, nm) = Some i"
    using nms by (auto simp: walk_snoc split: option.splits)
  have par: "vn_parent n = c" using dir_map_node [OF wf c(2)] n by (metis option.inject)
  obtain r where r: "hm_get (vs_nodes v) root_inode = Some r" "vn_parent r = root_inode"
    using wf by (auto simp: vfs_wf_def nodes_wf_def)
  obtain m where m: "hm_get (vs_nodes v) c = Some m"
  proof (cases ms rule: rev_cases)
    case Nil
    then show thesis using c(1) r(1) that by simp
  next
    case (snoc ks k)
    then obtain b where "dir_map v (b, k) = Some c" using c(1) by (auto simp: walk_snoc split: option.splits)
    then show thesis using dir_map_node [OF wf] that by metis
  qed
  have loop: "path_loop v i acc = Some (Inr (acc @ rev nms))" for acc using path_loop_walk [OF wf nms] .
  have ne: "c \<noteq> i"
  proof
    assume "c = i"
    then have "length (rev nms) = length [vn_name n]"
      using loop [of "[]"] i(2) n par by (auto simp: path_loop.simps [of v i])
    then show False using ms c(1) \<open>c = i\<close> i(2) by simp
  qed
  have "vn_parent m \<noteq> i"
  proof
    assume p: "vn_parent m = i"
    then have "c \<noteq> root_inode" using m r i(2) by auto
    then have "path_loop v i [] = path_loop v i [vn_name n, vn_name m]"
      using i(2) n par m p ne by (simp add: path_loop.simps [of v i "[]"] path_loop.simps [of v c])
    then have "length (rev nms) = length ([vn_name n, vn_name m] @ rev nms)" by (simp only: loop) simp
    then show False by simp
  qed
  then show thesis using that par m ne by blast
qed

lemma live_ids:
  "vfs_wf v \<Longrightarrow> distinct ids \<Longrightarrow> distinct (map vn_id (live_nodes v ids)) \<and> vn_id ` set (live_nodes v ids) \<subseteq> set ids \<and>
   (\<forall>n \<in> set (live_nodes v ids). hm_get (vs_nodes v) (vn_id n) = Some n)"
proof (induction ids)
  case (Cons i ids)
  have "live_nodes v (i # ids) = (case hm_get (vs_nodes v) i of None \<Rightarrow> [] | Some n \<Rightarrow> if vn_deleted n then [] else [n]) @ live_nodes v ids"
    by (simp add: live_nodes_def)
  then show ?case using Cons wf_node [OF Cons.prems(1), of i] by (auto split: option.splits)
qed (simp add: live_nodes_def)

lemma readdir_stable:
  assumes "get_node (wd_vfs (nf_world nf)) d = Some n" "vn_is_dir n" "hm_get (vs_dirs (wd_vfs (nf_world nf))) d = Some ids"
  shows "nfs_readdir sv d start mx nf =
    (nf, Inr (dir_page start mx (dir_entries sv nf n (live_nodes (wd_vfs (nf_world nf)) ids))))"
  using assms by (simp add: nfs_readdir_def on_world_def on_vfs_def list_dir_def ensure_present)

lemma entry_ids:
  assumes wf: "vfs_wf (wd_vfs (nf_world nf))" and n: "hm_get (vs_nodes (wd_vfs (nf_world nf))) d = Some n"
  shows "map de_fileid (dir_entries sv nf n ns) =
    d # vn_parent n # map vn_id (filter (\<lambda>c. \<not> is_deleted (wd_staging (nf_world nf)) (vn_id c)) ns)"
    "map de_name (dir_entries sv nf n ns) = str_bytes ''.'' # str_bytes ''..'' #
      map (\<lambda>c. str_bytes (vn_name c)) (filter (\<lambda>c. \<not> is_deleted (wd_staging (nf_world nf)) (vn_id c)) ns)"
  using wf_node [OF wf n] n by (simp_all add: dir_entries_def node_now_def Let_def)

text \<open>
  C12: paging loses and repeats nothing: for a directory below the root that was populated before, a client that fetches page
  after page, of any size, gets exactly the special entries and the children that are not deleted, each
  once and in the order of the table, within as many requests as there are entries; no page is longer
  than asked.
\<close>

theorem readdir_pages_complete:
  assumes "vfs_wf (wd_vfs (nf_world nf))" "reached (wd_vfs (nf_world nf)) d" "d \<noteq> root_inode"
    "get_node (wd_vfs (nf_world nf)) d = Some n" "vn_is_dir n"
    "hm_get (vs_dirs (wd_vfs (nf_world nf))) d = Some ids" "hm_get (vs_nodes (wd_vfs (nf_world nf))) 0 = None" "0 < mx"
  shows "(\<exists>es. read_all sv d mx (Suc (length es)) 0 nf = Some es \<and>
      map de_fileid es = d # vn_parent n # map vn_id (filter (\<lambda>c. \<not> is_deleted (wd_staging (nf_world nf)) (vn_id c))
        (live_nodes (wd_vfs (nf_world nf)) ids)) \<and> distinct (map de_fileid es)) \<and>
    (\<forall>start page fin. nfs_readdir sv d start mx nf = (nf, Inr (page, fin)) \<longrightarrow> length page \<le> mx)"
proof -
  let ?v = "wd_vfs (nf_world nf)"
  define es where "es = dir_entries sv nf n (live_nodes ?v ids)"
  have n: "hm_get (vs_nodes ?v) d = Some n" using assms(4) by (auto simp: get_node_def split: option.splits if_splits)
  obtain m where m: "hm_get (vs_nodes ?v) (vn_parent n) = Some m" "vn_parent n \<noteq> d" "vn_parent m \<noteq> d"
    by (rule reached_parent [OF assms(1-3) n])
  note ids = entry_ids(1) [OF assms(1) n, of sv "live_nodes ?v ids", folded es_def]
  note dir = wf_dir [OF assms(1,6)]
  note live = live_ids [OF assms(1) dir(1)]
  have kid: "vn_id c \<noteq> d \<and> vn_id c \<noteq> vn_parent n \<and> vn_id c \<noteq> 0" if c: "c \<in> set (live_nodes ?v ids)" for c
  proof -
    have "vn_id c \<in> set ids" "hm_get (vs_nodes ?v) (vn_id c) = Some c" using live c by auto
    then have "vn_parent c = d" using dir(3) by force
    moreover have "vn_id c \<noteq> d" using n m(2) \<open>vn_parent c = d\<close> \<open>hm_get (vs_nodes ?v) (vn_id c) = Some c\<close> by auto
    moreover have "vn_id c \<noteq> vn_parent n" using m(1,3) \<open>vn_parent c = d\<close> \<open>hm_get (vs_nodes ?v) (vn_id c) = Some c\<close> by auto
    moreover have "vn_id c \<noteq> 0" using assms(7) \<open>hm_get (vs_nodes ?v) (vn_id c) = Some c\<close> by (metis option.distinct(1))
    ultimately show ?thesis by simp
  qed
  have dist: "distinct (map de_fileid es)"
    using live m(2) by (auto simp: ids distinct_map dest: kid intro: inj_on_subset)
  have nz: "de_fileid e \<noteq> 0" if e: "e \<in> set es" for e
  proof -
    have "de_fileid e \<in> set (map de_fileid es)" using e by simp
    moreover have "d \<noteq> 0" "vn_parent n \<noteq> 0" using n m(1) assms(7) by (metis option.distinct(1))+
    ultimately show ?thesis using kid by (auto simp: ids)
  qed
  have stable: "nfs_readdir sv d start mx nf = (nf, Inr (dir_page start mx es))" for start
    using readdir_stable [OF assms(4-6)] by (simp add: es_def)
  have "read_all sv d mx (Suc (length es)) 0 nf = Some es"
    using read_all_pages [OF stable dist nz assms(8), of 0 0 "Suc (length es)"] by simp
  note all = this ids dist
  have len: "length page \<le> mx" if "nfs_readdir sv d start mx nf = (nf, Inr (page, fin))" for start page fin
    using that by (auto simp: stable dir_page_def Let_def min_def)
  show ?thesis by (intro conjI exI [of _ es] allI impI all) (rule len)
qed

text \<open>
  At the root the two special entries have the same file id, so a client that asks for one entry at a
  time is given the second of them for ever.
\<close>

theorem readdir_root_stuck:
  assumes "vfs_wf (wd_vfs (nf_world nf))" "hm_get (vs_dirs (wd_vfs (nf_world nf))) root_inode = Some ids"
    "live_nodes (wd_vfs (nf_world nf)) ids = c # cs" "\<not> is_deleted (wd_staging (nf_world nf)) (vn_id c)"
  shows "read_all sv root_inode 1 fuel 0 nf = None"
proof -
  let ?v = "wd_vfs (nf_world nf)"
  obtain r where r: "hm_get (vs_nodes ?v) root_inode = Some r" "vn_parent r = root_inode" "vn_is_dir r" "\<not> vn_deleted r"
    using assms(1) by (auto simp: vfs_wf_def nodes_wf_def)
  then have g: "get_node ?v root_inode = Some r" by (simp add: get_node_def)
  define es where "es = dir_entries sv nf r (live_nodes ?v ids)"
  obtain a b e rest where es: "es = a # b # e # rest" "de_fileid a = root_inode" "de_fileid b = root_inode"
    using assms(3,4) r(2) wf_node [OF assms(1) r(1)] r(1) by (auto simp: es_def dir_entries_def node_now_def Let_def)
  note rd = readdir_stable [OF g r(3) assms(2), of sv, folded es_def]
  have "dir_page 0 1 es = ([a], False)" "dir_page root_inode 1 es = ([b], False)"
    by (simp_all add: dir_page_def page_start_def es slice_def root_inode_def)
  note step = this [unfolded One_nat_def]
  have "read_all sv root_inode 1 n root_inode nf = None" for n
    by (induction n) (simp_all add: rd step es(3))
  then show ?thesis by (cases fuel) (simp_all add: rd step es(2))
qed

section \<open>Witnesses\<close>

theorem nfs_read_after_write_witness:
  "\<exists>nf' a. nfs_write demo_server 0 2 0 [7] demo_created = Some (nf', Inr a) \<and>
     nfs_read demo_server 2 0 1 nf' = Some (nf', Inr ([7], 1 \<ge> fa_size a))"
proof -
  obtain nf' a where w: "nfs_write demo_server 0 2 0 [7] demo_created = Some (nf', Inr a)" using demo_do_write by blast
  have "vfs_wf (wd_vfs (nf_world demo_created))" using demo_vfs_wf(1) by (simp add: demo_created_vfs)
  from nfs_read_after_write [OF this w, of demo_server] w show ?thesis by (simp add: demo_server_def)
qed

text \<open>A server whose table has the directory \<open>d\<close> (inode 2) in the root.\<close>

definition demo_dir_vfs :: vfs where
  "demo_dir_vfs = fst (vfs_mkdir demo_view 1 ''d'' (vfs_new []))"

definition demo_dir_nfs where
  "demo_dir_nfs = demo_nfs\<lparr>nf_world := demo_world\<lparr>wd_vfs := demo_dir_vfs\<rparr>\<rparr>"

lemma demo_dir_nodes:
  "hm_get (vs_nodes demo_dir_vfs) 2 = Some \<lparr>vn_id = 2, vn_parent = 1, vn_name = ''d'', vn_oid = [], vn_mode = Directory,
     vn_is_dir = True, vn_size = 4096, vn_deleted = False\<rparr>"
  "hm_get (vs_nodes demo_dir_vfs) 0 = None" "hm_get (vs_dirs demo_dir_vfs) 2 = Some []"
  "hm_get (vs_dirs demo_dir_vfs) 1 = Some [2]" "dir_map demo_dir_vfs (1, ''d'') = Some 2"
  by (simp_all add: demo_dir_vfs_def vfs_eval Let_def)

lemma demo_dir_wf: "vfs_wf demo_dir_vfs"
  unfolding demo_dir_vfs_def by (rule vfs_invariant.mkdir_keeps [OF wf.vfs_invariant_axioms vfs_new_wf(1)])

lemma demo_dir_world: "wd_vfs (nf_world demo_dir_nfs) = demo_dir_vfs" "wd_staging (nf_world demo_dir_nfs) = demo_staging"
  by (simp_all add: demo_dir_nfs_def demo_world_def)

theorem readdir_pages_complete_witness:
  "\<exists>es. read_all demo_server 2 1 (Suc (length es)) 0 demo_dir_nfs = Some es \<and> map de_fileid es = [2, 1]"
proof -
  have r: "reached demo_dir_vfs 2"
    using demo_dir_nodes(5) by (intro exI [of _ "[''d'']"] reached_def [THEN iffD2]) (simp add: root_inode_def name_ok_def del: One_nat_def)
  let ?n = "\<lparr>vn_id = 2, vn_parent = 1, vn_name = ''d'', vn_oid = [], vn_mode = Directory, vn_is_dir = True, vn_size = 4096,
      vn_deleted = False\<rparr>"
  have g: "get_node (wd_vfs (nf_world demo_dir_nfs)) 2 = Some ?n" using demo_dir_nodes(1) by (simp add: demo_dir_world get_node_def)
  note f = demo_dir_wf [folded demo_dir_world(1)] r [folded demo_dir_world(1)]
  have "(2 :: nat) \<noteq> root_inode" "vn_is_dir ?n" "(0 :: nat) < 1" by (simp_all add: root_inode_def)
  from readdir_pages_complete [OF f this(1) g this(2) demo_dir_nodes(3,2) [folded demo_dir_world(1)] this(3), of demo_server]
  show ?thesis by (auto simp: live_nodes_def simp del: read_all.simps)
qed

theorem readdir_root_stuck_witness: "read_all demo_server root_inode 1 100 0 demo_dir_nfs = None"
  by (rule readdir_root_stuck [of _ "[2]" "\<lparr>vn_id = 2, vn_parent = 1, vn_name = ''d'', vn_oid = [], vn_mode = Directory,
        vn_is_dir = True, vn_size = 4096, vn_deleted = False\<rparr>" "[]"])
    (use demo_dir_wf demo_dir_nodes in \<open>simp_all add: demo_dir_world live_nodes_def root_inode_def is_deleted_def demo_staging_def del: One_nat_def\<close>)

end
