(* ===== verification/Crash_Spec.thy ===== *)
theory Crash_Spec
  imports Nfs_Spec Commit_Spec
begin

text \<open>
  A crash and what comes out of it: the session of a server that dies, the recovery of its log by the
  next one, and the commit in the pack that recovery writes. It puts together what Nfs_Session shows
  of the log, Wal_Proto of its torn end, Commit_Spec of the tree and Pack_Writer of the pack.
\<close>

section \<open>Removed inodes do not come back\<close>

text \<open>An inode that was given out, is dead, and that no name leads to.\<close>

definition gone :: "nat \<Rightarrow> vfs \<Rightarrow> bool" where
  "gone j v \<longleftrightarrow> j < vs_next v \<and> get_node v j = None \<and> (\<forall>k. hm_get (vs_child v) k \<noteq> Some j)"

definition wf_gone :: "nat \<Rightarrow> vfs \<Rightarrow> bool" where
  "wf_gone j v \<longleftrightarrow> vfs_wf v \<and> gone j v"

lemma get_node_cong: "hm_get (vs_nodes v') j = hm_get (vs_nodes v) j \<Longrightarrow> get_node v' j = get_node v j"
  by (simp add: get_node_def)

lemma gone_update:
  assumes "gone j v" "hm_get (vs_nodes v') j = hm_get (vs_nodes v) j" "vs_next v \<le> vs_next v'"
    "\<And>k. hm_get (vs_child v') k = Some j \<Longrightarrow> hm_get (vs_child v) k = Some j"
  shows "gone j v'"
  using assms get_node_cong [OF assms(2)] by (auto simp: gone_def)

lemma ensure_gone:
  assumes "wf_gone j v"
  shows "wf_gone j (fst (ensure_dir_populated rv d v))"
proof (cases rule: ensure_cases [of rv d v])
  case (fresh n)
  have wf: "vfs_wf v" and g: "gone j v" using assms by (simp_all add: wf_gone_def)
  define es where "es = (case rv_tree rv (vn_oid n) of Some t \<Rightarrow> tree_entries t | None \<Rightarrow> [])"
  obtain v' where v': "ensure_dir_populated rv d v = (v', Inr ())" "vs_next v' = vs_next v + length es"
    "\<And>i. hm_get (vs_nodes v') i = (if vs_next v \<le> i \<and> i < vs_next v + length es
       then Some (entry_node rv d i (es ! (i - vs_next v))) else hm_get (vs_nodes v) i)"
    "\<And>d' nm i. hm_get (vs_child v') (d', nm) = Some i \<Longrightarrow>
      (if d' = d then vs_next v \<le> i \<and> i < vs_next v + length es \<and> te_name (es ! (i - vs_next v)) = nm
       else hm_get (vs_child v) (d', nm) = Some i)"
    using populated [OF wf fresh es_def] by blast
  have j: "j < vs_next v" using g by (simp add: gone_def)
  have "hm_get (vs_child v) k = Some j" if "hm_get (vs_child v') k = Some j" for k
    using v'(4) [of "fst k" "snd k" j] that j by (auto split: if_splits)
  then have "gone j v'" using j by (intro gone_update [OF g]) (simp_all add: v'(2,3))
  then show ?thesis using ensure_wf [OF wf, of rv d] v'(1) by (simp add: wf_gone_def)
qed (use assms in simp_all)

lemma then_gone:
  "wf_gone j v \<Longrightarrow> (\<And>v. wf_gone j v \<Longrightarrow> wf_gone j (fst (f v))) \<Longrightarrow>
   wf_gone j (fst (and_then (ensure_dir_populated rv d v) (\<lambda>v _. f v)))"
  by (rule fst_and_then [where P = "wf_gone j"]) (simp_all add: ensure_gone)

lemma removed_gone: "gone j v \<Longrightarrow> hm_get (vs_child v) (d, nm) = Some i \<Longrightarrow> gone j (removed i d nm v)"
  by (rule gone_update) (auto simp: removed_fields gone_def split: if_splits)

lemma remove_gone: "wf_gone j v \<Longrightarrow> wf_gone j (fst (vfs_remove rv d nm v))"
proof -
  assume "wf_gone j v"
  then have "wf_gone j (fst (ensure_dir_populated rv d v))" by (rule ensure_gone)
  then have "gone j (fst (vfs_remove rv d nm v))"
    by (cases "ensure_dir_populated rv d v"; cases "snd (ensure_dir_populated rv d v)")
      (auto simp: remove_eq wf_gone_def removed_gone split: option.split)
  then show ?thesis using remove_wf \<open>wf_gone j v\<close> by (simp add: wf_gone_def)
qed

lemma create_gone: "wf_gone j v \<Longrightarrow> wf_gone j (fst (vfs_create_file rv d nm mode v))"
proof -
  assume w: "wf_gone j v"
  then have "gone j (fst (vfs_create_file rv d nm mode v))"
    unfolding vfs_create_file_def
    by (intro fst_and_then [where P = "gone j"])
      (use ensure_gone wf_gone_def in \<open>auto simp: add_node_def Let_def gone_def get_node_update get_node_def split: option.splits if_splits\<close>)
  then show ?thesis using create_file_wf w by (simp add: wf_gone_def)
qed

lemma mkdir_gone: "wf_gone j v \<Longrightarrow> wf_gone j (fst (vfs_mkdir rv d nm v))"
proof -
  assume w: "wf_gone j v"
  then have "gone j (fst (vfs_mkdir rv d nm v))"
    unfolding vfs_mkdir_def
    by (intro fst_and_then [where P = "gone j"])
      (use ensure_gone wf_gone_def in \<open>auto simp: add_node_def Let_def gone_def get_node_def split: option.splits if_splits\<close>)
  then show ?thesis using mkdir_wf w by (simp add: wf_gone_def)
qed

lemma moved_gone: "gone j v \<Longrightarrow> i \<noteq> j \<Longrightarrow> gone j (moved i f fn t tn v)"
  by (rule gone_update) (auto simp: moved_def Let_def get_node_update split: if_splits)

lemma gone_child: "gone j v \<Longrightarrow> hm_get (vs_child v) k = Some i \<Longrightarrow> i \<noteq> j"
  by (cases k) (auto simp: gone_def)

lemma rename_gone: "wf_gone j v \<Longrightarrow> wf_gone j (fst (vfs_rename rv f fn t tn v))"
proof -
  assume w: "wf_gone j v"
  obtain v1 r1 where 1: "ensure_dir_populated rv f v = (v1, r1)" by fastforce
  obtain v2 r2 where 2: "ensure_dir_populated rv t v1 = (v2, r2)" by fastforce
  have w1: "wf_gone j v1" using ensure_gone [OF w, of rv f] 1 by simp
  then have w2: "wf_gone j v2" using ensure_gone [of j v1 rv t] 2 by simp
  then have g: "gone j v1" "gone j v2" using w1 by (simp_all add: wf_gone_def)
  have m: "gone j (moved i f fn t tn (fst (vfs_remove rv t tn v2)))" if "hm_get (vs_child v2) (f, fn) = Some i" for i
    using remove_gone [OF w2, of rv t tn] moved_gone gone_child [OF g(2) that] wf_gone_def by metis
  have "gone j (fst (vfs_rename rv f fn t tn v))"
    using g 1 2 m by (cases r1; cases r2) (auto simp: rename_eq split: option.split)
  then show ?thesis using rename_wf w by (simp add: wf_gone_def)
qed

lemma lookup_gone: "wf_gone j v \<Longrightarrow> wf_gone j (fst (vfs_lookup rv d nm v))"
  by (auto simp: vfs_lookup_def split: option.split intro!: then_gone)

lemma list_gone: "wf_gone j v \<Longrightarrow> wf_gone j (fst (list_dir rv d v))"
  by (auto simp: list_dir_def intro!: then_gone)

lemma size_gone: "wf_gone j v \<Longrightarrow> wf_gone j (update_file_size i n v)"
  using size_wf by (auto simp: wf_gone_def gone_def update_file_size_def get_node_update get_node_def split: option.splits)

text \<open>So being gone is an invariant of the table, and of a replay on it.\<close>

interpretation stays_gone: vfs_invariant rv "wf_gone j" for rv j
  by unfold_locales (rule lookup_gone list_gone create_gone mkdir_gone remove_gone rename_gone size_gone, assumption)+

interpretation gone_replay: replay_invariant "wf_gone j" for j
  by (rule replay_invariant.intro) (rule stays_gone.vfs_invariant_axioms)

text \<open>Removing makes an inode gone.\<close>

lemma remove_makes_gone:
  assumes wf: "vfs_wf v" and run: "vfs_remove rv d nm v = (v', Inr n)"
  shows "wf_gone (vn_id n) v'"
proof -
  obtain v1 where e: "ensure_dir_populated rv d v = (v1, Inr ())"
    and r: "(case hm_get (vs_child v1) (d, nm) of
       None \<Rightarrow> (v1, Inl (E_Vfs Vfs_NoChild))
     | Some i \<Rightarrow> (case hm_get (vs_nodes v1) i of
          None \<Rightarrow> (v1, Inl (E_Vfs Vfs_NoNode))
        | Some n \<Rightarrow> (removed i d nm v1, Inr (n\<lparr>vn_deleted := True\<rparr>)))) = (v', Inr n)"
    using run by (cases "ensure_dir_populated rv d v"; cases "snd (ensure_dir_populated rv d v)") (auto simp: remove_eq)
  have w1: "vfs_wf v1" using ensure_wf [OF wf, of rv d] e by simp
  obtain i m where i: "hm_get (vs_child v1) (d, nm) = Some i" "hm_get (vs_nodes v1) i = Some m"
    "v' = removed i d nm v1" "n = m\<lparr>vn_deleted := True\<rparr>"
    using r by (auto split: option.splits)
  have "vn_id n = i" "i < vs_next v1" using wf_node [OF w1 i(2)] i(4) by simp_all
  moreover have "hm_get (vs_child v1) k \<noteq> Some i" if "k \<noteq> (d, nm)" for k
    using wf_child_unique [OF w1 i(1), of "fst k" "snd k"] that by auto
  ultimately have "gone (vn_id n) v'" by (auto simp: gone_def i(3) removed_fields get_node_def i(2))
  then show ?thesis using removed_wf [OF w1 i(1)] i(3) by (simp add: wf_gone_def)
qed

section \<open>What is deleted stays gone in a session\<close>

definition deletions_gone :: "('c, 'b, 'g) world \<Rightarrow> bool" where
  "deletions_gone w \<longleftrightarrow> vfs_wf (wd_vfs w) \<and> (\<forall>j. is_deleted (wd_staging w) j \<longrightarrow> gone j (wd_vfs w))"

lemma truncate_deleted: "sg_deleted (fst (staging_truncate io i n base s)) = sg_deleted s"
  by (auto simp: staging_truncate_def ensure_file_def Let_def and_then_def split: option.split prod.split sum.split)

lemma truncate_node_deleted:
  assumes "truncate_node ev io i oid n w = Some (w', Inr ())"
  shows "sg_deleted (wd_staging w') = sg_deleted (wd_staging w)"
proof -
  obtain w1 base where b: "base_data ev i oid w = Some (w1, Inr base)"
    and st: "and_then (on_staging (staging_truncate io i n base) w1) (\<lambda>w _. (resized i n w, Inr ())) = (w', Inr ())"
    using assms by (auto simp: truncate_node_def fuel_then_Inr)
  obtain s r where s: "staging_truncate io i n base (wd_staging w) = (s, r)" by fastforce
  then show ?thesis using st base_data_staging [OF b] truncate_deleted [of io i n base "wd_staging w"]
    by (cases r) (auto simp: on_staging_def)
qed

lemma log_node_deleted:
  "log_node sv now i p nf = Some nf' \<Longrightarrow> sg_deleted (wd_staging (nf_world nf')) = sg_deleted (wd_staging (nf_world nf))"
  by (erule log_node_keeps) simp_all

lemma op_deleted:
  assumes "nfs_do sv now op nf = Some (nf', Inr ())" "\<nexists>d nm. op = Op_Remove d nm"
  shows "sg_deleted (wd_staging (nf_world nf')) = sg_deleted (wd_staging (nf_world nf))"
proof (cases op)
  case (Op_Write i off d)
  then show ?thesis using assms(1) log_node_deleted
    by (fastforce simp: reply_Some nfs_write_def fuel_then_Inr on_world_fuel_def live_node_def elim!: write_node_run split: if_splits)
next
  case (Op_Truncate i n)
  then show ?thesis using assms(1) log_node_deleted truncate_node_deleted
    by (fastforce simp: reply_Some nfs_setattr_def fuel_then_Inr on_world_fuel_def split: if_splits)
next
  case (Op_Create d nm)
  then show ?thesis using assms(1)
    by (auto simp: reply_Some nfs_create_def create_node_def fuel_then_Inr on_world_Inr on_vfs_Inr Let_def on_staging_def
        staging_create_file_def split: if_splits prod.splits)
next
  case (Op_Mkdir d nm)
  then show ?thesis using assms(1)
    by (auto simp: reply_Some nfs_mkdir_def fuel_then_Inr on_world_Inr on_vfs_Inr Let_def)
next
  case (Op_Rename f fn t tn)
  then show ?thesis using assms(1)
    by (auto simp: nfs_rename_def fuel_then_Inr on_world_Inr on_vfs_Inr Let_def log_to_wal_def record_mutation_def bind_eq_Some_conv)
qed (use assms(2) in simp)

lemma op_gone:
  assumes I: "deletions_gone (nf_world nf)" and a: "op_addressed (wd_vfs (nf_world nf)) op"
    and run: "nfs_do sv now op nf = Some (nf', Inr ())"
  shows "deletions_gone (nf_world nf')"
proof -
  have wf: "vfs_wf (wd_vfs (nf_world nf))" using I by (simp add: deletions_gone_def)
  obtain p where p: "replay_payload (sv_env sv) (sv_io sv) p (nf_world nf) = Some (nf_world nf', Inr ())"
    using op_replayed [OF wf a run] by (auto simp: replayed_by_def)
  have wf': "vfs_wf (wd_vfs (nf_world nf'))" using wf_replay.payload_keeps [OF wf p] .
  have stay: "gone j (wd_vfs (nf_world nf'))" if "is_deleted (wd_staging (nf_world nf)) j" for j
    using gone_replay.payload_keeps [OF _ p, of j] wf I that by (simp add: deletions_gone_def wf_gone_def)
  show ?thesis
  proof (cases "\<exists>d nm. op = Op_Remove d nm")
    case False
    then have "is_deleted (wd_staging (nf_world nf')) j \<longleftrightarrow> is_deleted (wd_staging (nf_world nf)) j" for j
      using op_deleted [OF run] by (simp add: is_deleted_def)
    then show ?thesis using wf' stay by (simp add: deletions_gone_def)
  next
    case True
    then obtain d nm where "op = Op_Remove d nm" by blast
    then obtain w1 n where w1: "vfs_remove (engine_view (sv_env sv) (wd_engine (nf_world nf))) d (from_utf8_lossy nm)
        (wd_vfs (nf_world nf)) = (w1, Inr n)"
      and nf': "wd_vfs (nf_world nf') = w1"
        "\<And>j. is_deleted (wd_staging (nf_world nf')) j \<longleftrightarrow> j = vn_id n \<or> is_deleted (wd_staging (nf_world nf)) j"
      using run by (auto simp: nfs_remove_def Let_def fuel_then_Inr on_world_Inr on_vfs_Inr is_deleted_def mark_deleted_def)
    then show ?thesis using wf' stay remove_makes_gone [OF wf w1] by (auto simp: deletions_gone_def wf_gone_def)
  qed
qed

lemma session_gone:
  assumes "deletions_gone (nf_world nf)" "session_addressed sv ops nf" "nfs_session sv ops nf = Some (nf', Inr ())"
  shows "deletions_gone (nf_world nf')"
  using assms
proof (induction ops arbitrary: nf)
  case (Cons o1 ops)
  obtain now op where o1: "o1 = (now, op)" by fastforce
  obtain nf1 where run: "nfs_do sv now op nf = Some (nf1, Inr ())" "nfs_session sv ops nf1 = Some (nf', Inr ())"
    using Cons.prems(3) by (auto simp: o1 fuel_then_Inr)
  then show ?case using Cons.IH [OF op_gone [OF Cons.prems(1) _ run(1)]] Cons.prems(2) by (simp add: o1)
qed simp

section \<open>Recovering the log of a session\<close>

lemma small_entries: "length (log_bytes C es) < 2 ^ 32 \<Longrightarrow> list_all (small_entry C) es"
  by (induction es) (auto simp: small_entry_def encode_framed_def)

lemma decode_torn:
  assumes "codec_laws C" "length (log_bytes C es) < 2 ^ 32" "small_entry C torn" "k < length (encode_framed C torn)"
  shows "decode_all_framed C (log_bytes C es @ take k (encode_framed C torn)) = (es, length (log_bytes C es))"
  using decode_crashed_log [OF assms(1), of es torn k] small_entries [OF assms(2)] assms(3,4) by (simp add: log_bytes_def)

lemma header_info_other:
  "\<forall>h. Wal_Header h \<notin> snd ` set ps \<Longrightarrow> header_info (numbered_entries k ps) i = i"
proof (induction ps arbitrary: k)
  case (Cons p ps)
  then show ?case by (cases p; cases "snd p") auto
qed simp

text \<open>What the commit takes from the header of the log.\<close>

definition session_info :: "string \<Rightarrow> string \<Rightarrow> string \<Rightarrow> commit_info \<Rightarrow> commit_info" where
  "session_info base author msg i =
     \<lparr>ci_base = (if base \<noteq> [] then base else ci_base i), ci_author = (if author \<noteq> [] then author else ci_author i),
      ci_message = (if msg \<noteq> [] then ''Recovered from crash: '' @ msg else ci_message i)\<rparr>"

lemma header_info_session:
  "\<forall>h. Wal_Header h \<notin> snd ` set ps \<Longrightarrow>
   header_info (session_entries now url base author msg m0 ps) i = session_info base author msg i"
  by (simp add: session_entries_def header_info_other session_header_def session_info_def)

text \<open>A build that returns, on a world with modifications, wrote the pack of a commit.\<close>

lemma built_pack:
  assumes "build_pack_from_recovered_state ev io ts base author msg w = Some (w', Inr r)" "has_modifications (wd_staging w)"
  obtains p v' where "r = Some p" "create_pack_and_index_bytes (ev_ext ev) (rp_objects p) = Inr (rp_pack p, rp_idx p, rp_sha p)"
    "rebuild_git_objects (ev_ext ev) (engine_view ev (wd_engine w)) io ts (wd_staging w) base author msg (wd_vfs w) =
       Some (v', Inr (rp_commit p, rp_root p, rp_objects p))"
proof -
  obtain v' commit rt obs pack idx sha where
    "rebuild_git_objects (ev_ext ev) (engine_view ev (wd_engine w)) io ts (wd_staging w) base author msg (wd_vfs w) =
       Some (v', Inr (commit, rt, obs))" "create_pack_and_index_bytes (ev_ext ev) obs = Inr (pack, idx, sha)"
    "r = Some \<lparr>rp_commit = commit, rp_root = rt, rp_pack = pack, rp_idx = idx, rp_sha = sha, rp_objects = obs\<rparr>"
    using assms by (auto simp: build_pack_from_recovered_state_def res_bind_Inr_iff split: prod.splits)
  then show thesis using that [of "the r" v'] by simp
qed

lemma staged_modified: "get_staged_content io i s = Inr (Some c) \<Longrightarrow> has_modifications s"
  by (auto simp: get_staged_content_def has_modifications_def is_staged_def split: if_splits)

lemma recovered_session:
  assumes "staging_new io = Inr st" "wb_read B q s = Inr log" "fst (decode_all_framed C log) = es"
    "replay_wal_entries ev io es \<lparr>wd_vfs = vfs_new root, wd_staging = st, wd_engine = e\<rparr> = Some (w, Inr ())"
    "recovered_state B C ev io now root defaults [q] s e = Some (e', Inr r)"
  obtains w' where "build_pack_from_recovered_state ev io (now div 1000000000) (ci_base (header_info es defaults))
    (ci_author (header_info es defaults)) (ci_message (header_info es defaults)) w = Some (w', Inr r)"
  using assms by (auto simp: recovered_state_def Let_def)

text \<open>
  C1: what a client wrote before a crash is in the commit that recovery makes of it: a server starts
  on a staging directory and a new log in a local directory, carries out mutations that all succeed, as do
  the appends to the log, and dies with a record half written. When the next server, from the same commit
  and with its engine in the state the session's began with, recovers that log (its staging directory having the same left-over files, if any),
  the pack it makes holds, under a root tree that the path of every file staged at the end of the session
  leads through, the blob with exactly the bytes the session left in the file, and a commit of that root on
  the base and by the author of the session. The names on the path must not be Apple metadata, which a commit
  leaves out, and the operations of the session address nodes that names lead to.
\<close>

theorem crash_recovery_commits:
  assumes laws: "codec_laws C" "hex_laws (ev_ext (sv_env sv))" "sha1_laws (ev_ext (sv_env sv))"
    and os: "sv_wal sv = local_wal_ops os C" "\<And>p. os_ok os (Fs_Append p)" "\<And>p. os_ok os (Fs_Sync p)"
    and start: "local_logs (wm_store m0) (wm_active_seq m0) = None" "staging_new (sv_io sv) = Inr st"
      "start_active_wal (sv_wal sv) now url base author msg m0 = (m, Inr ())"
      "nf = nfs_new uid gid now \<lparr>wd_vfs = vfs_new root, wd_staging = st, wd_engine = e\<rparr> (Some m)"
    and run: "session_addressed sv ops nf" "nfs_session sv ops nf = Some (nf', Inr ())"
    and crash: "nf_wal nf' = Some m'" "local_logs (wm_store m') (wm_active_seq m0) = Some d" "length d < 2 ^ 32"
      "small_entry C torn" "k < length (encode_framed C torn)"
      "wb_read B (wm_active_seq m0) s = Inr (d @ take k (encode_framed C torn))"
    and recovery: "recovered_state B C (sv_env sv) (sv_io sv) later root defaults [wm_active_seq m0] s e = Some (e', Inr r)"
    and path: "walk (wd_vfs (nf_world nf')) root_inode nms = Some i" "nms \<noteq> []" "\<forall>nm \<in> set nms. \<not> is_apple_metadata nm"
    and fl: "get_node (wd_vfs (nf_world nf')) i = Some n" "\<not> vn_is_dir n"
      "get_staged_content (sv_io sv) i (wd_staging (nf_world nf')) = Inr (Some content)"
  shows "\<exists>p message. r = Some p \<and>
    create_pack_and_index_bytes (ev_ext (sv_env sv)) (rp_objects p) = Inr (rp_pack p, rp_idx p, rp_sha p) \<and>
    merkle_path (ev_ext (sv_env sv)) (rp_root p) nms (compute_git_sha1 (ev_ext (sv_env sv)) Blob_Type content) \<and>
    compute_git_sha1 (ev_ext (sv_env sv)) Blob_Type content \<in> gp_oid ` set (rp_objects p) \<and>
    \<lparr>gp_oid = rp_commit p, gp_type = Commit_Type,
      gp_data = str_bytes (commit_content (rp_root p) (if base \<noteq> [] then base else ci_base defaults)
        (if author \<noteq> [] then author else ci_author defaults) (later div 1000000000) message)\<rparr> \<in> set (rp_objects p)"
proof -
  define es where "es = session_entries now url base author msg m0"
  have w0: "nf_wal nf = Some m" "nf_world nf = \<lparr>wd_vfs = vfs_new root, wd_staging = st, wd_engine = e\<rparr>"
    by (simp_all add: start(4) nfs_new_def)
  obtain ps where ps: "\<forall>h. Wal_Header h \<notin> snd ` set ps" "d = log_bytes C (es ps)"
    "replay_wal_entries (sv_env sv) (sv_io sv) (es ps) (nf_world nf) = Some (nf_world nf', Inr ())"
    using session_log [OF os start(1,3) w0(1) _ run] crash(1,2) vfs_new_wf(1) w0(2) by (auto simp: es_def)
  have log: "fst (decode_all_framed C (d @ take k (encode_framed C torn))) = es ps"
    using decode_torn [OF laws(1) _ crash(4,5), of "es ps"] crash(3) ps(2) by simp
  have hi: "header_info (es ps) defaults = session_info base author msg defaults"
    using header_info_session [OF ps(1)] by (simp add: es_def)
  obtain w' where "build_pack_from_recovered_state (sv_env sv) (sv_io sv) (later div 1000000000)
      (ci_base (session_info base author msg defaults)) (ci_author (session_info base author msg defaults))
      (ci_message (session_info base author msg defaults)) (nf_world nf') = Some (w', Inr r)"
    using recovered_session [OF start(2) crash(6) log ps(3) [unfolded w0(2)] recovery] unfolding hi by blast
  from built_pack [OF this staged_modified [OF fl(3)]] obtain p v' where p: "r = Some p"
    "create_pack_and_index_bytes (ev_ext (sv_env sv)) (rp_objects p) = Inr (rp_pack p, rp_idx p, rp_sha p)"
    "rebuild_git_objects (ev_ext (sv_env sv)) (engine_view (sv_env sv) (wd_engine (nf_world nf'))) (sv_io sv)
       (later div 1000000000) (wd_staging (nf_world nf')) (ci_base (session_info base author msg defaults))
       (ci_author (session_info base author msg defaults)) (ci_message (session_info base author msg defaults))
       (wd_vfs (nf_world nf')) = Some (v', Inr (rp_commit p, rp_root p, rp_objects p))"
    by blast
  have "deletions_gone (nf_world nf)"
    using start(2) vfs_new_wf(1) by (auto simp: deletions_gone_def w0(2) staging_new_def is_deleted_def split: if_splits)
  then have G: "deletions_gone (nf_world nf')" using session_gone run by blast
  then have "\<forall>j. is_deleted (wd_staging (nf_world nf')) j \<longrightarrow> get_node (wd_vfs (nf_world nf')) j = None"
    by (simp add: deletions_gone_def gone_def)
  from staged_in_tree [OF laws(2,3) _ p(3) path fl this] G p(1,2) show ?thesis
    by (auto simp: deletions_gone_def session_info_def)
qed

section \<open>Witness\<close>

text \<open>
  The session that creates \<open>a\<close> and writes a byte to it, a crash after three bytes of a further record,
  and the recovery by a second server.
\<close>

definition demo_payloads :: "(nat \<times> wal_payload) list" where
  "demo_payloads = [(0, Wal_Create_File ''a'' 0 33188), (0, Wal_Write ''a'' 0 [7])]"

definition demo_log :: bytes where
  "demo_log = log_bytes demo_codec (session_entries 0 ''u'' ''b'' ''a'' [] demo_manager demo_payloads)"

definition demo_crashed :: local_wal where
  "demo_crashed = \<lparr>lw_files = [(local_log_path 0, demo_log @ take 3 (encode_framed demo_codec demo_entry))], lw_readonly = []\<rparr>"

definition demo_defaults :: commit_info where
  "demo_defaults = \<lparr>ci_base = [], ci_author = [], ci_message = ''msg''\<rparr>"

definition demo_objects :: "git_object_to_pack list" where
  "demo_objects =
     (let tree = new_object demo_ext Tree_Type (demo_entry_bytes [7]);
          commit = new_object demo_ext Commit_Type (str_bytes (commit_content (gp_oid tree) ''b'' ''a'' 0 ''msg''))
      in map snd (insert_object commit (insert_object tree (insert_object (new_object demo_ext Blob_Type [7]) []))))"

lemma demo_log_small: "length demo_log < 2 ^ 32"
  by (simp add: demo_log_def session_entries_def demo_payloads_def encode_framed_def demo_codec_def demo_put_entry_def
      put_nat_def put_str_def put_bytes_def session_header_def demo_manager_def wal_manager_new_def wrap64_def)

lemma demo_logged:
  "local_logs (wm_store (log_all (local_wal_ops os_fine demo_codec) demo_payloads demo_manager_started)) 0 = Some demo_log"
proof -
  have "and_then (start_active_wal (local_wal_ops os_fine demo_codec) 0 ''u'' ''b'' ''a'' [] demo_manager)
      (\<lambda>m _. log_mutations (local_wal_ops os_fine demo_codec) demo_payloads m) =
      (log_all (local_wal_ops os_fine demo_codec) demo_payloads demo_manager_started, Inr ())"
    using demo_start local_never_fails [of os_fine] by (simp add: os_fine_def)
  from local_log.session_logged [OF _ this] show ?thesis
    by (simp add: demo_manager_def wal_manager_new_def local_logs_def demo_log_def session_entries_def)
qed

lemma demo_world_table: "update_file_size 2 1 demo_vfs = demo_table 1 []"
  by (simp add: demo_table_def demo_vfs_def vfs_eval Let_def update_file_size_def demo_node_def)

lemma demo_id_length: "length (compute_git_sha1 demo_ext ty d) = 40"
proof -
  have "length (demo_hex_encode bs) = 2 * length bs" for bs
    by (induction bs) (simp_all add: demo_hex_encode_def)
  then show ?thesis using sha1_length [OF demo_sha1_laws]
    by (simp add: compute_git_sha1_def Let_def demo_ext_def)
qed

lemma demo_objects_set:
  "set demo_objects \<subseteq> {new_object demo_ext Blob_Type [7], new_object demo_ext Tree_Type (demo_entry_bytes [7]),
     new_object demo_ext Commit_Type (str_bytes (commit_content (compute_git_sha1 demo_ext Tree_Type (demo_entry_bytes [7])) ''b'' ''a'' 0 ''msg''))}"
proof -
  have i: "snd ` set (insert_object ob m) \<subseteq> insert ob (snd ` set m)" for ob m
    using set_update_subset [of "gp_oid ob" ob m] by (auto simp: insert_object_def)
  have "snd ` set (insert_object a (insert_object b (insert_object c []))) \<subseteq> {c, b, a}" for a b c
    using i [of a "insert_object b (insert_object c [])"] i [of b "insert_object c []"] i [of c "[]"] by auto
  then show ?thesis unfolding demo_objects_def Let_def new_object_def by simp
qed

lemma demo_objects_small:
  assumes "ob \<in> set demo_objects"
  shows "object_ok demo_ext ob" "length (frame_bytes demo_ext (frame_of ob)) \<le> 1000"
proof -
  have n: "length (demo_entry_bytes [7]) = 29"
    using sha_decodes [OF demo_hex_laws, of Blob_Type "[7]"] sha1_length [OF demo_sha1_laws] by (simp add: demo_entry_bytes_def)
  have z: "length (to_radix 10 0) = 1" by (simp add: to_radix.simps)
  have "length (gp_data ob) \<le> 200 \<and> gp_type ob \<in> {Commit_Type, Tree_Type, Blob_Type, Tag_Type} \<and>
      gp_oid ob = compute_git_sha1 demo_ext (gp_type ob) (gp_data ob)"
    using subsetD [OF demo_objects_set assms] by (elim insertE emptyE; simp add: new_object_def n commit_content_def demo_id_length z)
  moreover have "length (demo_deflate d) = 2 * length d + 1" for d
    by (induction d) (simp_all add: demo_deflate_def)
  ultimately show "object_ok demo_ext ob" "length (frame_bytes demo_ext (frame_of ob)) \<le> 1000"
    using object_header_length [of "length (gp_data ob)" "gp_type ob"]
    by (auto simp: object_ok_def isize_max_def frame_of_def demo_ext_def)
qed

lemma length_concat_le: "(\<And>x. x \<in> set xs \<Longrightarrow> length x \<le> n) \<Longrightarrow> length (concat xs) \<le> length xs * n"
  by (induction xs) (auto simp: add_mono)

lemma demo_pack: "\<exists>pack idx sha. create_pack_and_index_bytes demo_ext demo_objects = Inr (pack, idx, sha)"
proof (rule pack_written)
  have "length (hm_put k v m) \<le> Suc (length m)" for k v and m :: objects
    by (induction m) auto
  then have "length demo_objects \<le> 3"
    by (simp add: demo_objects_def Let_def insert_object_def)
  moreover have "length (concat (map (\<lambda>ob. frame_bytes demo_ext (frame_of ob)) demo_objects)) \<le> length demo_objects * 1000"
    using length_concat_le [of "map (\<lambda>ob. frame_bytes demo_ext (frame_of ob)) demo_objects" 1000] demo_objects_small(2) by auto
  ultimately show "12 + length (concat (map (\<lambda>ob. frame_bytes demo_ext (frame_of ob)) demo_objects)) \<le> 0x7fffffff" by linarith
qed (use demo_objects_small(1) in \<open>auto simp: list_all_iff\<close>)

lemma demo_session:
  "\<exists>nf'. nfs_session demo_server demo_ops demo_nfs = Some (nf', Inr ()) \<and> session_addressed demo_server demo_ops demo_nfs \<and>
     nf_world nf' = \<lparr>wd_vfs = demo_table 1 [], wd_staging = demo_changes [7], wd_engine = demo_engine []\<rparr> \<and>
     nf_wal nf' = Some (log_all (local_wal_ops os_fine demo_codec) demo_payloads demo_manager_started)"
proof -
  obtain nf' a b where w: "nfs_write demo_server 0 2 0 [7] demo_created = Some (nf', Inr a)"
    and c: "nfs_create demo_server 0 1 (str_bytes ''a'') demo_nfs = Some (demo_created, Inr b)"
    and nf': "nf_world nf' = \<lparr>wd_vfs = demo_table 1 [], wd_staging = demo_changes [7], wd_engine = demo_engine []\<rparr>"
      "nf_wal nf' = Some (log_all (local_wal_ops os_fine demo_codec) demo_payloads demo_manager_started)"
    using demo_do_write demo_do_create demo_world_table by (auto simp: demo_changes_def demo_payloads_def)
  have "wd_vfs (nf_world demo_nfs) = vfs_new []" by (simp add: demo_nfs_def nfs_new_def demo_world_def)
  then show ?thesis using w c nf' demo_reached
    by (auto simp: demo_ops_def reply_def demo_created_vfs demo_lossy reached_def name_ok_def root_inode_def intro!: exI [of _ "[]"])
qed

lemma demo_torn: "small_entry demo_codec demo_entry" "3 < length (encode_framed demo_codec demo_entry)"
  using demo_entry_small by (simp_all add: encode_framed_def)

lemma demo_replay:
  "fst (decode_all_framed demo_codec (demo_log @ take 3 (encode_framed demo_codec demo_entry))) =
     session_entries 0 ''u'' ''b'' ''a'' [] demo_manager demo_payloads"
  "replay_wal_entries (demo_env os_fine) all_ok (session_entries 0 ''u'' ''b'' ''a'' [] demo_manager demo_payloads) demo_world =
     Some (\<lparr>wd_vfs = demo_table 1 [], wd_staging = demo_changes [7], wd_engine = demo_engine []\<rparr>, Inr ())"
proof -
  let ?es = "session_entries 0 ''u'' ''b'' ''a'' [] demo_manager"
  show dec: "fst (decode_all_framed demo_codec (demo_log @ take 3 (encode_framed demo_codec demo_entry))) = ?es demo_payloads"
    using decode_torn [OF demo_codec_laws demo_log_small [unfolded demo_log_def] demo_torn] by (simp add: demo_log_def)
  obtain nf' where run: "nfs_session demo_server demo_ops demo_nfs = Some (nf', Inr ())" "session_addressed demo_server demo_ops demo_nfs"
    and nf': "nf_world nf' = \<lparr>wd_vfs = demo_table 1 [], wd_staging = demo_changes [7], wd_engine = demo_engine []\<rparr>"
      "nf_wal nf' = Some (log_all (local_wal_ops os_fine demo_codec) demo_payloads demo_manager_started)"
    using demo_session by blast
  have w: "sv_wal demo_server = local_wal_ops os_fine demo_codec" "nf_wal demo_nfs = Some demo_manager_started"
    "nf_world demo_nfs = demo_world" "vfs_wf (wd_vfs demo_world)" "sv_env demo_server = demo_env os_fine" "sv_io demo_server = all_ok"
    "local_logs (wm_store demo_manager) (wm_active_seq demo_manager) = None" "wm_active_seq demo_manager = 0"
    by (simp_all add: demo_server_def demo_nfs_def nfs_new_def demo_world_def vfs_new_wf demo_manager_def wal_manager_new_def local_logs_def)
  have ok: "os_ok os_fine (Fs_Append p)" "os_ok os_fine (Fs_Sync p)" for p by (simp_all add: os_fine_def)
  obtain ps where ps: "demo_log = log_bytes demo_codec (?es ps)"
    "replay_wal_entries (demo_env os_fine) all_ok (?es ps) demo_world = Some (nf_world nf', Inr ())"
    using session_log [OF w(1) ok w(7) demo_start [folded w(1)] w(2) _ run(2,1)] nf'(2) demo_logged w(3-6,8) by auto
  then have "?es ps = ?es demo_payloads"
    using dec decode_torn [OF demo_codec_laws _ demo_torn, of "?es ps"] demo_log_small by simp
  then show "replay_wal_entries (demo_env os_fine) all_ok (?es demo_payloads) demo_world =
     Some (\<lparr>wd_vfs = demo_table 1 [], wd_staging = demo_changes [7], wd_engine = demo_engine []\<rparr>, Inr ())"
    using ps(2) nf'(1) by simp
qed

lemma demo_recovered:
  "\<exists>e r. recovered_state (local_wal_ops os_fine demo_codec) demo_codec (demo_env os_fine) all_ok 0 [] demo_defaults [0]
     demo_crashed (demo_engine []) = Some (e, Inr r)"
proof -
  have "header_info (session_entries 0 ''u'' ''b'' ''a'' [] demo_manager demo_payloads) demo_defaults =
      \<lparr>ci_base = ''b'', ci_author = ''a'', ci_message = ''msg''\<rparr>"
    by (subst header_info_session) (simp_all add: session_info_def demo_defaults_def demo_payloads_def)
  moreover have "wb_read (local_wal_ops os_fine demo_codec) 0 demo_crashed = Inr (demo_log @ take 3 (encode_framed demo_codec demo_entry))"
    by (simp add: local_wal_ops_def local_read_def demo_crashed_def fs_read_def os_fine_def)
  moreover have "staging_new all_ok = Inr demo_staging" by (simp add: staging_new_def remaining_files_def demo_staging_def)
  moreover have "\<exists>v' x y. rebuild_git_objects demo_ext (engine_view (demo_env os_fine) (demo_engine [])) all_ok 0 (demo_changes [7])
      ''b'' ''a'' ''msg'' (demo_table 1 []) = Some (v', Inr (x, y, demo_objects))"
    using demo_run [of "engine_view (demo_env os_fine) (demo_engine [])" "''msg''" 0 "[7]" "''b''" "''a''" 1, OF demo_view_tree demo_trim]
    by (simp add: demo_objects_def Let_def)
  moreover have "ev_ext (demo_env os_fine) = demo_ext" "has_modifications (demo_changes [7])"
    by (simp_all add: demo_env_def has_modifications_def demo_changes_def)
  ultimately show ?thesis
    using demo_replay demo_pack
    by (auto simp: recovered_state_def build_pack_from_recovered_state_def demo_world_def)
qed

theorem crash_recovery_commits_witness:
  "\<exists>e' p. recovered_state (local_wal_ops os_fine demo_codec) demo_codec (demo_env os_fine) all_ok 0 [] demo_defaults [0]
     demo_crashed (demo_engine []) = Some (e', Inr (Some p)) \<and>
     merkle_path demo_ext (rp_root p) [''a''] (compute_git_sha1 demo_ext Blob_Type [7])"
proof -
  obtain e' r where rec: "recovered_state (local_wal_ops os_fine demo_codec) demo_codec (demo_env os_fine) all_ok 0 [] demo_defaults [0]
     demo_crashed (demo_engine []) = Some (e', Inr r)" using demo_recovered by blast
  obtain nf' where run: "nfs_session demo_server demo_ops demo_nfs = Some (nf', Inr ())" "session_addressed demo_server demo_ops demo_nfs"
    and nf': "nf_world nf' = \<lparr>wd_vfs = demo_table 1 [], wd_staging = demo_changes [7], wd_engine = demo_engine []\<rparr>"
      "nf_wal nf' = Some (log_all (local_wal_ops os_fine demo_codec) demo_payloads demo_manager_started)"
    using demo_session by blast
  have X: "ev_ext (sv_env demo_server) = demo_ext" by (simp add: demo_server_def demo_env_def)
  have laws: "hex_laws (ev_ext (sv_env demo_server))" "sha1_laws (ev_ext (sv_env demo_server))" by (simp_all add: X)
  have os: "sv_wal demo_server = local_wal_ops os_fine demo_codec" "os_ok os_fine (Fs_Append q)" "os_ok os_fine (Fs_Sync q)" for q
    by (simp_all add: demo_server_def os_fine_def)
  have q: "wm_active_seq demo_manager = 0" by (simp add: demo_manager_def wal_manager_new_def)
  have start: "local_logs (wm_store demo_manager) (wm_active_seq demo_manager) = None" "staging_new (sv_io demo_server) = Inr demo_staging"
    "start_active_wal (sv_wal demo_server) 0 ''u'' ''b'' ''a'' [] demo_manager = (demo_manager_started, Inr ())"
    "demo_nfs = nfs_new 0 0 0 \<lparr>wd_vfs = vfs_new [], wd_staging = demo_staging, wd_engine = demo_engine []\<rparr> (Some demo_manager_started)"
    using demo_start by (simp_all add: demo_server_def demo_manager_def wal_manager_new_def local_logs_def staging_new_def remaining_files_def
        demo_staging_def demo_nfs_def demo_world_def)
  have crash: "local_logs (wm_store (log_all (local_wal_ops os_fine demo_codec) demo_payloads demo_manager_started))
      (wm_active_seq demo_manager) = Some demo_log"
    "wb_read (local_wal_ops os_fine demo_codec) (wm_active_seq demo_manager) demo_crashed =
      Inr (demo_log @ take 3 (encode_framed demo_codec demo_entry))"
    using demo_logged by (simp add: q) (simp add: q local_wal_ops_def local_read_def demo_crashed_def fs_read_def os_fine_def)
  have recovery: "recovered_state (local_wal_ops os_fine demo_codec) demo_codec (sv_env demo_server) (sv_io demo_server) 0 []
      demo_defaults [wm_active_seq demo_manager] demo_crashed (demo_engine []) = Some (e', Inr r)"
    using rec by (simp add: demo_server_def q)
  have path: "walk (wd_vfs (nf_world nf')) root_inode [''a''] = Some 2"
    by (simp add: nf'(1) demo_table_def demo_vfs_def vfs_eval Let_def demo_node_def)
  have fl: "get_node (wd_vfs (nf_world nf')) 2 = Some (demo_node\<lparr>vn_oid := [], vn_size := 1\<rparr>)"
    "\<not> vn_is_dir (demo_node\<lparr>vn_oid := [], vn_size := 1\<rparr>)"
    "get_staged_content (sv_io demo_server) 2 (wd_staging (nf_world nf')) = Inr (Some [7])"
    by (simp_all add: nf'(1) demo_table_parts get_staged_content_def is_staged_def demo_changes_def demo_server_def)
  from crash_recovery_commits [OF demo_codec_laws laws os start run(2,1) nf'(2) crash(1) demo_log_small demo_torn crash(2)
      recovery path _ _ fl]
  show ?thesis using rec X demo_name by auto
qed

end
