(* ===== verification/Stale_Spec.thy ===== *)
theory Stale_Spec
  imports Crash_Spec
begin

text \<open>
  A client's view of a removed file: the requests of the mount as one type, what every request keeps of
  the inode table, and the handles of removed nodes.
\<close>

section \<open>Requests\<close>

datatype nfs_request =
  Rq_Lookup nat bytes | Rq_Getattr nat | Rq_Setattr nat "nat option" | Rq_Read nat nat nat | Rq_Write nat nat bytes
| Rq_Create nat bytes | Rq_Create_Exclusive nat bytes | Rq_Mkdir nat bytes | Rq_Remove nat bytes
| Rq_Rename nat bytes nat bytes | Rq_Readdir nat nat nat | Rq_Symlink | Rq_Readlink nat

definition state_of :: "('st \<times> 'a result) option \<Rightarrow> 'st option" where
  "state_of r = map_option fst r"

text \<open>The state a request leaves, whatever it answers; \<open>None\<close> when it does not return.\<close>

fun answer_request ::
  "('c, 'b, 'g, 'v, 's, 'w) server \<Rightarrow> nat \<Rightarrow> nfs_request \<Rightarrow> ('c, 'b, 'g, 's, 'w) nfs \<Rightarrow> ('c, 'b, 'g, 's, 'w) nfs option" where
  "answer_request sv now (Rq_Lookup d nm) nf = Some (fst (nfs_lookup sv d nm nf))"
| "answer_request sv now (Rq_Getattr i) nf = state_of (nfs_getattr sv i nf)"
| "answer_request sv now (Rq_Setattr i sz) nf = state_of (nfs_setattr sv now i sz nf)"
| "answer_request sv now (Rq_Read i off cnt) nf = state_of (nfs_read sv i off cnt nf)"
| "answer_request sv now (Rq_Write i off d) nf = state_of (nfs_write sv now i off d nf)"
| "answer_request sv now (Rq_Create d nm) nf = state_of (nfs_create sv now d nm nf)"
| "answer_request sv now (Rq_Create_Exclusive d nm) nf = state_of (nfs_create_exclusive sv now d nm nf)"
| "answer_request sv now (Rq_Mkdir d nm) nf = state_of (nfs_mkdir sv now d nm nf)"
| "answer_request sv now (Rq_Remove d nm) nf = state_of (nfs_remove sv now d nm nf)"
| "answer_request sv now (Rq_Rename f fn t tn) nf = state_of (nfs_rename sv now f fn t tn nf)"
| "answer_request sv now (Rq_Readdir d start mx) nf = Some (fst (nfs_readdir sv d start mx nf))"
| "answer_request sv now Rq_Symlink nf = Some (fst (nfs_symlink nf))"
| "answer_request sv now (Rq_Readlink i) nf = state_of (nfs_readlink sv i nf)"

text \<open>Requests one after the other, each with its time and the failures it meets.\<close>

fun nfs_requests ::
  "(('c, 'b, 'g, 'v, 's, 'w) server \<times> nat \<times> nfs_request) list \<Rightarrow> ('c, 'b, 'g, 's, 'w) nfs \<Rightarrow> ('c, 'b, 'g, 's, 'w) nfs option" where
  "nfs_requests [] nf = Some nf"
| "nfs_requests ((sv, now, rq) # rqs) nf = Option.bind (answer_request sv now rq nf) (nfs_requests rqs)"

section \<open>What every request keeps\<close>

definition keeps :: "(vfs \<Rightarrow> bool) \<Rightarrow> (('c, 'b, 'g, 's, 'w) nfs \<times> 'a result) option \<Rightarrow> bool" where
  "keeps I r \<longleftrightarrow> (\<forall>nf q. r = Some (nf, q) \<longrightarrow> I (wd_vfs (nf_world nf)))"

lemma keeps_simps [simp]: "keeps I None" "keeps I (Some (nf, q)) \<longleftrightarrow> I (wd_vfs (nf_world nf))"
  by (simp_all add: keeps_def)

lemma keeps_state: "keeps I r \<Longrightarrow> state_of r = Some nf \<Longrightarrow> I (wd_vfs (nf_world nf))"
  by (auto simp: keeps_def state_of_def)

lemma keeps_then:
  "keeps I r \<Longrightarrow> (\<And>nf x. I (wd_vfs (nf_world nf)) \<Longrightarrow> keeps I (f nf x)) \<Longrightarrow> keeps I (fuel_then r f)"
proof -
  assume r: "keeps I r" and f: "\<And>nf x. I (wd_vfs (nf_world nf)) \<Longrightarrow> keeps I (f nf x)"
  show "keeps I (fuel_then r f)"
  proof (cases r)
    case (Some p)
    then show ?thesis using r f by (cases p; cases "snd p") simp_all
  qed simp
qed

lemma keeps_bind: "(\<And>x. keeps I (f x)) \<Longrightarrow> keeps I (Option.bind r f)"
  by (cases r) simp_all

lemma keeps_on_world:
  "(\<And>w. I (wd_vfs w) \<Longrightarrow> I (wd_vfs (fst (f w)))) \<Longrightarrow> I (wd_vfs (nf_world nf)) \<Longrightarrow> I (wd_vfs (nf_world (fst (on_world st f nf))))"
  by (simp add: on_world_def split: prod.split) (metis fst_conv)

lemma keeps_on_world_fuel:
  "(\<And>w' r. f (nf_world nf) = Some (w', r) \<Longrightarrow> I (wd_vfs w')) \<Longrightarrow> keeps I (on_world_fuel st f nf)"
  by (auto simp: on_world_fuel_def keeps_def)

lemma log_to_wal_world [simp]: "nf_world (log_to_wal sv now p nf) = nf_world nf"
  by (simp add: log_to_wal_def)

lemma keeps_log_path:
  "I (wd_vfs (nf_world nf)) \<Longrightarrow> keeps I (map_option (\<lambda>path. (log_path sv now path (p path) nf, g path)) r)"
  by (cases r) (simp_all add: changed_def)

lemma keeps_log_node:
  "I (wd_vfs (nf_world nf)) \<Longrightarrow> keeps I (map_option (\<lambda>nf. (nf, Inr (g nf))) (log_node sv now i p nf))"
  by (cases "get_path (wd_vfs (nf_world nf)) i"; cases "the (get_path (wd_vfs (nf_world nf)) i)")
    (auto simp: log_node_def changed_def)

context replay_invariant
begin

lemma vfs_world:
  assumes "\<And>rv v. I v \<Longrightarrow> I (fst (f rv v))" "I (wd_vfs (nf_world nf))"
  shows "I (wd_vfs (nf_world (fst (on_world st (on_vfs ev f) nf))))" "keeps I (Some (on_world st (on_vfs ev f) nf))"
proof -
  show w: "I (wd_vfs (nf_world (fst (on_world st (on_vfs ev f) nf))))"
    by (rule keeps_on_world [OF on_vfs_keeps [OF assms(1)] assms(2)])
  then show "keeps I (Some (on_world st (on_vfs ev f) nf))" by (cases "on_world st (on_vfs ev f) nf") simp
qed

lemma resized_engine: "I v \<Longrightarrow> I (update_file_size i n v)"
  by (rule vfs_invariant.size_keeps [OF table])

lemma learn_size_keeps:
  assumes "I (wd_vfs w)" "learn_size ev i oid w = Some (w', r)"
  shows "I (wd_vfs w')"
proof -
  obtain e v where m: "memory_lookup ev oid (wd_engine w) = (e, v)" by fastforce
  obtain e1 q where g: "get_blob ev oid e = None \<or> get_blob ev oid e = Some (e1, q)" by (cases "get_blob ev oid e") auto
  note r = resized_engine [OF assms(1)] assms(1)
  show ?thesis
  proof (cases "ok_option q")
    case (Inl err)
    then show ?thesis using assms(2) m g r by (auto simp: learn_size_def split: option.splits)
  next
    case (Inr x)
    then show ?thesis using assms(2) m g r by (cases x) (auto simp: learn_size_def split: option.splits)
  qed
qed

lemma prefetch_companions_vfs: "prefetch_companions ev node w = Some (w', r) \<Longrightarrow> wd_vfs w' = wd_vfs w"
  by (auto simp: prefetch_companions_def split: prod.splits option.splits if_splits)

lemma read_blob_keeps:
  assumes "I (wd_vfs w)" "read_blob ev i node w = Some (w', r)"
  shows "I (wd_vfs w')"
  using assms(2) unfolding read_blob_def
proof (rule fuel_then_result)
  fix w1 u
  assume p: "prefetch_companions ev node w = Some (w1, Inr u)"
    and run: "map_option (\<lambda>(e, r). case r of Inl err \<Rightarrow> (w1\<lparr>wd_engine := e\<rparr>, Inl err)
      | Inr data \<Rightarrow> (resized i (length data) (w1\<lparr>wd_engine := e\<rparr>), Inr data)) (get_blob ev (vn_oid node) (wd_engine w1)) = Some (w', r)"
  have "I (wd_vfs w1)" using prefetch_companions_vfs [OF p] assms(1) by simp
  moreover obtain e q where "get_blob ev (vn_oid node) (wd_engine w1) = Some (e, q)" using run by auto
  ultimately show "I (wd_vfs w')" using run resized_engine by (cases q) auto
qed (use prefetch_companions_vfs assms(1) in metis)

lemma staging_world: "I (wd_vfs (nf_world nf)) \<Longrightarrow> keeps I (Some (on_world st (on_staging f) nf))"
  by (auto simp: on_world_def on_staging_def split: prod.split)

lemma create_node_keeps: "I (wd_vfs (nf_world nf)) \<Longrightarrow> keeps I (create_node sv now d nm nf)"
  unfolding create_node_def Let_def
  by (intro keeps_then vfs_world(2) staging_world keeps_log_path) (auto intro: vfs_invariant.create_keeps [OF table])

text \<open>Every request keeps an invariant of the inode table, also when it fails.\<close>

lemma reading_keeps:
  assumes "I (wd_vfs (nf_world nf))"
  shows "I (wd_vfs (nf_world (fst (nfs_lookup sv d nm nf))))" "keeps I (nfs_getattr sv i nf)" "keeps I (nfs_read sv i off cnt nf)"
    "I (wd_vfs (nf_world (fst (nfs_readdir sv d start mx nf))))" "keeps I (nfs_readlink sv i nf)"
proof -
  note lookup = vfs_world(1) [OF vfs_invariant.lookup_keeps [OF table] assms]
  note listing = vfs_world(1) [OF vfs_invariant.list_keeps [OF table] assms]
  show "I (wd_vfs (nf_world (fst (nfs_lookup sv d nm nf))))"
    unfolding nfs_lookup_def by (rule fst_and_then [where P = "\<lambda>nf. I (wd_vfs (nf_world nf))"]) (simp_all add: lookup)
  show "I (wd_vfs (nf_world (fst (nfs_readdir sv d start mx nf))))"
  proof -
    have "I (wd_vfs (nf_world (fst (and_then (on_world Nfs_Io (on_vfs (sv_env sv) (\<lambda>rv. list_dir rv d)) nf) (\<lambda>nf children.
        (nf, Inr (dir_page start mx (dir_entries sv nf n children))))))))" for n
      by (rule fst_and_then [where P = "\<lambda>nf. I (wd_vfs (nf_world nf))"]) (simp_all add: listing)
    then show ?thesis using assms by (simp add: nfs_readdir_def split: option.split)
  qed
  show "keeps I (nfs_getattr sv i nf)"
    unfolding nfs_getattr_def using assms by (intro keeps_then) (auto intro!: keeps_on_world_fuel intro: learn_size_keeps)
  show "keeps I (nfs_read sv i off cnt nf)"
    unfolding nfs_read_def using assms
    by (intro keeps_then) (auto intro!: keeps_then keeps_on_world_fuel intro: read_blob_keeps split: sum.split option.split)
  show "keeps I (nfs_readlink sv i nf)"
    using assms by (auto simp: nfs_readlink_def intro!: keeps_on_world_fuel split: option.split)
qed

lemma writing_keeps:
  assumes "I (wd_vfs (nf_world nf))"
  shows "keeps I (nfs_setattr sv now i sz nf)" "keeps I (nfs_write sv now i off data nf)" "keeps I (nfs_create sv now d nm nf)"
    "keeps I (nfs_create_exclusive sv now d nm nf)" "keeps I (nfs_mkdir sv now d nm nf)" "keeps I (nfs_remove sv now d nm nf)"
    "keeps I (nfs_rename sv now d nm t tn nf)"
proof -
  show "keeps I (nfs_setattr sv now i sz nf)"
    unfolding nfs_setattr_def using assms
    by (intro keeps_then) (auto intro!: keeps_then keeps_on_world_fuel keeps_log_node intro: truncate_keeps split: option.split)
  show "keeps I (nfs_write sv now i off data nf)"
    unfolding nfs_write_def using assms
    by (intro keeps_then) (auto intro!: keeps_then keeps_on_world_fuel keeps_log_node intro: write_keeps)
  show "keeps I (nfs_create sv now d nm nf)" "keeps I (nfs_create_exclusive sv now d nm nf)"
    unfolding nfs_create_def nfs_create_exclusive_def using create_node_keeps [OF assms] by (auto intro!: keeps_then)
  show "keeps I (nfs_mkdir sv now d nm nf)"
    unfolding nfs_mkdir_def Let_def using assms
    by (intro keeps_then vfs_world(2) keeps_log_path) (auto intro: vfs_invariant.mkdir_keeps [OF table])
  show "keeps I (nfs_remove sv now d nm nf)"
    unfolding nfs_remove_def Let_def using assms
    by (intro keeps_then vfs_world(2) keeps_log_path) (auto intro: vfs_invariant.remove_keeps [OF table] simp: deleted_def)
  show "keeps I (nfs_rename sv now d nm t tn nf)"
    unfolding nfs_rename_def Let_def using assms
    by (intro keeps_bind keeps_then vfs_world(2)) (auto intro: vfs_invariant.rename_keeps [OF table] simp: record_mutation_def changed_def)
qed

lemma request_keeps: "I (wd_vfs (nf_world nf)) \<Longrightarrow> answer_request sv now rq nf = Some nf' \<Longrightarrow> I (wd_vfs (nf_world nf'))"
  by (cases rq) (auto simp: nfs_symlink_def intro: reading_keeps writing_keeps dest: keeps_state [rotated])

lemma requests_keep: "I (wd_vfs (nf_world nf)) \<Longrightarrow> nfs_requests rqs nf = Some nf' \<Longrightarrow> I (wd_vfs (nf_world nf'))"
  by (induction rqs nf rule: nfs_requests.induct) (auto simp: bind_eq_Some_conv dest: request_keeps)

end

section \<open>Stale handles\<close>

text \<open>A handle whose node is gone is answered \<open>NFS3ERR_NOENT\<close> by every request, which changes nothing.\<close>

lemma gone_answers:
  assumes "wf_gone i (wd_vfs (nf_world nf))"
  shows "nfs_getattr sv i nf = Some (nf, Inl (E_Nfs Nfs_Noent))" "nfs_setattr sv now i sz nf = Some (nf, Inl (E_Nfs Nfs_Noent))"
    "nfs_read sv i off cnt nf = Some (nf, Inl (E_Nfs Nfs_Noent))" "nfs_write sv now i off data nf = Some (nf, Inl (E_Nfs Nfs_Noent))"
    "nfs_readdir sv i start mx nf = (nf, Inl (E_Nfs Nfs_Noent))" "nfs_readlink sv i nf = Some (nf, Inl (E_Nfs Nfs_Noent))"
proof -
  have n: "get_node (wd_vfs (nf_world nf)) i = None" using assms by (simp add: wf_gone_def gone_def)
  then have "live_node nf i = Inl (E_Nfs Nfs_Noent)" by (simp add: live_node_def)
  then show "nfs_getattr sv i nf = Some (nf, Inl (E_Nfs Nfs_Noent))" "nfs_setattr sv now i sz nf = Some (nf, Inl (E_Nfs Nfs_Noent))"
    "nfs_read sv i off cnt nf = Some (nf, Inl (E_Nfs Nfs_Noent))" "nfs_write sv now i off data nf = Some (nf, Inl (E_Nfs Nfs_Noent))"
    "nfs_readdir sv i start mx nf = (nf, Inl (E_Nfs Nfs_Noent))" "nfs_readlink sv i nf = Some (nf, Inl (E_Nfs Nfs_Noent))"
    using n by (simp_all add: nfs_getattr_def nfs_setattr_def nfs_read_def nfs_write_def nfs_readdir_def nfs_readlink_def)
qed

text \<open>A name that is looked up is a live child of its directory afterwards.\<close>

lemma lookup_child:
  assumes "nfs_lookup sv d nm nf = (nf', Inr i)" "from_utf8_lossy nm \<notin> {''.'', ''..''}"
  shows "live_child (wd_vfs (nf_world nf')) d (from_utf8_lossy nm) = Some i"
proof -
  let ?rv = "engine_view (sv_env sv) (wd_engine (nf_world nf))"
  obtain v r where v: "vfs_lookup ?rv d (from_utf8_lossy nm) (wd_vfs (nf_world nf)) = (v, r)" by fastforce
  then have "r = Inr i" "wd_vfs (nf_world nf') = v"
    using assms(1) by (cases r; auto simp: nfs_lookup_def on_world_def on_vfs_def split: if_splits)+
  moreover obtain u q where e: "ensure_dir_populated ?rv d (wd_vfs (nf_world nf)) = (u, q)" by fastforce
  ultimately show ?thesis using v assms(2)
    by (cases q) (auto simp: vfs_lookup_def split: option.splits)
qed

text \<open>Removing what a name was looked up as makes that node gone.\<close>

lemma removed_is_gone:
  assumes wf: "vfs_wf (wd_vfs (nf_world nf))" and look: "nfs_lookup sv d nm nf = (nf0, Inr i)"
    and nm: "from_utf8_lossy nm \<notin> {''.'', ''..''}" and run: "nfs_remove sv' now d nm nf0 = Some (nf1, Inr ())"
  shows "wf_gone i (wd_vfs (nf_world nf1))"
proof -
  let ?v = "wd_vfs (nf_world nf0)" and ?nm = "from_utf8_lossy nm"
  have wf0: "vfs_wf ?v" using wf_replay.reading_keeps(1) [OF wf, of sv d nm] look by simp
  obtain m where m: "hm_get (vs_child ?v) (d, ?nm) = Some i" "hm_get (vs_nodes ?v) i = Some m"
    using lookup_child [OF look nm] by (auto simp: live_child_def split: option.splits if_splits)
  obtain v1 n where r: "vfs_remove (engine_view (sv_env sv') (wd_engine (nf_world nf0))) d ?nm ?v = (v1, Inr n)"
    and nf1: "wd_vfs (nf_world nf1) = v1"
    using run by (auto simp: nfs_remove_def Let_def fuel_then_Inr on_world_Inr on_vfs_Inr deleted_def changed_def)
  obtain ids where "hm_get (vs_dirs ?v) d = Some ids" using wf_child [OF wf0 m(1)] by metis
  then have "ensure_dir_populated rv d ?v = (?v, Inr ())" for rv by (simp add: ensure_dir_populated_def)
  then have "n = m\<lparr>vn_deleted := True\<rparr>" using r m by (simp add: remove_eq)
  then have "vn_id n = i" using wf_node [OF wf0 m(2)] by simp
  then show ?thesis using remove_makes_gone [OF wf0 r] nf1 by simp
qed


text \<open>A creation in the root directory always returns: the path of the root needs no walk.\<close>

lemma root_create_returns: "\<exists>p. nfs_create sv now root_inode nm nf = Some p"
  by (auto simp: nfs_create_def create_node_def Let_def fuel_then_def child_path_def get_path_def split: option.splits prod.splits sum.splits)


end
