(* ===== verification/Server.thy ===== *)
theory Server
  imports Nfs_Spec
begin

text \<open>
  The server process, \<^verbatim>\<open>src/src/main.rs\<close>: its settings from the command line, the start with crash
  recovery, and the commit that runs after thirty seconds without a write and at the end. The commit
  holds the commit lock, so it is one step between the handlers. The two files of a pack written for
  the user are the flags \<open>dp_pack_written\<close> and \<open>dp_idx_written\<close>; messages are left out. A start that
  fails ends the process.
\<close>

section \<open>Settings\<close>

record args =
  ar_repo_url :: string
  ar_repo_bucket :: "string option"
  ar_repo_prefix :: "string option"
  ar_branch :: "string option"
  ar_author :: "string option"
  ar_wal_bucket :: "string option"
  ar_wal_prefix :: string

text \<open>The outputs of two \<open>git config\<close> commands, when they ran, and the variable \<open>USER\<close>.\<close>

definition config_value :: "bytes option \<Rightarrow> string option" where
  "config_value out =
     (case Option.bind out from_utf8 of
        Some s \<Rightarrow> if trim s \<noteq> [] then Some (trim s) else None
      | None \<Rightarrow> None)"

definition resolve_author :: "bytes option \<Rightarrow> bytes option \<Rightarrow> string option \<Rightarrow> string" where
  "resolve_author name_out email_out user =
     (let name = (case config_value name_out of Some n \<Rightarrow> n | None \<Rightarrow> (case user of Some u \<Rightarrow> u | None \<Rightarrow> ''git-nfs''));
          email = (case config_value email_out of Some e \<Rightarrow> e | None \<Rightarrow> ''git-nfs@local'')
      in name @ '' <'' @ email @ ''>'')"

text \<open>Bucket and prefix of a repository in a bucket.\<close>

definition repo_target :: "args \<Rightarrow> (string \<times> string) option" where
  "repo_target a =
     (case ar_repo_bucket a of
        Some bucket \<Rightarrow> Some (bucket, case ar_repo_prefix a of Some p \<Rightarrow> p | None \<Rightarrow> [])
      | None \<Rightarrow> split_target (ar_repo_url a))"

definition repo_identifier :: "args \<Rightarrow> string" where
  "repo_identifier a =
     (case repo_target a of Some (bucket, prefix) \<Rightarrow> ''gs://'' @ bucket @ ''/'' @ prefix | None \<Rightarrow> ar_repo_url a)"

text \<open>The directory name of the cache.\<close>

definition repo_slug :: "ext \<Rightarrow> args \<Rightarrow> string" where
  "repo_slug X a = x_hex_encode X (x_sha1 X (str_bytes (repo_identifier a)))"

definition effective_wal_bucket :: "args \<Rightarrow> string option" where
  "effective_wal_bucket a =
     (case ar_wal_bucket a of Some b \<Rightarrow> Some b | None \<Rightarrow> map_option fst (repo_target a))"

definition effective_wal_prefix :: "args \<Rightarrow> string" where
  "effective_wal_prefix a =
     (case repo_target a of
        Some (bucket, prefix) \<Rightarrow>
          (if ar_wal_prefix a = [] then
             (let clean = trim_start_char (CHR ''/'') prefix
              in if clean = [] \<or> ends_with ''/'' clean then clean @ ''wal/'' else clean @ ''/wal/'')
           else ar_wal_prefix a)
      | None \<Rightarrow> ar_wal_prefix a)"

section \<open>The running server\<close>

record ('c, 'b, 'g, 's, 'w) running =
  rn_nfs :: "('c, 'b, 'g, 's, 'w) nfs"
  rn_root :: string
  rn_base :: string

record deploy =
  dp_codec :: codec
  dp_recovery_io :: io
  dp_author :: string
  dp_repo_id :: string
  dp_branch :: "string option"
  dp_uid :: nat
  dp_gid :: nat
  dp_pack_written :: bool
  dp_idx_written :: bool

definition write_output :: "deploy \<Rightarrow> unit result" where
  "write_output dp = (if dp_pack_written dp \<and> dp_idx_written dp then Inr () else Inl E_Output)"

definition commit_defaults :: "deploy \<Rightarrow> string \<Rightarrow> commit_info" where
  "commit_defaults dp base = \<lparr>ci_base = base, ci_author = dp_author dp, ci_message = []\<rparr>"

text \<open>The number of the log of this session: one more than the last there is.\<close>

definition next_seq :: "nat list \<Rightarrow> nat" where
  "next_seq seqs = (if seqs = [] then 0 else wrap64 (last seqs + 1))"

definition boot ::
  "('c, 'b, 'g, 'v, 's, 'w) server \<Rightarrow> deploy \<Rightarrow> nat \<Rightarrow> 's \<Rightarrow> ('c, 'b, 'g) git_engine \<Rightarrow>
   ('c, 'b, 'g, 's, 'w) running result option" where
  "boot sv dp now s e =
     (case staging_new (sv_io sv) of
        Inl err \<Rightarrow> Some (Inl err)
      | Inr staging \<Rightarrow>
     map_option snd (fuel_then (engine_initialize (sv_env sv) (dp_branch dp) e) (\<lambda>e root_oid.
       case ge_commit e of
         None \<Rightarrow> Some (e, Inl (E_Repo Repo_NoRoot))
       | Some base_commit_oid \<Rightarrow>
           map_option (\<lambda>((s, e), r). (e,
             res_bind r (\<lambda>recovered.
             res_bind (if recovered = None then Inr () else write_output dp) (\<lambda>_.
               let e = (case recovered of
                          Some res \<Rightarrow> apply_recovered_objects (sv_env sv) (rp_commit res) (rp_root res) (rp_objects res) e
                        | None \<Rightarrow> e);
                   root = (case recovered of Some res \<Rightarrow> rp_root res | None \<Rightarrow> root_oid);
                   base = (case recovered of Some res \<Rightarrow> rp_commit res | None \<Rightarrow> base_commit_oid)
               in
               res_bind (wb_list (sv_wal sv) s) (\<lambda>all_seqs.
               case start_active_wal (sv_wal sv) now (dp_repo_id dp) base (dp_author dp) []
                      (wal_manager_new s (next_seq all_seqs)) of
                 (m, Inl err) \<Rightarrow> Inl err
               | (m, Inr _) \<Rightarrow>
                   Inr \<lparr>rn_nfs = nfs_new (dp_uid dp) (dp_gid dp) now
                          \<lparr>wd_vfs = vfs_new root, wd_staging = staging, wd_engine = e\<rparr> (Some m),
                        rn_root = root, rn_base = base\<rparr>)))))
             (recover_and_replay_uncommitted (sv_wal sv) (dp_codec dp) (sv_env sv) (dp_recovery_io dp) now root_oid
                (commit_defaults dp base_commit_oid) (dp_branch dp) (s, e)))))"

section \<open>Commits\<close>

text \<open>The next log of the session.\<close>

definition roll_log ::
  "('c, 'b, 'g, 'v, 's, 'w) server \<Rightarrow> deploy \<Rightarrow> nat \<Rightarrow> bool \<Rightarrow> ('s, 'w) wal_manager \<Rightarrow> ('c, 'b, 'g, 's, 'w) running \<Rightarrow>
   ('c, 'b, 'g, 's, 'w) running \<times> unit result" where
  "roll_log sv dp now is_shutdown m st =
     (case (if is_shutdown then (m, Inr ())
            else start_active_wal (sv_wal sv) now (dp_repo_id dp) (rn_base st) (dp_author dp) [] (fst (advance_seq m))) of
        (m, r) \<Rightarrow> (st\<lparr>rn_nfs := (rn_nfs st)\<lparr>nf_wal := Some m\<rparr>\<rparr>, r))"

text \<open>The commit becomes the state of the engine, and the staging area is emptied.\<close>

definition apply_commit ::
  "('c, 'b, 'g, 'v, 's, 'w) server \<Rightarrow> deploy \<Rightarrow> recovered_pack \<Rightarrow> ('c, 'b, 'g, 's, 'w) running \<Rightarrow>
   ('c, 'b, 'g, 's, 'w) running \<times> unit result" where
  "apply_commit sv dp res st =
     (let w = nf_world (rn_nfs st);
          e = apply_recovered_objects (sv_env sv) (rp_commit res) (rp_root res) (rp_objects res) (wd_engine w)
      in case staging_reset (sv_io sv) (wd_staging w) of
           (staging, r) \<Rightarrow>
             (st\<lparr>rn_nfs := (rn_nfs st)\<lparr>nf_world := w\<lparr>wd_engine := e, wd_staging := staging\<rparr>\<rparr>,
                 rn_root := rp_root res, rn_base := rp_commit res\<rparr>, r))"

definition after_recovery ::
  "('c, 'b, 'g, 'v, 's, 'w) server \<Rightarrow> deploy \<Rightarrow> nat \<Rightarrow> bool \<Rightarrow> ('s, 'w) wal_manager \<Rightarrow> recovered_pack option \<Rightarrow>
   ('c, 'b, 'g, 's, 'w) running \<Rightarrow> ('c, 'b, 'g, 's, 'w) running \<times> recovered_pack option result" where
  "after_recovery sv dp now is_shutdown m recovered st =
     and_then
       (case recovered of
          Some res \<Rightarrow> and_then (st, write_output dp) (\<lambda>st _. apply_commit sv dp res st)
        | None \<Rightarrow> (st, Inr ())) (\<lambda>st _.
     and_then (roll_log sv dp now is_shutdown m st) (\<lambda>st _. (st, Inr recovered)))"

definition perform_commit ::
  "('c, 'b, 'g, 'v, 's, 'w) server \<Rightarrow> deploy \<Rightarrow> nat \<Rightarrow> bool \<Rightarrow> ('s, 'w) wal_manager \<Rightarrow> ('c, 'b, 'g, 's, 'w) running \<Rightarrow>
   (('c, 'b, 'g, 's, 'w) running \<times> recovered_pack option result) option" where
  "perform_commit sv dp now is_shutdown m st =
     (case finalize_active_wal (sv_wal sv) m of
        (m, Inl err) \<Rightarrow> Some (st\<lparr>rn_nfs := (rn_nfs st)\<lparr>nf_wal := Some m\<rparr>\<rparr>, Inl err)
      | (m, Inr _) \<Rightarrow>
          map_option (\<lambda>((s, e), r).
            let m = m\<lparr>wm_store := s\<rparr>;
                st = st\<lparr>rn_nfs := (rn_nfs st)\<lparr>nf_world := (nf_world (rn_nfs st))\<lparr>wd_engine := e\<rparr>, nf_wal := Some m\<rparr>\<rparr>
            in and_then (st, r) (\<lambda>st recovered. after_recovery sv dp now is_shutdown m recovered st))
            (recover_and_replay_uncommitted (sv_wal sv) (dp_codec dp) (sv_env sv) (dp_recovery_io dp) now (rn_root st)
               (commit_defaults dp (rn_base st)) (dp_branch dp) (wm_store m, wd_engine (nf_world (rn_nfs st)))))"

text \<open>One tick of the background task: a failed commit is tried again at the next tick.\<close>

definition auto_commit_tick ::
  "('c, 'b, 'g, 'v, 's, 'w) server \<Rightarrow> deploy \<Rightarrow> nat \<Rightarrow> ('c, 'b, 'g, 's, 'w) running \<Rightarrow> ('c, 'b, 'g, 's, 'w) running option" where
  "auto_commit_tick sv dp now st =
     (case nf_wal (rn_nfs st) of
        None \<Rightarrow> Some st
      | Some m \<Rightarrow>
          (if nf_uncommitted (rn_nfs st) \<and> now div 1000000000 \<ge> nf_last_mutation (rn_nfs st) + 30
           then map_option (\<lambda>(st, r).
                  case r of Inr _ \<Rightarrow> st\<lparr>rn_nfs := (rn_nfs st)\<lparr>nf_uncommitted := False\<rparr>\<rparr> | Inl _ \<Rightarrow> st)
                  (perform_commit sv dp now False m st)
           else Some st))"

definition shutdown ::
  "('c, 'b, 'g, 'v, 's, 'w) server \<Rightarrow> deploy \<Rightarrow> nat \<Rightarrow> ('c, 'b, 'g, 's, 'w) running \<Rightarrow>
   (('c, 'b, 'g, 's, 'w) running \<times> recovered_pack option result) option" where
  "shutdown sv dp now st =
     (case nf_wal (rn_nfs st) of None \<Rightarrow> Some (st, Inr None) | Some m \<Rightarrow> perform_commit sv dp now True m st)"

section \<open>Correctness\<close>

lemma append_writer [simp]: "wm_writer (fst (append_durably B w en k)) = wm_writer k"
  by (auto simp: append_durably_def on_store_def and_then_def split: prod.split sum.split)

lemma start_fails_writer:
  assumes "start_active_wal B now url base author msg m = (m', Inl e)"
  shows "wm_writer m' = wm_writer m"
proof -
  obtain s1 r1 where o: "wb_open B (wm_active_seq m) (wm_store m) = (s1, r1)" by fastforce
  show ?thesis
  proof (cases r1)
    case (Inl err)
    then show ?thesis using assms o by (auto simp: start_active_wal_def on_store_def)
  next
    case (Inr w)
    let ?k = "m\<lparr>wm_store := s1\<rparr>"
    let ?en = "new_entry now (Wal_Header (session_header now url base author msg (wm_active_seq m))) ?k"
    obtain m2 r2 where d: "append_durably B w ?en (count_entry ?k) = (m2, r2)" by fastforce
    then show ?thesis using assms o Inr append_writer [of B w ?en "count_entry ?k"]
      by (cases r2) (auto simp: start_active_wal_def on_store_def Let_def)
  qed
qed

lemma finalize_no_writer: "wm_writer (fst (finalize_active_wal B m)) = None"
  by (cases "wm_writer m") (auto simp: finalize_active_wal_def on_store_def split: prod.split)

lemma apply_commit_wal: "nf_wal (rn_nfs (fst (apply_commit sv dp res st))) = nf_wal (rn_nfs st)"
  by (simp add: apply_commit_def Let_def split: prod.split)

lemma roll_fails_writer:
  assumes "roll_log sv dp now sh m st = (st', Inl e)" "wm_writer m = None"
  shows "\<exists>m'. nf_wal (rn_nfs st') = Some m' \<and> wm_writer m' = None"
proof (cases sh)
  case False
  obtain m1 r where r: "start_active_wal (sv_wal sv) now (dp_repo_id dp) (rn_base st) (dp_author dp) [] (fst (advance_seq m)) = (m1, r)"
    by fastforce
  then have "r = Inl e" "nf_wal (rn_nfs st') = Some m1" using assms(1) False by (auto simp: roll_log_def)
  then show ?thesis using start_fails_writer r assms(2) by (fastforce simp: advance_seq_def)
qed (use assms(1) in \<open>simp add: roll_log_def\<close>)

lemma after_fails_writer:
  assumes "after_recovery sv dp now sh m recovered st = (st', Inl e)" "wm_writer m = None" "nf_wal (rn_nfs st) = Some m"
  shows "\<exists>m'. nf_wal (rn_nfs st') = Some m' \<and> wm_writer m' = None"
proof -
  obtain st1 r1 where st1: "(case recovered of
      Some res \<Rightarrow> and_then (st, write_output dp) (\<lambda>st _. apply_commit sv dp res st) | None \<Rightarrow> (st, Inr ())) = (st1, r1)" by fastforce
  have wal: "nf_wal (rn_nfs st1) = Some m"
    using st1 assms(3) apply_commit_wal [of sv dp "the recovered" st]
    by (cases recovered; cases "write_output dp") auto
  show ?thesis
  proof (cases r1)
    case (Inl err)
    then show ?thesis using assms(1,2) st1 wal by (auto simp: after_recovery_def)
  next
    case (Inr u)
    obtain st2 r2 where st2: "roll_log sv dp now sh m st1 = (st2, r2)" by fastforce
    then have "r2 = Inl e" "st' = st2" using assms(1) st1 Inr by (cases r2; auto simp: after_recovery_def)+
    then show ?thesis using roll_fails_writer st2 assms(2) by blast
  qed
qed

lemma failed_commit_writer:
  assumes "perform_commit sv dp now sh m st = Some (st', Inl e)"
  shows "\<exists>m'. nf_wal (rn_nfs st') = Some m' \<and> wm_writer m' = None"
proof -
  obtain m1 r1 where f: "finalize_active_wal (sv_wal sv) m = (m1, r1)" by fastforce
  have w1: "wm_writer m1 = None" using finalize_no_writer [of "sv_wal sv" m] f by simp
  show ?thesis
  proof (cases r1)
    case (Inl err)
    then show ?thesis using assms f w1 by (auto simp: perform_commit_def)
  next
    case (Inr u)
    let ?st = "\<lambda>s x. st\<lparr>rn_nfs := (rn_nfs st)\<lparr>nf_world := (nf_world (rn_nfs st))\<lparr>wd_engine := x\<rparr>, nf_wal := Some (m1\<lparr>wm_store := s\<rparr>)\<rparr>\<rparr>"
    obtain s x r where a: "and_then (?st s x, r) (\<lambda>st recovered. after_recovery sv dp now sh (m1\<lparr>wm_store := s\<rparr>) recovered st) = (st', Inl e)"
      using assms f Inr by (auto simp: perform_commit_def Let_def)
    show ?thesis
    proof (cases r)
      case (Inl err)
      then show ?thesis using a w1 by auto
    next
      case (Inr recovered)
      then have "after_recovery sv dp now sh (m1\<lparr>wm_store := s\<rparr>) recovered (?st s x) = (st', Inl e)" using a by simp
      then show ?thesis by (rule after_fails_writer) (simp_all add: w1)
    qed
  qed
qed

lemma no_writer_logs_nothing:
  "wm_writer m = None \<Longrightarrow> \<exists>m'. log_mutations B ps m = (m', Inr ()) \<and> wm_store m' = wm_store m \<and> wm_writer m' = None"
proof (induction ps arbitrary: m)
  case (Cons p ps)
  have "wm_writer (count_entry m) = None" using Cons.prems by simp
  then show ?case using Cons.IH [of "count_entry m"] Cons.prems by (cases p) (simp add: log_mutation_def)
qed simp

text \<open>
  C27: after a commit that failed, whatever failed, the session has no log: every further mutation is
  acknowledged and logged "without error", and the log backend holds nothing of it.
\<close>

theorem failed_commit_stops_logging:
  assumes "perform_commit sv dp now sh m st = Some (st', Inl e)"
  shows "\<exists>m'. nf_wal (rn_nfs st') = Some m' \<and>
    (\<forall>ps. \<exists>m''. log_mutations (sv_wal sv) ps m' = (m'', Inr ()) \<and> wm_store m'' = wm_store m')"
  using failed_commit_writer [OF assms] no_writer_logs_nothing by blast

text \<open>
  C26: once a commit was applied, a file created in the session reads as empty through the mount: the
  staged bytes are gone and its node has no object, although the commit has the content.
\<close>

theorem applied_commit_empties_new_files:
  assumes "apply_commit sv dp res st = (st', Inr ())"
    "get_node (wd_vfs (nf_world (rn_nfs st))) i = Some n" "\<not> vn_is_dir n" "vn_oid n = []"
  shows "nfs_read sv' i off cnt (rn_nfs st') = Some (rn_nfs st', Inr ([], True))"
proof -
  have "wd_vfs (nf_world (rn_nfs st')) = wd_vfs (nf_world (rn_nfs st))" "sg_staged (wd_staging (nf_world (rn_nfs st'))) = []"
    "sg_deleted (wd_staging (nf_world (rn_nfs st'))) = []"
    using assms(1) by (auto simp: apply_commit_def staging_reset_def Let_def)
  then show ?thesis
    using assms(2-4) by (simp add: nfs_read_def live_node_def is_deleted_def staging_read_at_def is_staged_def)
qed

text \<open>What a successful start went through.\<close>

lemma boot_parts:
  assumes "boot sv dp now s e = Some (Inr run)"
  obtains e1 root0 base0 s2 e2 recovered seqs m where
    "recover_and_replay_uncommitted (sv_wal sv) (dp_codec dp) (sv_env sv) (dp_recovery_io dp) now root0
       (commit_defaults dp base0) (dp_branch dp) (s, e1) = Some ((s2, e2), Inr recovered)"
    "wb_list (sv_wal sv) s2 = Inr seqs" "nf_wal (rn_nfs run) = Some m"
    "start_active_wal (sv_wal sv) now (dp_repo_id dp) (rn_base run) (dp_author dp) [] (wal_manager_new s2 (next_seq seqs)) = (m, Inr ())"
    "wd_vfs (nf_world (rn_nfs run)) = vfs_new (rn_root run)"
proof -
  obtain staging where st: "staging_new (sv_io sv) = Inr staging"
    using assms by (cases "staging_new (sv_io sv)") (auto simp: boot_def)
  obtain p where "engine_initialize (sv_env sv) (dp_branch dp) e = Some p"
    using assms st by (cases "engine_initialize (sv_env sv) (dp_branch dp) e") (auto simp: boot_def)
  then obtain e1 r where "engine_initialize (sv_env sv) (dp_branch dp) e = Some (e1, r)" by (cases p) auto
  moreover from this obtain root0 where "r = Inr root0" using assms st by (cases r) (auto simp: boot_def)
  ultimately have ini: "engine_initialize (sv_env sv) (dp_branch dp) e = Some (e1, Inr root0)" by simp
  obtain base0 where base: "ge_commit e1 = Some base0"
    using assms st ini by (cases "ge_commit e1") (auto simp: boot_def)
  obtain s2 e2 r2 where rc: "recover_and_replay_uncommitted (sv_wal sv) (dp_codec dp) (sv_env sv) (dp_recovery_io dp) now root0
       (commit_defaults dp base0) (dp_branch dp) (s, e1) = Some ((s2, e2), r2)"
    using assms st ini base by (auto simp: boot_def)
  obtain recovered where r2: "r2 = Inr recovered" using assms st ini base rc by (cases r2) (auto simp: boot_def)
  obtain seqs where seqs: "wb_list (sv_wal sv) s2 = Inr seqs"
    using assms st ini base rc r2 by (cases "wb_list (sv_wal sv) s2") (auto simp: boot_def Let_def res_bind_Inr_iff)
  show thesis
    using assms st ini base rc r2 seqs
    by (auto simp: boot_def Let_def res_bind_Inr_iff nfs_new_def split: sum.splits prod.splits intro: that [OF _ seqs, of root0 base0 e1 e2 recovered])
qed

lemma sorted_last: "sorted xs \<Longrightarrow> x \<in> set xs \<Longrightarrow> x \<le> last xs"
  by (induction xs) auto

lemma local_list_sorted: "wb_list (local_wal_ops os C) s = Inr qs \<Longrightarrow> sorted qs"
  by (auto simp: local_wal_ops_def local_list_def split: if_splits)

lemma local_start_done:
  assumes "start_active_wal (local_wal_ops os C) now url base author msg m = (m', Inr ())"
  shows "local_completed (wm_store m') = local_completed (wm_store m)"
proof -
  have p: "local_done_path a \<noteq> local_log_path b" for a b by simp
  show ?thesis
    using assms p
    by (auto simp: start_active_wal_def on_store_def local_wal_ops_def local_open_def append_durably_def local_append_def
        fs_append_def local_flush_def local_completed_def fs_is_file_def Let_def split: if_splits)
qed

lemma next_seq_above:
  assumes "sorted qs" "q \<in> set qs" "\<And>r. r \<in> set qs \<Longrightarrow> r < u64_max"
  shows "q < next_seq qs"
proof -
  have "last qs \<in> set qs" using assms(2) by (cases qs) auto
  then have "last qs < u64_max" using assms(3) by blast
  then show ?thesis using sorted_last [OF assms(1,2)] assms(2) by (auto simp: next_seq_def wrap64_def)
qed

text \<open>
  C13: a server with its log in a local directory that can be examined (one that cannot counts as empty) and that
  started is ready: every log of earlier sessions has its done marker, its own log is a
  new one with a larger number whose only record is the header naming the commit it starts from, and its
  inode table is the fresh one of that commit's tree.
\<close>

theorem boot_ready:
  assumes "sv_wal sv = local_wal_ops os C" "local_inv s" "\<And>q. local_logs s q \<noteq> None \<Longrightarrow> q < u64_max"
    "os_ok os (Fs_Stat [])" "boot sv dp now s e = Some (Inr run)"
  shows "\<exists>m w q. nf_wal (rn_nfs run) = Some m \<and> wm_writer m = Some w \<and>
    (\<forall>r. local_logs s r \<noteq> None \<longrightarrow> r < q \<and> r \<in> local_completed (wm_store m)) \<and>
    local_logs (wm_store m) q = Some (log_bytes C (numbered_entries 1
      [(now, Wal_Header (session_header now (dp_repo_id dp) (rn_base run) (dp_author dp) [] q))])) \<and>
    wd_vfs (nf_world (rn_nfs run)) = vfs_new (rn_root run)"
proof -
  obtain e1 root0 base0 s2 e2 recovered seqs m where
    rc: "recover_and_replay_uncommitted (local_wal_ops os C) (dp_codec dp) (sv_env sv) (dp_recovery_io dp) now root0
       (commit_defaults dp base0) (dp_branch dp) (s, e1) = Some ((s2, e2), Inr recovered)"
    and ls: "wb_list (local_wal_ops os C) s2 = Inr seqs" and m: "nf_wal (rn_nfs run) = Some m"
    and st: "start_active_wal (local_wal_ops os C) now (dp_repo_id dp) (rn_base run) (dp_author dp) [] (wal_manager_new s2 (next_seq seqs)) = (m, Inr ())"
    and v: "wd_vfs (nf_world (rn_nfs run)) = vfs_new (rn_root run)"
    using boot_parts [OF assms(5)] assms(1) by metis
  have s2: "local_inv s2" "local_logs s2 = local_logs s" by (rule local_store.recover_marks [OF assms(2) rc])+
  have marked: "local_logs s q \<noteq> None \<Longrightarrow> q \<in> local_completed s2" for q
    using local_store.recover_completes [OF assms(2) rc assms(4), of q] s2(2) by simp
  have set: "set seqs = {q. local_logs s q \<noteq> None}"
    using local_store.list_all_logs [OF s2(1) assms(4) ls] s2(2) by simp
  have above: "q < next_seq seqs" if "local_logs s q \<noteq> None" for q
    using next_seq_above [OF local_list_sorted [OF ls], of q] that assms(3) set by auto
  let ?m = "wal_manager_new s2 (next_seq seqs) :: (local_wal, path) wal_manager"
  have "local_logs (wm_store ?m) (wm_active_seq ?m) = None"
    using above [of "next_seq seqs"] s2(2) by (cases "local_logs s (next_seq seqs)") (auto simp: wal_manager_new_def)
  from local_log.start_logs_header [OF this st]
  show ?thesis
    using m v above marked local_start_done [OF st] by (auto simp: wal_manager_new_def)
qed

section \<open>Witnesses\<close>

text \<open>An empty repository behind a server, its one tree pack cached; all objects have the id \<open>0\<close>.\<close>

definition zero_ext :: ext where
  "zero_ext = demo_ext\<lparr>x_hex_encode := \<lambda>_. ''0''\<rparr>"

definition head_commit :: bytes where
  "head_commit = str_bytes (''tree r'' @ [CHR 0x0A])"

definition head_pack :: bytes where
  "head_pack = pack_bytes zero_ext [Base_Frame Commit_Type head_commit] [1, 2]"

definition head_net :: net where
  "head_net url body = Http_Body (encode_pkt_line ''0 HEAD'' @ flush_pkt)"

definition head_server where
  "head_server = \<lparr>sv_env = (demo_env os_fine)\<lparr>ev_ext := zero_ext, ev_net := head_net\<rparr>,
     sv_wal = local_wal_ops os_fine demo_codec, sv_io = all_ok\<rparr>"

definition demo_deploy :: deploy where
  "demo_deploy = \<lparr>dp_codec = demo_codec, dp_recovery_io = all_ok, dp_author = ''a'', dp_repo_id = ''h'', dp_branch = None,
     dp_uid = 0, dp_gid = 0, dp_pack_written = True, dp_idx_written = True\<rparr>"

lemma zero_ids: "compute_git_sha1 zero_ext ty d = ''0''"
  by (simp add: compute_git_sha1_def zero_ext_def)

lemma head_pack_unpacks:
  "unpack_packfile zero_ext head_pack = Inr [(''0'', \<lparr>ro_type = Commit_Type, ro_data = head_commit\<rparr>)]"
proof -
  have z: "zlib_laws zero_ext" using demo_zlib_laws by (simp add: zlib_laws_def zero_ext_def)
  have "frames_ok zero_ext [Base_Frame Commit_Type head_commit]" by (simp add: frames_ok_def isize_max_def head_commit_def)
  then show ?thesis
    unfolding head_pack_def
    by (subst unpack_read_state [OF z])
      (simp_all add: read_state_def resolve_loop.simps add_frame.simps add_object_def Let_def zero_ids)
qed

lemma head_resolved: "http_resolve_head head_net None c = (c\<lparr>hc_requests := hc_requests c + 1\<rparr>, Inr (''0'', ''master''))"
proof -
  have ok: "list_all pkt_ok [Text_Pkt ''0 HEAD'', Flush_Pkt]" by (simp add: utf8_valid_str_ascii)
  have p: "parse_pkt_lines (encode_pkt_line ''0 HEAD'' @ flush_pkt) = Inr [''0 HEAD'']"
    using pkt_stream_prefix [OF ok, of "[]"] by (simp add: pkt_lines_end)
  have w: "split_whitespace ''0 HEAD'' = [''0'', ''HEAD'']" by code_simp
  show ?thesis using p w by (simp add: http_resolve_head_def http_post_def head_net_def)
qed

definition head_engine where
  "head_engine = demo_engine [(tree_pack_path ''0'', head_pack)]"

lemma head_root: "root_of_commit head_commit = Some ''r''"
  by code_simp

lemma head_initialized:
  "\<exists>e. engine_initialize (sv_env head_server) None head_engine = Some (e, Inr ''r'') \<and> ge_commit e = Some ''0''"
proof -
  have "fs_read os_fine (tree_pack_path ''0'') [(tree_pack_path ''0'', head_pack)] = Some head_pack"
    by (simp add: fs_read_def os_fine_def)
  then show ?thesis
    by (simp add: engine_initialize_def initialize_http_def head_engine_def demo_engine_def fresh_engine_def head_server_def demo_env_def
        head_resolved tree_pack_def disk_get_tree_pack_def head_pack_unpacks head_root Let_def)
qed

lemma head_boots: "\<exists>run. boot head_server demo_deploy 0 \<lparr>lw_files = [], lw_readonly = []\<rparr> head_engine = Some (Inr run)"
proof -
  let ?s = "\<lparr>lw_files = [], lw_readonly = []\<rparr>"
  obtain e where e: "engine_initialize (sv_env head_server) None head_engine = Some (e, Inr ''r'')" "ge_commit e = Some ''0''"
    using head_initialized by blast
  have ls: "wb_list (sv_wal head_server) ?s = Inr []"
    by (simp add: head_server_def local_wal_ops_def local_list_def os_fine_def map_filter_def)
  obtain m where m: "start_active_wal (sv_wal head_server) 0 ''h'' ''0'' ''a'' [] (wal_manager_new ?s 0) = (m, Inr ())"
    by (simp add: head_server_def start_active_wal_def on_store_def local_wal_ops_def local_open_def os_fine_def fs_is_file_def
        append_durably_def local_append_def fs_append_def local_flush_def wal_manager_new_def Let_def)
  have "staging_new (sv_io head_server) = Inr demo_staging" by (simp add: head_server_def staging_new_def remaining_files_def demo_staging_def)
  then show ?thesis
    using e ls m
    by (simp add: boot_def recover_and_replay_uncommitted_def demo_deploy_def commit_defaults_def next_seq_def Let_def)
qed

theorem boot_ready_witness:
  "\<exists>run m q. boot head_server demo_deploy 0 \<lparr>lw_files = [], lw_readonly = []\<rparr> head_engine = Some (Inr run) \<and>
     nf_wal (rn_nfs run) = Some m \<and> wm_writer m \<noteq> None \<and> local_logs (wm_store m) q \<noteq> None"
proof -
  obtain run where run: "boot head_server demo_deploy 0 \<lparr>lw_files = [], lw_readonly = []\<rparr> head_engine = Some (Inr run)"
    using head_boots by blast
  have "local_inv \<lparr>lw_files = [], lw_readonly = []\<rparr>" "\<And>q. local_logs \<lparr>lw_files = [], lw_readonly = []\<rparr> q \<noteq> None \<Longrightarrow> q < u64_max"
    by (simp_all add: local_inv_def local_logs_def)
  from boot_ready [OF _ this _ run, of os_fine demo_codec] show ?thesis using run by (fastforce simp: head_server_def os_fine_def)
qed

definition demo_running where
  "demo_running = \<lparr>rn_nfs = demo_created, rn_root = ''r'', rn_base = ''b''\<rparr>"

definition no_sync :: os where
  "no_sync = \<lparr>os_ok = (\<lambda>c. case c of Fs_Sync _ \<Rightarrow> False | _ \<Rightarrow> True), os_torn = (\<lambda>_. 0), os_short = (\<lambda>_. None), os_dirs = (\<lambda>_. None)\<rparr>"

theorem failed_commit_stops_logging_witness:
  "\<exists>st' m' m''. perform_commit (demo_server\<lparr>sv_wal := local_wal_ops no_sync demo_codec\<rparr>) demo_deploy 0 False demo_manager_started demo_running =
     Some (st', Inl E_Wal) \<and> nf_wal (rn_nfs st') = Some m' \<and>
     log_mutations (local_wal_ops no_sync demo_codec) [(0, Wal_Mkdir ''d'')] m' = (m'', Inr ()) \<and> wm_store m'' = wm_store m'"
proof -
  have w: "wm_writer demo_manager_started \<noteq> None"
    using demo_start by (auto simp: demo_manager_started_def start_active_wal_def on_store_def local_wal_ops_def local_open_def os_fine_def
        fs_is_file_def append_durably_def local_append_def fs_append_def local_flush_def demo_manager_def wal_manager_new_def Let_def)
  obtain st' where run: "perform_commit (demo_server\<lparr>sv_wal := local_wal_ops no_sync demo_codec\<rparr>) demo_deploy 0 False demo_manager_started demo_running =
     Some (st', Inl E_Wal)"
    using w by (auto simp: perform_commit_def finalize_active_wal_def on_store_def local_wal_ops_def local_flush_def no_sync_def)
  from failed_commit_stops_logging [OF run] obtain m' where m': "nf_wal (rn_nfs st') = Some m'"
    "\<forall>ps. \<exists>m''. log_mutations (local_wal_ops no_sync demo_codec) ps m' = (m'', Inr ()) \<and> wm_store m'' = wm_store m'" by auto
  obtain m'' where "log_mutations (local_wal_ops no_sync demo_codec) [(0, Wal_Mkdir ''d'')] m' = (m'', Inr ())" "wm_store m'' = wm_store m'"
    using m'(2) by blast
  then show ?thesis using run m'(1) by blast
qed

definition demo_recovered :: recovered_pack where
  "demo_recovered = \<lparr>rp_commit = ''c'', rp_root = ''t'', rp_pack = [], rp_idx = [], rp_sha = ''p'', rp_objects = []\<rparr>"

theorem applied_commit_empties_new_files_witness:
  "\<exists>st'. apply_commit demo_server demo_deploy demo_recovered demo_running = (st', Inr ()) \<and>
     nfs_read demo_server 2 0 10 (rn_nfs st') = Some (rn_nfs st', Inr ([], True))"
proof -
  obtain st' where run: "apply_commit demo_server demo_deploy demo_recovered demo_running = (st', Inr ())"
    by (simp add: apply_commit_def staging_reset_def demo_server_def Let_def)
  have n: "get_node (wd_vfs (nf_world (rn_nfs demo_running))) 2 = Some demo_node"
    by (simp add: demo_running_def demo_created_vfs demo_vfs_def demo_node_def vfs_eval get_node_def Let_def)
  from applied_commit_empties_new_files [OF run n, of demo_server 0 10] run show ?thesis by (simp add: demo_node_def)
qed

end
