(* ===== verification/Mount.thy ===== *)
theory Mount
  imports Prelude
begin

text \<open>
  Mounting, \<^verbatim>\<open>src/src/mount/mod.rs\<close>, and binding the listener, \<^verbatim>\<open>src/src/nfs/mod.rs\<close>. The commands
  of the operating system and the listener of the nfsserve crate are parameters: what a command answers
  to its argument list, and the port a listener is bound to. The state is the list of commands run so
  far. Paths of the mount point are strings.
\<close>

datatype command_status = Not_Started | Exited bool

record host =
  ho_macos :: bool
  ho_exists :: "string \<Rightarrow> bool"
  ho_create_dir :: "string \<Rightarrow> bool"
  ho_run :: "string list \<Rightarrow> command_status"

type_synonym commands = "string list list"

definition decimal :: "nat \<Rightarrow> string" where
  "decimal n = to_radix 10 n"

section \<open>The listener\<close>

definition start_nfs_server :: "(string \<Rightarrow> nat option) \<Rightarrow> string \<Rightarrow> nat \<Rightarrow> (string \<times> nat) result" where
  "start_nfs_server listen ip port =
     (case listen (ip @ '':'' @ decimal port) of
        None \<Rightarrow> Inl E_Bind
      | Some bound_port \<Rightarrow> Inr (ip, bound_port))"

section \<open>The mounter\<close>

record nfs_mounter =
  mt_mountpoint :: string
  mt_unmounted :: bool

definition umount_program :: "host \<Rightarrow> string" where
  "umount_program h = (if ho_macos h then ''/sbin/umount'' else ''umount'')"

definition mount_options :: "host \<Rightarrow> nat \<Rightarrow> string" where
  "mount_options h port =
     (if ho_macos h
      then ''rw,tcp,noatime,nolocks,locallocks,soft,timeo=30,port='' @ decimal port @ '',mountport='' @ decimal port
      else ''ro,tcp,port='' @ decimal port @ '',mountport='' @ decimal port @ '',nolock'')"

definition mount_command :: "host \<Rightarrow> string \<Rightarrow> nat \<Rightarrow> string \<Rightarrow> string list" where
  "mount_command h ip port mount_str =
     (if ho_macos h then [''/sbin/mount_nfs''] else [''mount'', ''-t'', ''nfs''])
     @ [''-o'', mount_options h port, ip @ '':/'', mount_str]"

text \<open>A stale mount is cleaned up first, whatever comes of it.\<close>

definition nfs_mount :: "host \<Rightarrow> string \<Rightarrow> nat \<Rightarrow> string \<Rightarrow> commands \<Rightarrow> commands \<times> nfs_mounter result" where
  "nfs_mount h ip port mount_str cs =
     (if \<not> ho_exists h mount_str \<and> \<not> ho_create_dir h mount_str then (cs, Inl E_Mount)
      else
        (cs @ [[umount_program h, ''-f'', mount_str], mount_command h ip port mount_str],
         if ho_run h (mount_command h ip port mount_str) = Exited True
         then Inr \<lparr>mt_mountpoint = mount_str, mt_unmounted = False\<rparr> else Inl E_Mount))"

text \<open>The flag is swapped before the command runs; its status is only reported.\<close>

definition unmount :: "host \<Rightarrow> nfs_mounter \<Rightarrow> commands \<Rightarrow> nfs_mounter \<times> commands" where
  "unmount h m cs =
     (if mt_unmounted m then (m, cs)
      else (m\<lparr>mt_unmounted := True\<rparr>, cs @ [[umount_program h, mt_mountpoint m]]))"

definition drop_mounter :: "host \<Rightarrow> nfs_mounter \<Rightarrow> commands \<Rightarrow> commands" where
  "drop_mounter h m cs = snd (unmount h m cs)"

lemma unmount_then_drop:
  "drop_mounter h (fst (unmount h m cs)) (snd (unmount h m cs)) =
     (if mt_unmounted m then cs else cs @ [[umount_program h, mt_mountpoint m]])"
  by (simp add: drop_mounter_def unmount_def)

end
