(* ===== verification/Process.thy ===== *)
theory Process
  imports Server Mount
begin

text \<open>
  A run of the whole process, \<^verbatim>\<open>main\<close> of \<^verbatim>\<open>src/src/main.rs\<close>: start, listener, mount, the requests
  and the ticks of the background task in the order they take the commit lock, then the signal: the
  background task ends, the mount is released and the last commit is made. The commands run and the
  state at the end, when there is one, are part of the outcome.
\<close>

section \<open>Serving\<close>

datatype event = Request nat nfs_op | Tick nat

definition serve_event ::
  "('c, 'b, 'g, 'v, 's, 'w) server \<Rightarrow> deploy \<Rightarrow> event \<Rightarrow> ('c, 'b, 'g, 's, 'w) running \<Rightarrow>
   ('c, 'b, 'g, 's, 'w) running option" where
  "serve_event sv dp ev st =
     (case ev of
        Request now op \<Rightarrow> map_option (\<lambda>(nf, _). st\<lparr>rn_nfs := nf\<rparr>) (nfs_do sv now op (rn_nfs st))
      | Tick now \<Rightarrow> auto_commit_tick sv dp now st)"

fun serve ::
  "('c, 'b, 'g, 'v, 's, 'w) server \<Rightarrow> deploy \<Rightarrow> event list \<Rightarrow> ('c, 'b, 'g, 's, 'w) running \<Rightarrow>
   ('c, 'b, 'g, 's, 'w) running option" where
  "serve sv dp [] st = Some st"
| "serve sv dp (ev # evs) st = Option.bind (serve_event sv dp ev st) (serve sv dp evs)"

section \<open>The process\<close>

record settings =
  se_listen :: "string \<Rightarrow> nat option"
  se_port :: nat
  se_no_mount :: bool
  se_mountpoint :: string

definition start_mount :: "host \<Rightarrow> settings \<Rightarrow> string \<times> nat \<Rightarrow> commands \<times> nfs_mounter option result" where
  "start_mount h se info =
     (if se_no_mount se then ([], Inr None)
      else case nfs_mount h (fst info) (snd info) (se_mountpoint se) [] of
             (cs, r) \<Rightarrow> (cs, res_bind r (\<lambda>m. Inr (Some m))))"

definition release_mount :: "host \<Rightarrow> nfs_mounter option \<Rightarrow> commands \<Rightarrow> commands" where
  "release_mount h mounter cs =
     (case mounter of None \<Rightarrow> cs | Some m \<Rightarrow> case unmount h m cs of (m, cs) \<Rightarrow> drop_mounter h m cs)"

definition run_process ::
  "('c, 'b, 'g, 'v, 's, 'w) server \<Rightarrow> deploy \<Rightarrow> host \<Rightarrow> settings \<Rightarrow> nat \<Rightarrow> 's \<Rightarrow> ('c, 'b, 'g) git_engine \<Rightarrow> event list \<Rightarrow> nat \<Rightarrow>
   (commands \<times> ('c, 'b, 'g, 's, 'w) running option \<times> recovered_pack option result) option" where
  "run_process sv dp h se now s e evs later =
     Option.bind (boot sv dp now s e) (\<lambda>r. case r of
        Inl err \<Rightarrow> Some ([], None, Inl err)
      | Inr st \<Rightarrow>
          (case start_nfs_server (se_listen se) ''127.0.0.1'' (se_port se) of
             Inl err \<Rightarrow> Some ([], Some st, Inl err)
           | Inr info \<Rightarrow>
               (case start_mount h se info of
                  (cs, Inl err) \<Rightarrow> Some (cs, Some st, Inl err)
                | (cs, Inr mounter) \<Rightarrow>
                    Option.bind (serve sv dp evs st) (\<lambda>st.
                      map_option (\<lambda>(st, r). (release_mount h mounter cs, Some st, r)) (shutdown sv dp later st)))))"

section \<open>The mount is released exactly once\<close>

definition mount_cycle :: "host \<Rightarrow> settings \<Rightarrow> nat \<Rightarrow> commands" where
  "mount_cycle h se port =
     (if se_no_mount se \<or> \<not> ho_exists h (se_mountpoint se) \<and> \<not> ho_create_dir h (se_mountpoint se) then []
      else [[umount_program h, ''-f'', se_mountpoint se], mount_command h ''127.0.0.1'' port (se_mountpoint se)] @
        (if ho_run h (mount_command h ''127.0.0.1'' port (se_mountpoint se)) = Exited True
         then [[umount_program h, se_mountpoint se]] else []))"

lemma mount_commands:
  assumes "start_mount h se (''127.0.0.1'', port) = (cs, r)"
  shows "r = Inl e \<Longrightarrow> cs = mount_cycle h se port" "r = Inr mounter \<Longrightarrow> release_mount h mounter cs = mount_cycle h se port"
  using assms
  by (auto simp: start_mount_def nfs_mount_def release_mount_def mount_cycle_def unmount_def drop_mounter_def split: if_splits)

text \<open>
  C29: the commands of a process that came to an end are one cycle of the mount or nothing: nothing when it
  did not get to mount; else one clean-up and one mount, followed by exactly one unmount of the same
  mount point if the mount succeeded, whatever becomes of the requests, the commits and the final commit.
\<close>

theorem mount_released_once:
  assumes "run_process sv dp h se now s e evs later = Some (cs, final, r)"
  shows "cs = [] \<or> (\<exists>port. se_listen se (''127.0.0.1:'' @ decimal (se_port se)) = Some port \<and> cs = mount_cycle h se port)"
proof -
  obtain b where b: "boot sv dp now s e = Some b" using assms by (auto simp: run_process_def bind_eq_Some_conv)
  show ?thesis
  proof (cases "\<exists>st port. b = Inr st \<and> se_listen se (''127.0.0.1:'' @ decimal (se_port se)) = Some port")
    case True
    then obtain st port where p: "b = Inr st" "se_listen se (''127.0.0.1:'' @ decimal (se_port se)) = Some port" by blast
    obtain cs1 r1 where m: "start_mount h se (''127.0.0.1'', port) = (cs1, r1)" by fastforce
    have "cs = mount_cycle h se port"
      using assms b p m mount_commands [OF m]
      by (cases r1) (auto simp: run_process_def start_nfs_server_def bind_eq_Some_conv split: prod.splits)
    then show ?thesis using p(2) by blast
  qed (use assms b in \<open>auto simp: run_process_def start_nfs_server_def split: sum.splits option.splits\<close>)
qed

section \<open>After a clean exit\<close>

lemma after_recovery_shutdown:
  assumes "after_recovery sv dp now True m recovered st = (st', r)" "nf_wal (rn_nfs st) = Some m"
  shows "nf_wal (rn_nfs st') = Some m"
  using assms apply_commit_wal [of sv dp "the recovered" st]
  by (auto simp: after_recovery_def roll_log_def and_then_def split: option.splits prod.splits sum.splits)

lemma shutdown_recovers:
  assumes "nf_wal (rn_nfs st) = Some m" "shutdown sv dp now st = Some (st', Inr x)"
  obtains m1 e s' e' y m' where "finalize_active_wal (sv_wal sv) m = (m1, Inr ())"
    "recover_and_replay_uncommitted (sv_wal sv) (dp_codec dp) (sv_env sv) (dp_recovery_io dp) now (rn_root st)
       (commit_defaults dp (rn_base st)) (dp_branch dp) (wm_store m1, e) = Some ((s', e'), Inr y)"
    "nf_wal (rn_nfs st') = Some m'" "wm_store m' = s'"
proof -
  let ?rec = "\<lambda>m1. recover_and_replay_uncommitted (sv_wal sv) (dp_codec dp) (sv_env sv) (dp_recovery_io dp) now (rn_root st)
     (commit_defaults dp (rn_base st)) (dp_branch dp) (wm_store m1, wd_engine (nf_world (rn_nfs st)))"
  let ?st = "\<lambda>m1 s e. st\<lparr>rn_nfs := (rn_nfs st)\<lparr>nf_world := (nf_world (rn_nfs st))\<lparr>wd_engine := e\<rparr>, nf_wal := Some (m1\<lparr>wm_store := s\<rparr>)\<rparr>\<rparr>"
  obtain m1 where f: "finalize_active_wal (sv_wal sv) m = (m1, Inr ())"
    using assms by (auto simp: shutdown_def perform_commit_def split: prod.splits sum.splits)
  then obtain s' e' r where rc: "?rec m1 = Some ((s', e'), r)"
    and st: "and_then (?st m1 s' e', r) (\<lambda>st recovered. after_recovery sv dp now True (m1\<lparr>wm_store := s'\<rparr>) recovered st) = (st', Inr x)"
    using assms by (auto simp: shutdown_def perform_commit_def Let_def)
  obtain y where y: "r = Inr y" "after_recovery sv dp now True (m1\<lparr>wm_store := s'\<rparr>) y (?st m1 s' e') = (st', Inr x)"
    using st by (cases r) auto
  have "nf_wal (rn_nfs st') = Some (m1\<lparr>wm_store := s'\<rparr>)" using after_recovery_shutdown [OF y(2)] by simp
  then show thesis using that f rc y(1) by simp
qed

lemma local_finalize_store: "wm_store (fst (finalize_active_wal (local_wal_ops os C) m)) = wm_store m"
  by (auto simp: finalize_active_wal_def on_store_def local_wal_ops_def local_flush_def split: option.splits)

text \<open>
  C14: with the local log, a process that ended well and could examine its log directory left nothing behind: the directory it ends with has a
  done marker for every log there is, its own included, so the recovery of the next start, whatever calls
  fail but the look for these markers (a marker that cannot be examined counts as missing, and its log is
  replayed again), recovers nothing and changes neither the repository nor a marker.
\<close>

theorem clean_exit_leaves_nothing:
  assumes "sv_wal sv = local_wal_ops os C" "nf_wal (rn_nfs st) = Some m" "local_inv (wm_store m)"
    "shutdown sv dp now st = Some (st', Inr x)"
    "os_ok os (Fs_Stat [])" "\<And>q. os_ok os' (Fs_Stat (local_done_path q))"
    "recover_and_replay_uncommitted (local_wal_ops os' C') C' ev' io' now' root' defaults' branch' (s0, e0) = Some ((s1, e1), r)"
    "nf_wal (rn_nfs st') = Some m'" "wm_store m' = s0"
  shows "(\<forall>q. local_logs s0 q \<noteq> None \<longrightarrow> q \<in> local_completed s0) \<and> e1 = e0 \<and>
    local_completed s1 = local_completed s0 \<and> (\<forall>y. r = Inr y \<longrightarrow> y = None)"
proof -
  obtain m1 e s' e' y where "finalize_active_wal (local_wal_ops os C) m = (m1, Inr ())"
    and run: "recover_and_replay_uncommitted (local_wal_ops os C) (dp_codec dp) (sv_env sv) (dp_recovery_io dp) now (rn_root st)
       (commit_defaults dp (rn_base st)) (dp_branch dp) (wm_store m1, e) = Some ((s', e'), Inr y)" and s': "s' = s0"
    using shutdown_recovers [OF assms(2,4)] assms(1,8,9) by (metis option.inject)
  then have inv: "local_inv (wm_store m1)" using local_finalize_store [of os C m] assms(3) by simp
  show ?thesis
    using local_store.recover_completes [OF inv run assms(5)] local_store.recover_idle [OF local_store.recover_marks(1) [OF inv run] _ local_done_seen [OF assms(6)] assms(7) [folded s']]
      s' by blast
qed

section \<open>Witnesses\<close>

text \<open>A host whose mount command fails.\<close>

definition demo_host :: host where
  "demo_host = \<lparr>ho_macos = False, ho_exists = (\<lambda>_. True), ho_create_dir = (\<lambda>_. True),
     ho_run = (\<lambda>c. if hd c = ''mount'' then Exited False else Exited True)\<rparr>"

definition demo_settings :: settings where
  "demo_settings = \<lparr>se_listen = (\<lambda>_. Some 5), se_port = 0, se_no_mount = False, se_mountpoint = ''/m''\<rparr>"

theorem mount_released_once_witness:
  "\<exists>cs final r. run_process head_server demo_deploy demo_host demo_settings 0 \<lparr>lw_files = [], lw_readonly = []\<rparr> head_engine [] 0 =
     Some (cs, final, r) \<and> length cs = 2 \<and> cs = mount_cycle demo_host demo_settings 5"
proof -
  obtain st where b: "boot head_server demo_deploy 0 \<lparr>lw_files = [], lw_readonly = []\<rparr> head_engine = Some (Inr st)"
    using head_boots by blast
  then have run: "\<exists>cs final r. run_process head_server demo_deploy demo_host demo_settings 0 \<lparr>lw_files = [], lw_readonly = []\<rparr>
     head_engine [] 0 = Some (cs, final, r) \<and> length cs = 2"
    by (simp add: run_process_def start_nfs_server_def start_mount_def nfs_mount_def demo_host_def demo_settings_def mount_command_def)
  then obtain cs final r where r: "run_process head_server demo_deploy demo_host demo_settings 0 \<lparr>lw_files = [], lw_readonly = []\<rparr>
     head_engine [] 0 = Some (cs, final, r)" "length cs = 2" by blast
  then show ?thesis using mount_released_once [OF r(1)] by (auto simp: demo_settings_def)
qed

text \<open>A server at the end of a session that logged nothing, in the directory of the log 0.\<close>

definition demo_ending where
  "demo_ending = \<lparr>rn_nfs = demo_created\<lparr>nf_wal := Some (wal_manager_new demo_wal 0)\<rparr>, rn_root = ''r'', rn_base = ''b''\<rparr>"

theorem clean_exit_leaves_nothing_witness:
  "\<exists>st' m'. shutdown demo_server demo_deploy 7 demo_ending = Some (st', Inr None) \<and> nf_wal (rn_nfs st') = Some m' \<and>
     local_logs (wm_store m') 0 \<noteq> None \<and> 0 \<in> local_completed (wm_store m')"
proof -
  have dp: "dp_codec demo_deploy = demo_codec" "dp_branch demo_deploy = None" "dp_recovery_io demo_deploy = all_ok"
    "commit_defaults demo_deploy ''b'' = \<lparr>ci_base = ''b'', ci_author = ''a'', ci_message = []\<rparr>"
    by (simp_all add: demo_deploy_def commit_defaults_def)
  have en: "wd_engine (nf_world (rn_nfs demo_ending)) = demo_engine []" by (simp add: demo_ending_def demo_created_def demo_world_def)
  obtain st' m' where sh: "shutdown demo_server demo_deploy 7 demo_ending = Some (st', Inr None)" "nf_wal (rn_nfs st') = Some m'"
    "wm_store m' = demo_wal_done"
    using demo_recovery [of demo_codec]
    by (simp add: shutdown_def perform_commit_def demo_ending_def finalize_active_wal_def wal_manager_new_def dp
        demo_server_def en [unfolded demo_ending_def, simplified] after_recovery_def roll_log_def Let_def)
  obtain t where again: "recover_and_replay_uncommitted (local_wal_ops os_fine demo_codec) demo_codec (demo_env os_fine) all_ok 7 ''r''
      \<lparr>ci_base = ''b'', ci_author = ''a'', ci_message = []\<rparr> None (demo_wal_done, demo_engine []) = Some ((t, demo_engine []), Inr None)"
    using demo_recovery_again by blast
  have "sv_wal demo_server = local_wal_ops os_fine demo_codec" "nf_wal (rn_nfs demo_ending) = Some (wal_manager_new demo_wal 0)"
    "local_inv (wm_store (wal_manager_new demo_wal 0))"
    using demo_wal_inv by (simp_all add: demo_server_def demo_ending_def wal_manager_new_def)
  from clean_exit_leaves_nothing [OF this sh(1) _ _ again sh(2,3)] show ?thesis
    using sh by (auto simp: os_fine_def local_logs_def demo_wal_done_def)
qed

end
