(* ===== verification/Spec2Isabelle.thy ===== *)
theory Spec2Isabelle
  imports Commit_Message Vfs_Spec Staging Wal_Proto Commit_Spec Gcs_Commit Engine_Spec Singleflight Crash_Spec Stale_Spec Process
begin

text \<open>
  git-nfs serves the tree of a Git repository over NFS and lets clients change it. It fetches commits and
  trees from a remote (smart HTTP, or a bucket of Cloud Storage) and files when they are read; changes go
  to a staging directory and to a write-ahead log, and after thirty seconds without a change, and at the
  end, the log is replayed on a fresh copy of the tree and becomes a commit, a pack and an index. The same
  replay recovers the log of a server that died.

  \<^bold>\<open>Theories and sources\<close> (all under \<^verbatim>\<open>src/src/\<close>)

  \<^item> Prelude, Rust_Text, Frames, External, File_System, Gcs_Service: results and errors, state passing
    (\<open>and_then\<close>, \<open>fuel_then\<close>), hash maps, slices, big-endian numbers, radix text, UTF-8; the locale
    \<open>frame_loop\<close> of a loop that reads frames; and what is not part of the repository: hashing, hex and zlib
    (\<open>ext\<close>), the operating system (\<open>os\<close>, \<open>io\<close>), the Cloud Storage client (\<open>gcs\<close>).
  \<^item> Pkt_Line: \<^verbatim>\<open>git/protocol.rs\<close>. Git_Tree: \<^verbatim>\<open>git/tree.rs\<close>. Git_Delta, Git_Pack: \<^verbatim>\<open>git/pack.rs\<close>.
    Git_Idx: \<^verbatim>\<open>git/idx.rs\<close>. Pack_Writer: \<^verbatim>\<open>git/pack_writer.rs\<close>. Commit_Message:
    \<^verbatim>\<open>git/commit_message.rs\<close>, \<^verbatim>\<open>vfs/filter.rs\<close>.
  \<^item> Vfs, Vfs_Spec: \<^verbatim>\<open>vfs/inode.rs\<close>, the inode table. Staging: \<^verbatim>\<open>staging/mod.rs\<close>. Tree_Builder,
    Commit_Spec: \<^verbatim>\<open>git/builder.rs\<close>.
  \<^item> Caches: \<^verbatim>\<open>cache/memory.rs\<close>, \<^verbatim>\<open>cache/disk.rs\<close>. Block_Cache: \<^verbatim>\<open>cache/block.rs\<close>. Singleflight: the table
    of fetches in flight of \<^verbatim>\<open>cache/block.rs\<close> and \<^verbatim>\<open>git/mod.rs\<close>.
  \<^item> Smart_Http: \<^verbatim>\<open>git/smart_http.rs\<close>. Gcs_Storage, Gcs_Read, Gcs_Commit: \<^verbatim>\<open>git/gcs_storage.rs\<close>.
    Git_Engine, Engine_Spec: \<^verbatim>\<open>git/mod.rs\<close>.
  \<^item> Wal_Proto: \<^verbatim>\<open>wal/proto.rs\<close>. Wal_Backend: \<^verbatim>\<open>wal/backend.rs\<close>, \<^verbatim>\<open>wal/local.rs\<close>, \<^verbatim>\<open>wal/gcs.rs\<close>.
    Recovery: \<^verbatim>\<open>wal/recovery.rs\<close>. Wal_Manager: \<^verbatim>\<open>wal/mod.rs\<close>.
  \<^item> Nfs_Fs, Nfs_Session, Nfs_Spec: \<^verbatim>\<open>nfs/fs.rs\<close>. Mount: \<^verbatim>\<open>mount/mod.rs\<close>, \<^verbatim>\<open>nfs/mod.rs\<close>. Server,
    Process: \<^verbatim>\<open>main.rs\<close>. Crash_Spec: the composition of a session, its crash and its recovery.
    Stale_Spec: any sequence of requests of the mount, and the handles of removed files.

  A theory named after a part holds its state as a record, its data types and one definition per function,
  named as in the source or with the part as a prefix (\<open>vfs_rename\<close>, \<open>nfs_write\<close>, \<open>gcs_resolve_head\<close>);
  loops have a definition of their own (\<open>delta_loop\<close>). The theories ending in Spec, and Gcs_Read and
  Gcs_Commit, hold what is shown of it.

  \<^bold>\<open>Conventions.\<close> Rust strings are lists of bytes written as characters, byte vectors are lists of 8-bit
  words, lengths and counters are natural numbers, with the wrap-around of the 64-bit counters written out
  (\<open>wrap64\<close>). A result is \<open>Inl\<close> an error or \<open>Inr\<close> a value; a panic is the error \<open>Panic\<close>, which \<open>.ok()\<close> and
  \<open>map_err\<close> do not catch. A hash map is an association list with distinct keys; where the code iterates
  over one, the model's order is one the code could take. A method of the code, with the lock it takes, is one
  atomic step. Clocks are arguments, in nanoseconds. The failures of the operating system are answers of an
  oracle, so a theorem that does not speak of the oracle holds for all of them: \<open>io\<close> for the staging
  directory (which calls succeed, what a failed copy or write leaves in a file, which files an ignored failure
  to clear the directory leaves), \<open>os\<close> for the other files (which calls succeed, what torn writes leave, which
  reads come out short, the length of a directory). What cannot be examined does not exist
  for the code, as for \<^verbatim>\<open>Path::exists\<close> (\<open>fs_is_file\<close>, \<open>existing_file\<close>, \<open>local_list\<close>).

  \<^bold>\<open>Interfaces.\<close> \<open>vfs_invariant\<close> and \<open>replay_invariant\<close> carry an invariant of the inode table through every
  operation and every replay (interpreted for well-formedness, and for an inode that stays removed);
  \<open>byte_store\<close> is the contract of a file store that the staging area meets; \<open>wal_store\<close>,
  \<open>exact_wal_store\<close> and \<open>append_log\<close> are what the log manager relies on, met by the local directory and by the
  bucket; \<open>frame_loop\<close> is met by the loops over packet lines, trees, deltas and log records.

  \<^bold>\<open>What is shown.\<close> Crash_Spec and Nfs_Session: what clients wrote before a crash is in the commit that
  recovery makes, byte for byte and path for path. Nfs_Spec: reads return what was written, listings come in
  complete pages. Stale_Spec: the handle of a removed file stays stale. Staging: a write changes the bytes it
  names and no others, and the recorded size is that of the file unless a write failed. Commit_Spec: what is staged is what is committed, and the
  recursion over dirty directories ends. Git_Pack, Pack_Writer, Git_Idx, Git_Delta: unpacking any
  well-formed pack, in any order and depth of its deltas, gives its objects; what is written can be read
  back, through the index too. Gcs_Read, Block_Cache: ranges read through the block cache are slices of
  the pack, and objects are read from it. Gcs_Commit: a branch never names a commit whose pack is not there.
  Engine_Spec: in every reachable state of the HTTP source, content it serves hashes to its id, when no write
  of the disk cache is torn. Wal_Manager: a log is
  done only when every log not done was replayed and packed, and, for a bucket, the pack published. Vfs_Spec: the operations refine a map from directory and name to
  inode. Server, Process: a start leaves every earlier log done, a clean end leaves nothing, the mount is
  released once. Theorems with an error in their name state what the code does wrong.

  \<^bold>\<open>Bounds and fuel.\<close> Recursions that follow data the code does not bound return an option, with \<open>None\<close> for
  a run that does not end: \<open>get_path\<close> and the walk to dirty ancestors are partial functions; the
  reading of objects from packs has the fuel \<open>ev_fuel\<close>, for which Gcs_Read gives the depth of the delta
  chain; the rebuilding of trees has as fuel the number of dirty directories, which
  \<open>rebuild_enough_fuel\<close> shows to be enough. Theorems on results state that there is one where it does not follow.

  \<^bold>\<open>Not modelled.\<close> The benchmark binary, a measuring tool. The argument parser, the messages and the log
  output; the signal is the end of the sequence of events of a process. Interleavings inside one method,
  apart from Singleflight; the background prefetch of a listing is a step of its own. The order in which the
  LRU cache evicts, of which only the lookups are used. Listings of a bucket beyond their first page, as in
  the code. The bucket of the log and that of the repository are separate states. The protobuf encoding,
  zlib, SHA-1, the HTTP and Cloud Storage clients, the NFS protocol itself (nfsserve) are parameters, with
  their laws as hypotheses (\<open>codec_laws\<close>, \<open>zlib_laws\<close>, \<open>sha1_laws\<close>, \<open>hex_laws\<close>, \<open>lru_laws\<close>, \<open>gcs_read_laws\<close>, \<open>gcs_write_laws\<close>,
  \<open>gcs_reopen_laws\<close>). What zlib makes of a stream that is cut short is left open.

  \<^bold>\<open>Open.\<close> Recovery by an engine in another state of its caches than the one the session began with;
  sessions on a log in the bucket; reads of the bucket source verified against their ids.
\<close>

end
